(* ===== verification/Prelude.thy ===== *)
theory Prelude
  imports Main "HOL-Library.Word"
begin

text \<open>
  Shared vocabulary of the development: Rust's fixed width integers, byte slices, the
  error type of \<^verbatim>\<open>crates/drydb/src/error.rs\<close> and its \<open>Result\<close>, little endian reads and
  writes, three way comparison, and the generic lemmas every component proof rests on.

  Conventions.  A byte is an \<open>8 word\<close>.  \<open>usize\<close> and \<open>u64\<close> quantities (lengths, offsets,
  page ordinals, byte counts) are natural numbers, with \<open>usize\<close> taken to be 64 bits wide
  and every \<open>checked_\<close> or \<open>saturating_\<close> operation of the source written out against
  \<open>2 ^ 64\<close>.  \<open>i32\<close> and \<open>i64\<close> values are integers read as two's complement.  A digest,
  which the code manipulates bitwise, is a \<open>64 word\<close>.  Error messages are not modelled:
  an error is its kind, its location and its budget figures.
\<close>

unbundle bit_operations_syntax

named_theorems result_simps \<open>rewriting of computations in the result type\<close>
named_theorems codec_simps \<open>little endian encoding and decoding\<close>
named_theorems slice_simps \<open>sub-slices of byte buffers\<close>

type_synonym byte = "8 word"
type_synonym bytes = "byte list"
type_synonym u64 = "64 word"

subsection \<open>Errors (error.rs)\<close>

datatype ErrorKind =
    Io
  | UnsupportedFormat
  | UnknownEncoding
  | UnknownFilter
  | CorruptData
  | BudgetExceeded
  | ValueTooLarge
  | SchemaMismatch
  | ArchiveValidation
  | InvalidArgument
  | Unsupported

record Location =
  loc_page :: "nat option"
  loc_offset :: "nat option"

record BudgetInfo =
  requested :: nat
  in_use :: nat
  bi_limit :: nat
  retryable :: bool

record Error =
  err_kind :: ErrorKind
  err_location :: Location
  err_budget :: "BudgetInfo option"

type_synonym 'a result = "Error + 'a"

abbreviation Ok :: "'a \<Rightarrow> 'a result" where "Ok \<equiv> Inr"
abbreviation Err :: "Error \<Rightarrow> 'a result" where "Err \<equiv> Inl"

definition error_new :: "ErrorKind \<Rightarrow> Error" where
  "error_new k = \<lparr>err_kind = k, err_location = \<lparr>loc_page = None, loc_offset = None\<rparr>,
     err_budget = None\<rparr>"

definition corrupt :: Error where "corrupt = error_new CorruptData"

definition invalid :: Error where "invalid = error_new InvalidArgument"

definition error_io :: Error where "error_io = error_new Io"

definition error_budget :: "BudgetInfo \<Rightarrow> Error" where
  "error_budget info = \<lparr>err_kind = BudgetExceeded,
     err_location = \<lparr>loc_page = None, loc_offset = None\<rparr>, err_budget = Some info\<rparr>"

definition at_page :: "nat \<Rightarrow> Error \<Rightarrow> Error" where
  "at_page p e = e\<lparr>err_location := (err_location e)\<lparr>loc_page := Some p\<rparr>\<rparr>"

definition at_offset :: "nat \<Rightarrow> Error \<Rightarrow> Error" where
  "at_offset n e = e\<lparr>err_location := (err_location e)\<lparr>loc_offset := Some n\<rparr>\<rparr>"

definition is_retryable :: "Error \<Rightarrow> bool" where
  "is_retryable e = (case err_budget e of None \<Rightarrow> False | Some b \<Rightarrow> retryable b)"

lemma err_kind_simps [simp]:
  "err_kind (error_new k) = k" "err_kind corrupt = CorruptData"
  "err_kind invalid = InvalidArgument" "err_kind error_io = Io"
  "err_kind (error_budget i) = BudgetExceeded"
  "err_kind (at_page p e) = err_kind e" "err_kind (at_offset n e) = err_kind e"
  by (simp_all add: error_new_def corrupt_def invalid_def error_io_def error_budget_def
      at_page_def at_offset_def)

subsection \<open>Computations that may fail\<close>

definition and_then :: "'a result \<Rightarrow> ('a \<Rightarrow> 'b result) \<Rightarrow> 'b result" where
  "and_then r f = (case r of Inl e \<Rightarrow> Inl e | Inr v \<Rightarrow> f v)"

definition map_err :: "(Error \<Rightarrow> Error) \<Rightarrow> 'a result \<Rightarrow> 'a result" where
  "map_err f r = (case r of Inl e \<Rightarrow> Inl (f e) | Inr v \<Rightarrow> Inr v)"

definition ok_or :: "'a option \<Rightarrow> Error \<Rightarrow> 'a result" where
  "ok_or x e = (case x of None \<Rightarrow> Inl e | Some v \<Rightarrow> Inr v)"

definition is_ok :: "'a result \<Rightarrow> bool" where
  "is_ok r = (case r of Inl _ \<Rightarrow> False | Inr _ \<Rightarrow> True)"

lemma and_then_simps [simp, result_simps]:
  "and_then (Inl e) f = Inl e" "and_then (Inr v) f = f v"
  by (simp_all add: and_then_def)

lemma map_err_simps [simp, result_simps]:
  "map_err g (Inl e) = Inl (g e)" "map_err g (Inr v) = Inr v"
  by (simp_all add: map_err_def)

lemma ok_or_simps [simp, result_simps]:
  "ok_or None e = Inl e" "ok_or (Some v) e = Inr v"
  by (simp_all add: ok_or_def)

lemma is_ok_simps [simp]: "is_ok (Inr v)" "\<not> is_ok (Inl e)"
  by (simp_all add: is_ok_def)

lemma is_ok_iff: "is_ok r \<longleftrightarrow> (\<exists>v. r = Inr v)"
  by (cases r) auto

lemma and_then_Ok_iff [simp]: "and_then r f = Inr v \<longleftrightarrow> (\<exists>x. r = Inr x \<and> f x = Inr v)"
  by (cases r) auto

lemma if_Err_Ok_iff [simp]:
  "(if b then Inl e else r) = Inr v \<longleftrightarrow> \<not> b \<and> r = Inr v"
  "(if b then r else Inl e) = Inr v \<longleftrightarrow> b \<and> r = Inr v"
  by auto

lemma and_then_Err_iff:
  "and_then r f = Inl e \<longleftrightarrow> r = Inl e \<or> (\<exists>x. r = Inr x \<and> f x = Inl e)"
  by (cases r) auto

lemma and_then_cong [fundef_cong]:
  "r = r' \<Longrightarrow> (\<And>v. r' = Inr v \<Longrightarrow> f v = g v) \<Longrightarrow> and_then r f = and_then r' g"
  by (cases r) auto

lemma map_err_Ok_iff [simp]: "map_err g r = Inr v \<longleftrightarrow> r = Inr v"
  by (cases r) auto

lemma ok_or_Ok_iff [simp]: "ok_or x e = Inr v \<longleftrightarrow> x = Some v"
  by (cases x) auto

lemma ok_or_Err_iff [simp]: "ok_or x e = Inl e' \<longleftrightarrow> x = None \<and> e' = e"
  by (cases x) auto

text \<open>A loop \<open>for i in xs\<close> whose body can fail.\<close>

fun for_each :: "('a \<Rightarrow> unit result) \<Rightarrow> 'a list \<Rightarrow> unit result" where
  "for_each f [] = Ok ()"
| "for_each f (x # xs) = and_then (f x) (\<lambda>_. for_each f xs)"

lemma for_each_Ok_iff: "for_each f xs = Inr () \<longleftrightarrow> (\<forall>x \<in> set xs. f x = Inr ())"
  by (induction xs) auto

subsection \<open>Three way comparison\<close>

datatype ordering = Less | Equal | Greater

definition cmp :: "'a::linorder \<Rightarrow> 'a \<Rightarrow> ordering" where
  "cmp a b = (if a < b then Less else if a = b then Equal else Greater)"

fun ord_then :: "ordering \<Rightarrow> ordering \<Rightarrow> ordering" where
  "ord_then Equal o2 = o2"
| "ord_then o1 o2 = o1"

fun ord_reverse :: "ordering \<Rightarrow> ordering" where
  "ord_reverse Less = Greater"
| "ord_reverse Equal = Equal"
| "ord_reverse Greater = Less"

fun cmp_bytes :: "bytes \<Rightarrow> bytes \<Rightarrow> ordering" where
  "cmp_bytes [] [] = Equal"
| "cmp_bytes [] (b # bs) = Less"
| "cmp_bytes (a # as) [] = Greater"
| "cmp_bytes (a # as) (b # bs) = ord_then (cmp a b) (cmp_bytes as bs)"

lemma cmp_iff [simp]:
  "cmp a b = Less \<longleftrightarrow> a < b" "cmp a b = Equal \<longleftrightarrow> a = b" "cmp a b = Greater \<longleftrightarrow> b < a"
  by (auto simp: cmp_def)

lemma cmp_eval [simp]:
  "a < b \<Longrightarrow> cmp a b = Less" "cmp a a = Equal" "b < a \<Longrightarrow> cmp a b = Greater"
  by (auto simp: cmp_def)

lemma ord_then_iff:
  "ord_then x y = Less \<longleftrightarrow> x = Less \<or> x = Equal \<and> y = Less"
  "ord_then x y = Equal \<longleftrightarrow> x = Equal \<and> y = Equal"
  "ord_then x y = Greater \<longleftrightarrow> x = Greater \<or> x = Equal \<and> y = Greater"
  by (cases x; simp)+

lemma cmp_reverse: "cmp b a = ord_reverse (cmp a b)"
  by (cases "cmp a b") (auto simp: cmp_def split: if_splits)

lemma ord_reverse_then: "ord_reverse (ord_then x y) = ord_then (ord_reverse x) (ord_reverse y)"
  by (cases x) auto

lemma cmp_bytes_Equal_iff [simp]: "cmp_bytes a b = Equal \<longleftrightarrow> a = b"
  by (induction a b rule: cmp_bytes.induct) (auto simp: ord_then_iff)

lemma cmp_bytes_reverse: "cmp_bytes b a = ord_reverse (cmp_bytes a b)"
  by (induction a b rule: cmp_bytes.induct) (simp_all add: ord_reverse_then cmp_reverse [symmetric])

lemma cmp_bytes_trans:
  "cmp_bytes a b = Less \<Longrightarrow> cmp_bytes b c = Less \<Longrightarrow> cmp_bytes a c = Less"
proof (induction a b arbitrary: c rule: cmp_bytes.induct)
  case (2 b bs)
  then show ?case by (cases c) auto
next
  case (4 a as b bs)
  then show ?case by (cases c) (auto simp: ord_then_iff)
qed auto

subsection \<open>Machine arithmetic\<close>

definition usize_max :: nat where "usize_max = 2 ^ 64 - 1"

definition checked_add :: "nat \<Rightarrow> nat \<Rightarrow> nat option" where
  "checked_add a b = (if a + b \<le> usize_max then Some (a + b) else None)"

definition checked_sub :: "nat \<Rightarrow> nat \<Rightarrow> nat option" where
  "checked_sub a b = (if b \<le> a then Some (a - b) else None)"

definition checked_mul :: "nat \<Rightarrow> nat \<Rightarrow> nat option" where
  "checked_mul a b = (if a * b \<le> usize_max then Some (a * b) else None)"

definition saturating_add :: "nat \<Rightarrow> nat \<Rightarrow> nat" where
  "saturating_add a b = min (a + b) usize_max"

definition saturating_mul :: "nat \<Rightarrow> nat \<Rightarrow> nat" where
  "saturating_mul a b = min (a * b) usize_max"

definition saturating_sub :: "nat \<Rightarrow> nat \<Rightarrow> nat" where
  "saturating_sub a b = a - b"

lemma checked_Some_iff [simp]:
  "checked_add a b = Some c \<longleftrightarrow> a + b \<le> usize_max \<and> c = a + b"
  "checked_sub a b = Some c \<longleftrightarrow> b \<le> a \<and> c = a - b"
  "checked_mul a b = Some c \<longleftrightarrow> a * b \<le> usize_max \<and> c = a * b"
  by (auto simp: checked_add_def checked_sub_def checked_mul_def)

lemma checked_None_iff [simp]:
  "checked_add a b = None \<longleftrightarrow> usize_max < a + b"
  "checked_sub a b = None \<longleftrightarrow> a < b"
  "checked_mul a b = None \<longleftrightarrow> usize_max < a * b"
  by (auto simp: checked_add_def checked_sub_def checked_mul_def)

text \<open>Reading a two's complement value of \<open>w\<close> bits, and writing one.\<close>

definition to_signed :: "nat \<Rightarrow> nat \<Rightarrow> int" where
  "to_signed w n = (if 2 ^ (w - 1) \<le> n then int n - 2 ^ w else int n)"

definition of_signed :: "nat \<Rightarrow> int \<Rightarrow> nat" where
  "of_signed w i = nat (i mod 2 ^ w)"

lemma to_signed_of_signed:
  assumes "0 < w" "- (2 ^ (w - 1)) \<le> i" "i < 2 ^ (w - 1)"
  shows "to_signed w (of_signed w i) = i"
proof -
  obtain v where w: "w = Suc v" using assms(1) by (cases w) auto
  show ?thesis
  proof (cases "0 \<le> i")
    case True
    then have "i mod 2 ^ w = i" using assms w by (intro mod_pos_pos_trivial) auto
    with True assms w show ?thesis
      by (simp add: to_signed_def of_signed_def nat_le_iff le_nat_iff)
  next
    case False
    have "(i + 2 ^ w) mod 2 ^ w = i + 2 ^ w"
      using False assms w by (intro mod_pos_pos_trivial) auto
    then have m: "i mod 2 ^ w = i + 2 ^ w" by simp
    have "2 ^ v \<le> nat (i + 2 ^ Suc v)" using assms w by (simp add: le_nat_iff)
    with False assms m w show ?thesis
      by (simp add: to_signed_def of_signed_def)
  qed
qed

lemma to_signed_nonneg [simp]: "n < 2 ^ (w - 1) \<Longrightarrow> to_signed w n = int n"
  by (simp add: to_signed_def)

lemma to_signed_nonneg_iff:
  assumes "n < 2 ^ w" shows "0 \<le> to_signed w n \<longleftrightarrow> n < 2 ^ (w - 1)"
proof (cases "n < 2 ^ (w - 1)")
  case False
  have "int n < 2 ^ w" using assms by (metis of_nat_less_iff of_nat_numeral of_nat_power)
  with False show ?thesis by (simp add: to_signed_def)
qed simp

lemma to_signed_range:
  assumes "n < 2 ^ w" "0 < w" shows "- (2 ^ (w - 1)) \<le> to_signed w n" "to_signed w n < 2 ^ (w - 1)"
proof -
  obtain u where w: "w = Suc u" using assms(2) by (cases w) auto
  have "int n < 2 ^ w" using assms(1) by (metis of_nat_less_iff of_nat_numeral of_nat_power)
  moreover have "int (2 ^ u) \<le> int n \<longleftrightarrow> 2 ^ u \<le> n" by (rule of_nat_le_iff)
  ultimately show "- (2 ^ (w - 1)) \<le> to_signed w n" "to_signed w n < 2 ^ (w - 1)"
    using w by (auto simp: to_signed_def)
qed

lemma of_signed_nonneg: "0 \<le> i \<Longrightarrow> i < 2 ^ w \<Longrightarrow> of_signed w i = nat i"
  by (simp add: of_signed_def)

lemma of_signed_less: "of_signed w i < 2 ^ w"
  by (simp add: of_signed_def nat_less_iff)

subsection \<open>Byte slices and little endian numbers\<close>

definition slice :: "bytes \<Rightarrow> nat \<Rightarrow> nat \<Rightarrow> bytes" where
  "slice buf start len = take len (drop start buf)"

definition slice_get :: "bytes \<Rightarrow> nat \<Rightarrow> nat \<Rightarrow> bytes option" where
  "slice_get buf start stop =
     (if start \<le> stop \<and> stop \<le> length buf then Some (slice buf start (stop - start)) else None)"

definition byte_get :: "bytes \<Rightarrow> nat \<Rightarrow> byte option" where
  "byte_get buf i = (if i < length buf then Some (buf ! i) else None)"

fun le_nat :: "bytes \<Rightarrow> nat" where
  "le_nat [] = 0"
| "le_nat (b # bs) = unat b + 256 * le_nat bs"

fun le_bytes :: "nat \<Rightarrow> nat \<Rightarrow> bytes" where
  "le_bytes 0 n = []"
| "le_bytes (Suc k) n = word_of_nat (n mod 256) # le_bytes k (n div 256)"

lemma le_bytes_numeral:
  "le_bytes (numeral k) n = word_of_nat (n mod 256) # le_bytes (pred_numeral k) (n div 256)"
  unfolding numeral_eq_Suc [of k] by (rule le_bytes.simps(2))

lemma length_le_bytes [simp]: "length (le_bytes k n) = k"
  by (induction k arbitrary: n) auto

lemma unat_byte_less: "unat (b :: byte) < 256"
proof -
  have "unat b < 2 ^ LENGTH(8)" by (rule unsigned_less)
  then show ?thesis by simp
qed

lemma unat_u64_less: "unat (d :: u64) < 2 ^ 64"
proof -
  have "unat d < 2 ^ LENGTH(64)" by (rule unsigned_less)
  then show ?thesis by simp
qed

lemma unat_word_of_nat_byte [simp]: "unat (word_of_nat n :: byte) = n mod 256"
  by (simp add: unat_of_nat)

lemma le_nat_le_bytes [codec_simps]: "le_nat (le_bytes k n) = n mod 256 ^ k"
proof (induction k arbitrary: n)
  case (Suc k)
  show ?case by (simp add: Suc mod_mult2_eq)
qed simp

lemma le_bytes_le_nat [codec_simps]: "length bs = k \<Longrightarrow> le_bytes k (le_nat bs) = bs"
proof (induction bs arbitrary: k)
  case (Cons b bs)
  then obtain j where k: "k = Suc j" "length bs = j" by auto
  have "(unat b + 256 * le_nat bs) mod 256 = unat b"
    "(unat b + 256 * le_nat bs) div 256 = le_nat bs"
    using unat_byte_less [of b] by simp_all
  then show ?case using k Cons.IH by simp
qed simp

lemma le_nat_less: "le_nat bs < 256 ^ length bs"
proof (induction bs)
  case (Cons b bs)
  have "unat b + 256 * le_nat bs < 256 * (le_nat bs + 1)"
    using unat_byte_less [of b] by simp
  also have "\<dots> \<le> 256 * 256 ^ length bs" using Cons by simp
  finally show ?case by simp
qed simp

lemma length_slice: "length (slice buf a n) = min n (length buf - a)"
  by (simp add: slice_def)

lemma length_slice_in [simp, slice_simps]: "a + n \<le> length buf \<Longrightarrow> length (slice buf a n) = n"
  by (simp add: slice_def)

lemma slice_get_Some_iff [simp]:
  "slice_get buf a b = Some s \<longleftrightarrow> a \<le> b \<and> b \<le> length buf \<and> s = slice buf a (b - a)"
  by (auto simp: slice_get_def)

lemma slice_get_None_iff [simp]: "slice_get buf a b = None \<longleftrightarrow> \<not> (a \<le> b \<and> b \<le> length buf)"
  by (auto simp: slice_get_def)

lemma byte_get_Some_iff [simp]: "byte_get buf i = Some b \<longleftrightarrow> i < length buf \<and> b = buf ! i"
  by (auto simp: byte_get_def)

lemma byte_get_None_iff [simp]: "byte_get buf i = None \<longleftrightarrow> length buf \<le> i"
  by (auto simp: byte_get_def)

text \<open>Reading back what a concatenation of fields has at a known position.\<close>

lemma slice_skip: "length xs \<le> a \<Longrightarrow> slice (xs @ ys) a n = slice ys (a - length xs) n"
  by (simp add: slice_def)

lemma slice_here: "length xs = n \<Longrightarrow> slice (xs @ ys) 0 n = xs"
  by (simp add: slice_def)

lemma slice_all: "length xs = n \<Longrightarrow> slice xs 0 n = xs"
  by (simp add: slice_def)

lemma slice_within: "a + n \<le> length xs \<Longrightarrow> slice (xs @ ys) a n = slice xs a n"
  by (simp add: slice_def)

lemma slice_slice: "b + m \<le> n \<Longrightarrow> slice (slice buf a n) b m = slice buf (a + b) m"
  by (simp add: slice_def drop_take min_def add.commute)

lemma slice_concat:
  "i < length xs \<Longrightarrow>
   slice (concat xs) (\<Sum>j<i. length (xs ! j)) (length (xs ! i)) = xs ! i"
proof (induction xs arbitrary: i)
  case (Cons x xs)
  show ?case
  proof (cases i)
    case 0
    then show ?thesis by (simp add: slice_def)
  next
    case (Suc k)
    have "(\<Sum>j<Suc k. length ((x # xs) ! j)) = length x + (\<Sum>j<k. length (xs ! j))"
      by (simp add: sum.lessThan_Suc_shift del: sum.lessThan_Suc)
    with Suc Cons show ?thesis by (simp add: slice_skip)
  qed
qed simp

end
