(* ===== verification/Format.thy ===== *)
theory Format
  imports Prelude
begin

text \<open>
  The scalar layer of the file format: the constants and bounds-checked little endian
  readers of \<^verbatim>\<open>crates/drydb/src/format/mod.rs\<close>, the 26 byte file header of
  \<^verbatim>\<open>format/header.rs\<close> and the 16 byte page reference of \<^verbatim>\<open>format/pageref.rs\<close>.  Both
  records are shown to be decoded exactly: a buffer parses to a value if and only if the
  value is in range and the buffer starts with its encoding.
\<close>

subsection \<open>Constants (format/mod.rs)\<close>

definition MAGIC :: bytes where "MAGIC = [0x44, 0x52, 0x59, 0]"
definition MAJOR_VERSION :: byte where "MAJOR_VERSION = 1"
definition MINOR_VERSION :: byte where "MINOR_VERSION = 4"
definition HEADER_LEN :: nat where "HEADER_LEN = 26"
definition PAGE_PREFIX_LEN :: nat where "PAGE_PREFIX_LEN = 28"
definition KIND_OFFSET :: nat where "KIND_OFFSET = 4"
definition ENTRY_COUNT_OFFSET :: nat where "ENTRY_COUNT_OFFSET = 8"
definition LEFT_SIBLING_OFFSET :: nat where "LEFT_SIBLING_OFFSET = 12"
definition RIGHT_SIBLING_OFFSET :: nat where "RIGHT_SIBLING_OFFSET = 20"
definition DIGEST_BASE :: nat where "DIGEST_BASE = 28"
definition DIRECTORY_SLOT_LEN :: nat where "DIRECTORY_SLOT_LEN = 8"
definition MAX_COMPACT_PAGE_SIZE :: nat where "MAX_COMPACT_PAGE_SIZE = 0x7FFF"
definition OVERFLOW_SENTINEL :: nat where "OVERFLOW_SENTINEL = 0xFFFF"
definition COMPACT_OVERFLOW_BIT :: nat where "COMPACT_OVERFLOW_BIT = 0x8000"
definition COMPACT_OFFSET_MASK :: nat where "COMPACT_OFFSET_MASK = 0x7FFF"
definition PAGE_REF_LEN :: nat where "PAGE_REF_LEN = 16"

lemmas format_consts = MAGIC_def MAJOR_VERSION_def MINOR_VERSION_def HEADER_LEN_def
  PAGE_PREFIX_LEN_def KIND_OFFSET_def ENTRY_COUNT_OFFSET_def LEFT_SIBLING_OFFSET_def
  RIGHT_SIBLING_OFFSET_def DIGEST_BASE_def DIRECTORY_SLOT_LEN_def MAX_COMPACT_PAGE_SIZE_def
  OVERFLOW_SENTINEL_def COMPACT_OVERFLOW_BIT_def COMPACT_OFFSET_MASK_def PAGE_REF_LEN_def

subsection \<open>Ordinals and offsets\<close>

text \<open>\<open>PageOrdinal\<close> and \<open>FileOffset\<close> wrap a \<open>u64\<close>; \<open>as_i64\<close> and \<open>as_i32\<close> are Rust's casts.\<close>

type_synonym page_ordinal = nat
type_synonym file_offset = nat

definition as_i32 :: "nat \<Rightarrow> int" where "as_i32 n = to_signed 32 (n mod 2 ^ 32)"
definition as_i64 :: "nat \<Rightarrow> int" where "as_i64 n = to_signed 64 (n mod 2 ^ 64)"

definition ordinal_from_i64 :: "int \<Rightarrow> page_ordinal option result" where
  "ordinal_from_i64 v =
     (if v = -1 then Ok None else if 0 \<le> v then Ok (Some (nat v)) else Err corrupt)"

definition ordinal_to_i64 :: "page_ordinal option \<Rightarrow> int" where
  "ordinal_to_i64 p = (case p of None \<Rightarrow> -1 | Some n \<Rightarrow> as_i64 n)"

definition file_offset_from_i64 :: "int \<Rightarrow> file_offset result" where
  "file_offset_from_i64 v = (if v < 0 then Err corrupt else Ok (nat v))"

subsection \<open>Bounds-checked reads\<close>

definition read_u8 :: "bytes \<Rightarrow> nat \<Rightarrow> byte result" where
  "read_u8 buf off = ok_or (byte_get buf off) (at_offset off corrupt)"

definition read_le :: "nat \<Rightarrow> bytes \<Rightarrow> nat \<Rightarrow> bytes result" where
  "read_le len buf off =
     and_then (ok_or (checked_add off len) (at_offset off corrupt))
       (\<lambda>stop. ok_or (slice_get buf off stop) (at_offset off corrupt))"

definition read_u16 :: "bytes \<Rightarrow> nat \<Rightarrow> nat result" where
  "read_u16 buf off = and_then (read_le 2 buf off) (\<lambda>s. Ok (le_nat s))"

definition read_i32 :: "bytes \<Rightarrow> nat \<Rightarrow> int result" where
  "read_i32 buf off = and_then (read_le 4 buf off) (\<lambda>s. Ok (to_signed 32 (le_nat s)))"

definition read_i64 :: "bytes \<Rightarrow> nat \<Rightarrow> int result" where
  "read_i64 buf off = and_then (read_le 8 buf off) (\<lambda>s. Ok (to_signed 64 (le_nat s)))"

definition read_u64 :: "bytes \<Rightarrow> nat \<Rightarrow> u64 result" where
  "read_u64 buf off = and_then (read_le 8 buf off) (\<lambda>s. Ok (word_of_nat (le_nat s)))"

definition read_slice :: "bytes \<Rightarrow> nat \<Rightarrow> nat \<Rightarrow> bytes result" where
  "read_slice buf off len =
     and_then (ok_or (checked_add off len) (at_offset off corrupt))
       (\<lambda>stop. ok_or (slice_get buf off stop) (at_offset off corrupt))"

definition checked_len :: "int \<Rightarrow> nat result" where
  "checked_len v = (if v < 0 then Err corrupt else Ok (nat v))"

definition u16_to_le :: "nat \<Rightarrow> bytes" where "u16_to_le n = le_bytes 2 n"
definition i32_to_le :: "int \<Rightarrow> bytes" where "i32_to_le i = le_bytes 4 (of_signed 32 i)"
definition i64_to_le :: "int \<Rightarrow> bytes" where "i64_to_le i = le_bytes 8 (of_signed 64 i)"
definition u64_to_le :: "u64 \<Rightarrow> bytes" where "u64_to_le d = le_bytes 8 (unat d)"

subsection \<open>Facts about the readers\<close>

text \<open>
  \<open>fits buf off n\<close> says that \<open>n\<close> bytes at \<open>off\<close> lie inside the buffer, and that the
  end of the range is a \<open>usize\<close>; for a buffer that exists in memory the second part
  follows from the first.
\<close>

definition fits :: "bytes \<Rightarrow> nat \<Rightarrow> nat \<Rightarrow> bool" where
  "fits buf off n \<longleftrightarrow> off + n \<le> length buf \<and> off + n \<le> usize_max"

lemma fits_mono: "fits buf off n \<Longrightarrow> m \<le> n \<Longrightarrow> fits buf off m"
  by (simp add: fits_def)

lemma read_le_Ok_iff: "read_le n buf off = Inr s \<longleftrightarrow> fits buf off n \<and> s = slice buf off n"
  by (auto simp: read_le_def fits_def)

lemma read_slice_Ok_iff [simp]:
  "read_slice buf off n = Inr s \<longleftrightarrow> fits buf off n \<and> s = slice buf off n"
  by (auto simp: read_slice_def fits_def)

lemma read_u8_Ok_iff [simp]: "read_u8 buf off = Inr b \<longleftrightarrow> off < length buf \<and> b = buf ! off"
  by (simp add: read_u8_def)

lemma read_Ok_iff [simp]:
  "read_u16 buf off = Inr n \<longleftrightarrow> fits buf off 2 \<and> n = le_nat (slice buf off 2)"
  "read_i32 buf off = Inr i \<longleftrightarrow> fits buf off 4 \<and> i = to_signed 32 (le_nat (slice buf off 4))"
  "read_i64 buf off = Inr i \<longleftrightarrow> fits buf off 8 \<and> i = to_signed 64 (le_nat (slice buf off 8))"
  "read_u64 buf off = Inr d \<longleftrightarrow> fits buf off 8 \<and> d = word_of_nat (le_nat (slice buf off 8))"
  by (auto simp: read_u16_def read_i32_def read_i64_def read_u64_def read_le_Ok_iff)

lemma read_le_cases:
  "read_le n buf off =
     (if fits buf off n then Ok (slice buf off n) else Err (at_offset off corrupt))"
  by (auto simp: read_le_def fits_def checked_add_def slice_get_def)

lemma read_i32_range:
  assumes "read_i32 buf off = Inr i" shows "- (2 ^ 31) \<le> i" "i < 2 ^ 31"
proof -
  have "le_nat (slice buf off 4) < 2 ^ 32" "i = to_signed 32 (le_nat (slice buf off 4))"
    using assms le_nat_less [of "slice buf off 4"] by (auto simp: fits_def)
  then show "- (2 ^ 31) \<le> i" "i < 2 ^ 31" using to_signed_range [of "le_nat (slice buf off 4)" 32] by auto
qed

lemma checked_len_Ok_iff [simp]: "checked_len v = Inr n \<longleftrightarrow> 0 \<le> v \<and> n = nat v"
  by (auto simp: checked_len_def)

lemma ordinal_from_i64_Ok_iff:
  "ordinal_from_i64 v = Inr p \<longleftrightarrow>
     (case p of None \<Rightarrow> v = -1 | Some n \<Rightarrow> v = int n)"
  by (cases p) (auto simp: ordinal_from_i64_def)

lemma ordinal_from_i64_Some [simp]: "ordinal_from_i64 v = Inr (Some n) \<longleftrightarrow> v = int n"
  by (simp add: ordinal_from_i64_Ok_iff)

lemma file_offset_from_i64_Ok_iff [simp]:
  "file_offset_from_i64 v = Inr n \<longleftrightarrow> 0 \<le> v \<and> n = nat v"
  by (auto simp: file_offset_from_i64_def)

lemma length_to_le [simp]:
  "length (u16_to_le n) = 2" "length (i32_to_le i) = 4" "length (i64_to_le i) = 8"
  "length (u64_to_le d) = 8"
  by (simp_all add: u16_to_le_def i32_to_le_def i64_to_le_def u64_to_le_def)

lemma as_i32_small: "n < 2 ^ 31 \<Longrightarrow> as_i32 n = int n"
  by (simp add: as_i32_def)

lemma as_i64_small: "n < 2 ^ 63 \<Longrightarrow> as_i64 n = int n"
  by (simp add: as_i64_def)

lemma of_signed_as:
  "of_signed 32 (as_i32 n) = n mod 2 ^ 32" "of_signed 64 (as_i64 n) = n mod 2 ^ 64"
  by (auto simp: of_signed_def as_i32_def as_i64_def to_signed_def mod_diff_eq [symmetric]
      nat_mod_distrib zmod_int [symmetric] simp flip: of_nat_mod)

lemma le_nat_to_le [codec_simps]:
  "n < 2 ^ 16 \<Longrightarrow> le_nat (u16_to_le n) = n"
  "le_nat (u64_to_le d) = unat d"
  "le_nat (i32_to_le i) = of_signed 32 i"
  "le_nat (i64_to_le i) = of_signed 64 i"
  using unat_u64_less [of d] of_signed_less [of 32 i] of_signed_less [of 64 i]
  by (simp_all add: u16_to_le_def u64_to_le_def i32_to_le_def i64_to_le_def le_nat_le_bytes)

lemma u64_to_le_inverse [simp]: "word_of_nat (le_nat (u64_to_le d)) = d"
  by (simp add: le_nat_to_le)

subsection \<open>The file header (format/header.rs)\<close>

record Header =
  major_version :: byte
  minor_version :: byte
  page_filter_count :: nat
  page_size :: nat
  table_count :: nat
  page_count :: nat
  page_directory_position :: file_offset

definition header_parse :: "bytes \<Rightarrow> Header result" where
  "header_parse buf =
     and_then (map_err (\<lambda>_. error_new UnsupportedFormat) (read_slice buf 0 4)) (\<lambda>magic.
     if magic \<noteq> MAGIC then Err (error_new UnsupportedFormat)
     else if length buf < HEADER_LEN then Err (error_new UnsupportedFormat)
     else and_then (read_u8 buf 4) (\<lambda>major.
     and_then (read_u8 buf 5) (\<lambda>minor.
     if major \<noteq> MAJOR_VERSION \<or> minor \<noteq> MINOR_VERSION then Err (error_new UnsupportedFormat)
     else and_then (read_u16 buf 6) (\<lambda>filters.
     and_then (and_then (read_i32 buf 8) checked_len) (\<lambda>size.
     if size < PAGE_PREFIX_LEN then Err corrupt
     else and_then (read_u16 buf 12) (\<lambda>tables.
     and_then (and_then (read_i32 buf 14) checked_len) (\<lambda>pages.
     and_then (read_i64 buf 18) (\<lambda>position.
     if position \<le> 0 then Err corrupt
     else and_then (file_offset_from_i64 position) (\<lambda>directory.
     Ok \<lparr>major_version = major, minor_version = minor, page_filter_count = filters,
         page_size = size, table_count = tables, page_count = pages,
         page_directory_position = directory\<rparr>)))))))))"

definition header_encode :: "Header \<Rightarrow> bytes" where
  "header_encode h =
     MAGIC @ [major_version h] @ [minor_version h] @ u16_to_le (page_filter_count h)
     @ i32_to_le (as_i32 (page_size h)) @ u16_to_le (table_count h)
     @ i32_to_le (as_i32 (page_count h)) @ i64_to_le (as_i64 (page_directory_position h))"

definition directory_span :: "Header \<Rightarrow> (nat \<times> nat) result" where
  "directory_span h =
     and_then (ok_or (checked_mul (page_count h) DIRECTORY_SLOT_LEN) corrupt) (\<lambda>len.
     and_then (ok_or (checked_add (page_directory_position h) len) corrupt) (\<lambda>stop.
     Ok (page_directory_position h, stop)))"

definition header_wf :: "Header \<Rightarrow> bool" where
  "header_wf h \<longleftrightarrow> major_version h = MAJOR_VERSION \<and> minor_version h = MINOR_VERSION
     \<and> page_filter_count h < 2 ^ 16 \<and> PAGE_PREFIX_LEN \<le> page_size h \<and> page_size h < 2 ^ 31
     \<and> table_count h < 2 ^ 16 \<and> page_count h < 2 ^ 31
     \<and> 0 < page_directory_position h \<and> page_directory_position h < 2 ^ 63"

lemma take_add_slice: "take (a + n) buf = take a buf @ slice buf a n"
  by (simp add: slice_def take_add)

lemma slice_pair: "off + 2 \<le> length buf \<Longrightarrow> slice buf off 2 = [buf ! off] @ [buf ! Suc off]"
  by (simp add: slice_def numeral_2_eq_2 Cons_nth_drop_Suc [symmetric] take_Suc_conv_app_nth)

lemma le_to_le_inverse:
  "length s = 2 \<Longrightarrow> u16_to_le (le_nat s) = s"
  "length s = 4 \<Longrightarrow> i32_to_le (as_i32 (le_nat s)) = s"
  "length s = 8 \<Longrightarrow> i64_to_le (as_i64 (le_nat s)) = s"
  using le_nat_less [of s]
  by (simp_all add: u16_to_le_def i32_to_le_def i64_to_le_def of_signed_as le_bytes_le_nat)

lemma le_nat_i32: "n < 2 ^ 32 \<Longrightarrow> le_nat (i32_to_le (as_i32 n)) = n"
  by (simp add: le_nat_to_le of_signed_as)

lemma le_nat_i64: "n < 2 ^ 64 \<Longrightarrow> le_nat (i64_to_le (as_i64 n)) = n"
  by (simp add: le_nat_to_le of_signed_as)

lemma length_MAGIC [simp]: "length MAGIC = 4"
  by (simp add: MAGIC_def)

lemma header_encode_fields:
  assumes "take 26 buf = header_encode h"
  shows "26 \<le> length buf" "slice buf 0 4 = MAGIC" "buf ! 4 = major_version h"
    "buf ! 5 = minor_version h" "slice buf 6 2 = u16_to_le (page_filter_count h)"
    "slice buf 8 4 = i32_to_le (as_i32 (page_size h))"
    "slice buf 12 2 = u16_to_le (table_count h)"
    "slice buf 14 4 = i32_to_le (as_i32 (page_count h))"
    "slice buf 18 8 = i64_to_le (as_i64 (page_directory_position h))"
proof -
  have len: "length (header_encode h) = 26" by (simp add: header_encode_def)
  then show l: "26 \<le> length buf"
    using assms by (metis length_take min.absorb_iff2 min.commute)
  have s: "slice buf a n = slice (header_encode h) a n" if "a + n \<le> 26" for a n
    using that l by (simp add: slice_def assms [symmetric] drop_take min_def)
  have b: "buf ! i = header_encode h ! i" if "i < 26" for i
    using that by (simp add: assms [symmetric])
  show "buf ! 4 = major_version h" "buf ! 5 = minor_version h"
    by (simp_all add: b header_encode_def nth_append)
  show "slice buf 0 4 = MAGIC" "slice buf 6 2 = u16_to_le (page_filter_count h)"
    "slice buf 8 4 = i32_to_le (as_i32 (page_size h))"
    "slice buf 12 2 = u16_to_le (table_count h)"
    "slice buf 14 4 = i32_to_le (as_i32 (page_count h))"
    "slice buf 18 8 = i64_to_le (as_i64 (page_directory_position h))"
    by (simp_all add: s) (simp_all add: header_encode_def slice_def)
qed

lemma header_parse_encode:
  assumes "header_wf h" "take 26 buf = header_encode h"
  shows "header_parse buf = Ok h"
  using assms(1) header_encode_fields [OF assms(2)]
  by (simp add: header_parse_def header_wf_def fits_def usize_max_def le_nat_to_le(1) le_nat_i32
      le_nat_i64 MAJOR_VERSION_def MINOR_VERSION_def PAGE_PREFIX_LEN_def HEADER_LEN_def)

lemma header_parse_canonical:
  assumes "header_parse buf = Ok h"
  shows "header_wf h \<and> take 26 buf = header_encode h"
proof -
  let ?n = "\<lambda>a n. le_nat (slice buf a n)"
  have b: "?n a n < 256 ^ n" if "a + n \<le> length buf" for a n
    using le_nat_less [of "slice buf a n"] that by simp
  have f: "26 \<le> length buf" "slice buf 0 4 = MAGIC" "buf ! 4 = MAJOR_VERSION"
    "buf ! 5 = MINOR_VERSION" "0 \<le> to_signed 32 (?n 8 4)" "0 \<le> to_signed 32 (?n 14 4)"
    "0 < to_signed 64 (?n 18 8)" "28 \<le> to_signed 32 (?n 8 4)"
    and h: "h = \<lparr>major_version = MAJOR_VERSION, minor_version = MINOR_VERSION,
      page_filter_count = ?n 6 2, page_size = nat (to_signed 32 (?n 8 4)),
      table_count = ?n 12 2, page_count = nat (to_signed 32 (?n 14 4)),
      page_directory_position = nat (to_signed 64 (?n 18 8))\<rparr>"
    using assms
    by (auto simp: header_parse_def format_consts split: if_splits)
  have l: "?n 8 4 < 2 ^ 31" "?n 14 4 < 2 ^ 31" "?n 18 8 < 2 ^ 63"
    using f b [of 8 4] b [of 14 4] b [of 18 8]
      to_signed_nonneg_iff [of "?n 8 4" 32] to_signed_nonneg_iff [of "?n 14 4" 32]
      to_signed_nonneg_iff [of "?n 18 8" 64] by simp_all
  have "take 26 buf = slice buf 0 4 @ slice buf 4 2 @ slice buf 6 2 @ slice buf 8 4
      @ slice buf 12 2 @ slice buf 14 4 @ slice buf 18 8"
    using take_add_slice [of 0 4 buf] take_add_slice [of 4 2 buf] take_add_slice [of 6 2 buf]
      take_add_slice [of 8 4 buf] take_add_slice [of 12 2 buf] take_add_slice [of 14 4 buf]
      take_add_slice [of 18 8 buf] by simp
  also have "slice buf 4 2 = [MAJOR_VERSION] @ [MINOR_VERSION]"
    using f slice_pair [of 4 buf] by simp
  finally have t: "take 26 buf = header_encode h"
    using f(1,2) l by (simp add: h header_encode_def le_to_le_inverse)
  show ?thesis using f l b [of 6 2] b [of 12 2] t
    by (simp add: h header_wf_def PAGE_PREFIX_LEN_def)
qed

subsection \<open>Page references (format/pageref.rs)\<close>

record PageRef =
  ref_page :: page_ordinal
  ref_start :: nat
  ref_length :: nat

definition pageref_parse :: "bytes \<Rightarrow> PageRef result" where
  "pageref_parse buf =
     (if length buf < PAGE_REF_LEN then Err corrupt
      else and_then (and_then (and_then (read_i64 buf 0) ordinal_from_i64)
                      (\<lambda>o'. ok_or o' corrupt)) (\<lambda>ordinal.
      and_then (read_i32 buf 8) (\<lambda>start.
      and_then (read_i32 buf 12) (\<lambda>len.
      if start < 0 \<or> len < 0 then Err corrupt
      else Ok \<lparr>ref_page = ordinal, ref_start = nat start, ref_length = nat len\<rparr>))))"

definition pageref_encode :: "PageRef \<Rightarrow> bytes" where
  "pageref_encode r =
     i64_to_le (as_i64 (ref_page r)) @ i32_to_le (as_i32 (ref_start r))
     @ i32_to_le (as_i32 (ref_length r))"

text \<open>The range is returned as its two ends, \<open>start..end\<close>.\<close>

definition pageref_range :: "PageRef \<Rightarrow> nat \<Rightarrow> (nat \<times> nat) result" where
  "pageref_range r page_len =
     and_then (ok_or (checked_add (ref_start r) (ref_length r)) corrupt) (\<lambda>stop.
     if page_len < stop then Err (at_page (ref_page r) corrupt)
     else if ref_start r < PAGE_PREFIX_LEN then Err (at_page (ref_page r) corrupt)
     else Ok (ref_start r, stop))"

definition pageref_wf :: "PageRef \<Rightarrow> bool" where
  "pageref_wf r \<longleftrightarrow> ref_page r < 2 ^ 63 \<and> ref_start r < 2 ^ 31 \<and> ref_length r < 2 ^ 31"

lemma pageref_parse_encode:
  assumes "pageref_wf r" "take 16 buf = pageref_encode r"
  shows "pageref_parse buf = Ok r"
proof -
  have len: "length (pageref_encode r) = 16" by (simp add: pageref_encode_def)
  then have l: "16 \<le> length buf"
    using assms(2) by (metis length_take min.absorb_iff2 min.commute)
  have s: "slice buf a n = slice (pageref_encode r) a n" if "a + n \<le> 16" for a n
    using that l by (simp add: slice_def assms(2) [symmetric] drop_take min_def)
  have "slice buf 0 8 = i64_to_le (as_i64 (ref_page r))"
    "slice buf 8 4 = i32_to_le (as_i32 (ref_start r))"
    "slice buf 12 4 = i32_to_le (as_i32 (ref_length r))"
    by (simp_all add: s) (simp_all add: pageref_encode_def slice_def)
  with assms(1) l show ?thesis
    by (simp add: pageref_parse_def pageref_wf_def PAGE_REF_LEN_def fits_def usize_max_def
        le_nat_i32 le_nat_i64)
qed

lemma pageref_parse_canonical:
  assumes "pageref_parse buf = Ok r"
  shows "pageref_wf r \<and> take 16 buf = pageref_encode r"
proof -
  let ?n = "\<lambda>a n. le_nat (slice buf a n)"
  have b: "?n a n < 256 ^ n" if "a + n \<le> length buf" for a n
    using le_nat_less [of "slice buf a n"] that by simp
  have f: "16 \<le> length buf" "0 \<le> to_signed 64 (?n 0 8)" "0 \<le> to_signed 32 (?n 8 4)"
    "0 \<le> to_signed 32 (?n 12 4)"
    and r: "r = \<lparr>ref_page = nat (to_signed 64 (?n 0 8)), ref_start = nat (to_signed 32 (?n 8 4)),
      ref_length = nat (to_signed 32 (?n 12 4))\<rparr>"
    using assms by (auto simp: pageref_parse_def PAGE_REF_LEN_def split: if_splits)
  have l: "?n 0 8 < 2 ^ 63" "?n 8 4 < 2 ^ 31" "?n 12 4 < 2 ^ 31"
    using f b [of 0 8] b [of 8 4] b [of 12 4] to_signed_nonneg_iff [of "?n 0 8" 64]
      to_signed_nonneg_iff [of "?n 8 4" 32] to_signed_nonneg_iff [of "?n 12 4" 32] by simp_all
  have "take 16 buf = slice buf 0 8 @ slice buf 8 4 @ slice buf 12 4"
    using take_add_slice [of 0 8 buf] take_add_slice [of 8 4 buf] take_add_slice [of 12 4 buf]
    by simp
  then have "take 16 buf = pageref_encode r"
    using f(1) l by (simp add: r pageref_encode_def le_to_le_inverse)
  then show ?thesis using l by (simp add: r pageref_wf_def)
qed

subsection \<open>Properties\<close>

text \<open>C15: a buffer parses as a file header exactly when the decoded header is in range and
  the buffer starts with that header's encoding; so encoding and decoding are mutually
  inverse and nothing else is accepted.\<close>

theorem header_parse_iff:
  "header_parse buf = Ok h \<longleftrightarrow> header_wf h \<and> take 26 buf = header_encode h"
  using header_parse_encode header_parse_canonical by blast

text \<open>C16: a secondary index value decodes to a page reference exactly when the reference
  is in range and the value's first 16 bytes are its encoding; bytes that follow are ignored.\<close>

theorem pageref_parse_iff:
  "pageref_parse buf = Ok r \<longleftrightarrow> pageref_wf r \<and> take 16 buf = pageref_encode r"
  using pageref_parse_encode pageref_parse_canonical by blast

declare read_Ok_iff [simp del] read_slice_Ok_iff [simp del]

subsection \<open>Fields at a position\<close>

lemma slice_add: "slice bs a (m + n) = slice bs a m @ slice bs (a + m) n"
  by (simp add: slice_def take_add add.commute)

lemma nth_slice: "i < n \<Longrightarrow> a + n \<le> length buf \<Longrightarrow> slice buf a n ! i = buf ! (a + i)"
  by (simp add: slice_def)

lemma slice_eq_Nil [simp]: "slice buf a n = [] \<longleftrightarrow> n = 0 \<or> length buf \<le> a"
  by (simp add: slice_def)

text \<open>\<open>has_at buf pos bs\<close>: the buffer has \<open>bs\<close> at \<open>pos\<close>.\<close>

definition has_at :: "bytes \<Rightarrow> nat \<Rightarrow> bytes \<Rightarrow> bool" where
  "has_at buf pos bs \<longleftrightarrow> fits buf pos (length bs) \<and> slice buf pos (length bs) = bs"

lemma at_append: "has_at buf pos (xs @ ys) \<longleftrightarrow> has_at buf pos xs \<and> has_at buf (pos + length xs) ys"
proof -
  have "slice buf pos (length xs + length ys) = slice buf pos (length xs) @ slice buf (pos + length xs) (length ys)"
    by (rule slice_add)
  moreover have "length (slice buf pos (length xs)) = length xs" if "fits buf pos (length xs + length ys)"
    using that by (simp add: fits_def)
  ultimately show ?thesis by (auto simp: has_at_def fits_def add.assoc)
qed

lemma at_u16: "n < 65536 \<Longrightarrow> has_at buf pos (u16_to_le n) \<longleftrightarrow> fits buf pos 2 \<and> le_nat (slice buf pos 2) = n"
proof -
  assume n: "n < 65536"
  have "le_nat (slice buf pos 2) = n \<longleftrightarrow> slice buf pos 2 = u16_to_le n" if "fits buf pos 2"
  proof
    assume "le_nat (slice buf pos 2) = n"
    then show "slice buf pos 2 = u16_to_le n"
      using that le_bytes_le_nat [of "slice buf pos 2" 2] by (auto simp: u16_to_le_def fits_def)
  qed (use n in \<open>simp add: le_nat_to_le\<close>)
  then show ?thesis by (auto simp: has_at_def)
qed

lemma at_bytes: "length bs = n \<Longrightarrow> has_at buf pos bs \<longleftrightarrow> fits buf pos n \<and> slice buf pos n = bs"
  by (auto simp: has_at_def)

lemma i64_to_le_inverse:
  assumes "length bs = 8" shows "i64_to_le (to_signed 64 (le_nat bs)) = bs"
proof -
  have "le_nat bs < 2 ^ 64" using le_nat_less [of bs] assms by simp
  then have "of_signed 64 (to_signed 64 (le_nat bs)) = le_nat bs"
    using of_signed_as(2) [of "le_nat bs"] by (simp add: as_i64_def)
  then show ?thesis by (simp add: i64_to_le_def le_bytes_le_nat assms)
qed

lemma at_i64:
  assumes "- (2 ^ 63) \<le> i" "i < 2 ^ 63"
  shows "has_at buf pos (i64_to_le i) \<longleftrightarrow> fits buf pos 8 \<and> to_signed 64 (le_nat (slice buf pos 8)) = i"
proof -
  have "to_signed 64 (le_nat (slice buf pos 8)) = i \<longleftrightarrow> slice buf pos 8 = i64_to_le i" if "fits buf pos 8"
  proof
    assume "to_signed 64 (le_nat (slice buf pos 8)) = i"
    then show "slice buf pos 8 = i64_to_le i"
      using that i64_to_le_inverse [of "slice buf pos 8"] by (simp add: fits_def)
  qed (use assms to_signed_of_signed [of 64 i] in \<open>simp add: le_nat_to_le\<close>)
  then show ?thesis by (auto simp: has_at_def)
qed

lemma at_byte: "has_at buf pos [b] \<longleftrightarrow> fits buf pos 1 \<and> buf ! pos = b"
  by (auto simp: has_at_def fits_def slice_def take_Suc_conv_app_nth hd_drop_conv_nth)

lemma at_take: "has_at (take n img) pos bs \<Longrightarrow> has_at img pos bs"
  by (auto simp: has_at_def fits_def slice_def drop_take)

lemma at_within: "has_at img pos bs \<Longrightarrow> pos + length bs \<le> n \<Longrightarrow> has_at (take n img) pos bs"
  by (auto simp: has_at_def fits_def slice_def drop_take min_def)

lemma at_here: "length xs + length ys \<le> usize_max \<Longrightarrow> length xs = n \<Longrightarrow> has_at (xs @ ys) n ys"
  by (simp add: has_at_def fits_def slice_def)

end
