(* ===== verification/Io.thy ===== *)
theory Io
  imports Format
begin

text \<open>
  Positional reads (\<^verbatim>\<open>crates/drydb/src/io.rs\<close>).  A page source is code outside the crate
  or the operating system, so it is a parameter: a function from the number of calls made
  so far, the room in the buffer and the offset to an outcome.  The number of calls lets a
  source answer the same request differently at different times, with short reads and
  interruptions wherever it likes.  What the readers rely on is the locale \<open>page_source\<close>,
  interpreted by the in-memory image.
\<close>

datatype io_outcome = Got bytes | Interrupted | Failed

type_synonym source = "nat \<Rightarrow> nat \<Rightarrow> nat \<Rightarrow> io_outcome"

subsection \<open>Reading\<close>

text \<open>The loop of \<open>read_exact_at\<close>: \<open>got\<close> is the filled part of the buffer of \<open>len\<close> bytes and
  \<open>t\<close> the number of calls made.  Not returning is \<open>None\<close>.\<close>

partial_function (option) read_exact_loop ::
  "source \<Rightarrow> nat \<Rightarrow> nat \<Rightarrow> bytes \<Rightarrow> nat \<Rightarrow> (bytes result \<times> nat) option" where
  "read_exact_loop src len offset got t =
     (if length got < len then
        (case checked_add offset (length got) of
           None \<Rightarrow> Some (Err corrupt, t)
         | Some at \<Rightarrow>
             (case src t (len - length got) at of
                Got bs \<Rightarrow>
                  (if bs = [] then Some (Err (at_offset offset error_io), t + 1)
                   else read_exact_loop src len offset (got @ bs) (t + 1))
              | Interrupted \<Rightarrow> read_exact_loop src len offset got (t + 1)
              | Failed \<Rightarrow> Some (Err (at_offset offset error_io), t + 1)))
      else Some (Ok got, t))"

definition read_exact_at :: "source \<Rightarrow> nat \<Rightarrow> nat \<Rightarrow> nat \<Rightarrow> (bytes result \<times> nat) option" where
  "read_exact_at src len offset t = read_exact_loop src len offset [] t"

partial_function (option) read_up_to_loop ::
  "source \<Rightarrow> nat \<Rightarrow> nat \<Rightarrow> bytes \<Rightarrow> nat \<Rightarrow> (bytes result \<times> nat) option" where
  "read_up_to_loop src len offset got t =
     (if length got < len then
        (case checked_add offset (length got) of
           None \<Rightarrow> Some (Err corrupt, t)
         | Some at \<Rightarrow>
             (case src t (len - length got) at of
                Got bs \<Rightarrow>
                  (if bs = [] then Some (Ok got, t + 1)
                   else read_up_to_loop src len offset (got @ bs) (t + 1))
              | Interrupted \<Rightarrow> read_up_to_loop src len offset got (t + 1)
              | Failed \<Rightarrow> Some (Err (at_offset offset error_io), t + 1)))
      else Some (Ok got, t))"

definition read_up_to_at :: "source \<Rightarrow> nat \<Rightarrow> nat \<Rightarrow> nat \<Rightarrow> (bytes result \<times> nat) option" where
  "read_up_to_at src len offset t = read_up_to_loop src len offset [] t"

subsection \<open>The in-memory image\<close>

definition memory_source :: "bytes \<Rightarrow> source" where
  "memory_source img t room offset =
     (if offset \<le> length img then Got (take room (drop offset img)) else Got [])"

subsection \<open>What a source promises\<close>

text \<open>
  A source over a fixed image returns some of the bytes the image has at the offset, at most
  as many as there is room for, and no bytes only where there is no room or the image has
  ended.  Sooner or later a call is not interrupted.
\<close>

definition filled_from :: "bytes \<Rightarrow> nat \<Rightarrow> nat \<Rightarrow> bytes \<Rightarrow> bool" where
  "filled_from img offset len bs \<longleftrightarrow> bs = slice img offset (length bs) \<and> length bs \<le> len
     \<and> offset + length bs \<le> max offset (length img)"

lemma filled_nil [simp]: "filled_from img offset len []"
  by (simp add: filled_from_def slice_def)

lemma filled_fromD: "filled_from img offset len bs \<Longrightarrow> length bs \<le> len"
  by (simp add: filled_from_def)

lemma filled_done: "filled_from img offset len bs \<Longrightarrow> \<not> length bs < len \<Longrightarrow>
    bs = slice img offset len \<and> length bs = len"
  unfolding filled_from_def by (metis le_neq_implies_less)

text \<open>What the two reads may return, for a source that can fail if \<open>fails\<close>.\<close>

definition exact_post :: "bool \<Rightarrow> bytes \<Rightarrow> nat \<Rightarrow> nat \<Rightarrow> bytes result \<Rightarrow> bool" where
  "exact_post fails img offset len r = (case r of
     Inr bs \<Rightarrow> bs = slice img offset len \<and> length bs = len
   | Inl e \<Rightarrow> err_kind e \<in> {Io, CorruptData} \<and>
       (fails \<or> length img < offset + len \<or> usize_max < offset + len))"

definition up_to_post :: "bool \<Rightarrow> bytes \<Rightarrow> nat \<Rightarrow> nat \<Rightarrow> bytes result \<Rightarrow> bool" where
  "up_to_post fails img offset len r = (case r of
     Inr bs \<Rightarrow> bs = slice img offset len
   | Inl e \<Rightarrow> err_kind e \<in> {Io, CorruptData} \<and> (fails \<or> usize_max < offset + len))"

lemma filled_end: "filled_from img offset len bs \<Longrightarrow> length img \<le> offset + length bs \<Longrightarrow>
    bs = slice img offset len"
proof -
  assume *: "filled_from img offset len bs" "length img \<le> offset + length bs"
  then have "bs = slice img offset (length bs)" "length bs \<le> len" unfolding filled_from_def by blast+
  moreover have "slice img offset (length bs) = drop offset img" using *(2) by (simp add: slice_def)
  moreover have "slice img offset len = drop offset img" using *(2) \<open>length bs \<le> len\<close> by (simp add: slice_def)
  ultimately show ?thesis by metis
qed

definition can_fail :: "source \<Rightarrow> bool" where
  "can_fail src \<longleftrightarrow> (\<exists>t room at. src t room at = Failed)"

locale page_source =
  fixes src :: source and img :: bytes
  assumes got: "src t room offset = Got bs \<Longrightarrow>
      length bs \<le> room \<and> bs = slice img offset (length bs) \<and> offset + length bs \<le> max offset (length img)"
    and got_nothing: "src t room offset = Got [] \<Longrightarrow> 0 < room \<Longrightarrow> length img \<le> offset"
    and ready: "\<exists>k \<ge> t. \<forall>room offset. src k room offset \<noteq> Interrupted"
begin

lemma filled_append:
  assumes "filled_from img offset len xs" "src t (len - length xs) (offset + length xs) = Got bs"
  shows "filled_from img offset len (xs @ bs)"
proof -
  have xs: "xs = slice img offset (length xs)" "length xs \<le> len"
    "offset + length xs \<le> max offset (length img)" using assms(1) unfolding filled_from_def by blast+
  have bs: "bs = slice img (offset + length xs) (length bs)" "length bs \<le> len - length xs"
    "offset + length xs + length bs \<le> max (offset + length xs) (length img)"
    using got [OF assms(2)] by blast+
  have "xs @ bs = slice img offset (length (xs @ bs))"
    unfolding length_append slice_add using xs(1) bs(1) by metis
  moreover have "offset + length (xs @ bs) \<le> max offset (length img)" "length (xs @ bs) \<le> len"
    using xs(2,3) bs(2,3) by auto
  ultimately show ?thesis unfolding filled_from_def by blast
qed

text \<open>Both loops: after finitely many interruptions a call moves the loop on, and each time it
  does, the room left shrinks.  \<open>P t xs\<close> is what is to be shown of the loop at call \<open>t\<close>
  with \<open>xs\<close> filled.\<close>

lemma loop_induct:
  assumes "filled_from img offset len xs"
    and step: "\<And>t xs. filled_from img offset len xs \<Longrightarrow>
      (\<And>t' ys. filled_from img offset len ys \<Longrightarrow> length xs < length ys \<Longrightarrow> P t' ys) \<Longrightarrow>
      ((\<exists>room at. src t room at = Interrupted) \<Longrightarrow> P (Suc t) xs) \<Longrightarrow> P t xs"
  shows "P t xs"
  using assms(1)
proof (induction "len - length xs" arbitrary: xs t rule: less_induct)
  case (less xs)
  obtain k where k: "t \<le> k" "\<And>room at. src k room at \<noteq> Interrupted" using ready by blast
  have longer: "P t' ys" if "filled_from img offset len ys" "length xs < length ys" for t' ys
    using less.hyps [of ys t'] filled_fromD [OF that(1)] that by simp
  show ?case using k(1)
  proof (induction "k - t" arbitrary: t)
    case 0
    then have "t = k" by simp
    with k(2) show ?case by (auto intro: step [OF less.prems] longer)
  next
    case (Suc n)
    have "P (Suc t) xs" using Suc.hyps(1) [of "Suc t"] Suc.hyps(2) by simp
    then show ?case using longer by (rule step [OF less.prems, rotated])
  qed
qed

lemma read_exact_loop_total:
  assumes "filled_from img offset len xs"
  shows "\<exists>r u. read_exact_loop src len offset xs t = Some (r, u) \<and> exact_post (can_fail src) img offset len r"
  using assms
proof (rule loop_induct [where P = "\<lambda>t xs. \<exists>r u. read_exact_loop src len offset xs t = Some (r, u)
    \<and> exact_post (can_fail src) img offset len r"])
  fix t xs
  assume xs: "filled_from img offset len xs"
    and longer: "\<And>t' ys. filled_from img offset len ys \<Longrightarrow> length xs < length ys \<Longrightarrow>
      \<exists>r u. read_exact_loop src len offset ys t' = Some (r, u) \<and> exact_post (can_fail src) img offset len r"
    and again: "(\<exists>room at. src t room at = Interrupted) \<Longrightarrow>
      \<exists>r u. read_exact_loop src len offset xs (Suc t) = Some (r, u) \<and> exact_post (can_fail src) img offset len r"
  note unroll = read_exact_loop.simps [of src len offset xs t]
  show "\<exists>r u. read_exact_loop src len offset xs t = Some (r, u) \<and> exact_post (can_fail src) img offset len r"
  proof (cases "length xs < len \<and> offset + length xs \<le> usize_max")
    case True
    show ?thesis
    proof (cases "src t (len - length xs) (offset + length xs)")
      case (Got bs)
      show ?thesis
      proof (cases "bs = []")
        case True': True
        then have "length img < offset + len" using Got True got_nothing [of t _ "offset + length xs"] by fastforce
        with True True' Got show ?thesis by (simp add: unroll checked_add_def exact_post_def)
      next
        case False
        then show ?thesis using True Got longer [OF filled_append [OF xs Got]] by (simp add: unroll checked_add_def)
      qed
    next
      case Interrupted
      then show ?thesis using True again by (auto simp: unroll checked_add_def)
    next
      case Failed
      then have "can_fail src" by (auto simp: can_fail_def)
      with Failed True show ?thesis by (simp add: unroll checked_add_def exact_post_def)
    qed
  next
    case False
    show ?thesis
    proof (cases "length xs < len")
      case True
      with False show ?thesis by (simp add: unroll checked_add_def exact_post_def)
    next
      case False
      then have "read_exact_loop src len offset xs t = Some (Ok xs, t)" by (simp add: unroll)
      then show ?thesis using filled_done [OF xs False] unfolding exact_post_def by auto
    qed
  qed
qed

lemma read_up_to_loop_total:
  assumes "filled_from img offset len xs"
  shows "\<exists>r u. read_up_to_loop src len offset xs t = Some (r, u) \<and> up_to_post (can_fail src) img offset len r"
  using assms
proof (rule loop_induct [where P = "\<lambda>t xs. \<exists>r u. read_up_to_loop src len offset xs t = Some (r, u)
    \<and> up_to_post (can_fail src) img offset len r"])
  fix t xs
  assume xs: "filled_from img offset len xs"
    and longer: "\<And>t' ys. filled_from img offset len ys \<Longrightarrow> length xs < length ys \<Longrightarrow>
      \<exists>r u. read_up_to_loop src len offset ys t' = Some (r, u) \<and> up_to_post (can_fail src) img offset len r"
    and again: "(\<exists>room at. src t room at = Interrupted) \<Longrightarrow>
      \<exists>r u. read_up_to_loop src len offset xs (Suc t) = Some (r, u) \<and> up_to_post (can_fail src) img offset len r"
  note unroll = read_up_to_loop.simps [of src len offset xs t]
  show "\<exists>r u. read_up_to_loop src len offset xs t = Some (r, u) \<and> up_to_post (can_fail src) img offset len r"
  proof (cases "length xs < len \<and> offset + length xs \<le> usize_max")
    case True
    show ?thesis
    proof (cases "src t (len - length xs) (offset + length xs)")
      case (Got bs)
      show ?thesis
      proof (cases "bs = []")
        case True': True
        then have "length img \<le> offset + length xs" using Got True got_nothing [of t _ "offset + length xs"] by fastforce
        then have "xs = slice img offset len" using True by (intro filled_end [OF xs]) auto
        moreover have "read_up_to_loop src len offset xs t = Some (Ok xs, t + 1)"
          using True True' Got by (simp add: unroll checked_add_def)
        ultimately show ?thesis unfolding up_to_post_def by simp
      next
        case False
        then show ?thesis using True Got longer [OF filled_append [OF xs Got]] by (simp add: unroll checked_add_def)
      qed
    next
      case Interrupted
      then show ?thesis using True again by (auto simp: unroll checked_add_def)
    next
      case Failed
      then have "can_fail src" by (auto simp: can_fail_def)
      with Failed True show ?thesis by (simp add: unroll checked_add_def up_to_post_def)
    qed
  next
    case False
    show ?thesis
    proof (cases "length xs < len")
      case True
      with False show ?thesis by (simp add: unroll checked_add_def up_to_post_def)
    next
      case False
      then have "read_up_to_loop src len offset xs t = Some (Ok xs, t)" by (simp add: unroll)
      then show ?thesis using filled_done [OF xs False] unfolding up_to_post_def by simp
    qed
  qed
qed


lemmas read_exact_at_total = read_exact_loop_total [OF filled_nil, folded read_exact_at_def]
lemmas read_up_to_at_total = read_up_to_loop_total [OF filled_nil, folded read_up_to_at_def]

end

interpretation memory: page_source "memory_source img" img for img
proof
  fix t room offset bs
  assume "memory_source img t room offset = Got bs"
  then show "length bs \<le> room \<and> bs = slice img offset (length bs)
      \<and> offset + length bs \<le> max offset (length img)"
    by (auto simp: memory_source_def slice_def min_def split: if_splits)
next
  fix t room offset
  assume "memory_source img t room offset = Got []" "0 < room"
  then show "length img \<le> offset" by (auto simp: memory_source_def split: if_splits)
next
  fix t
  show "\<exists>k\<ge>t. \<forall>room offset. memory_source img k room offset \<noteq> Interrupted"
    by (auto simp: memory_source_def)
qed

lemma memory_cannot_fail [simp]: "\<not> can_fail (memory_source img)"
  by (simp add: can_fail_def memory_source_def)

subsection \<open>Properties\<close>

text \<open>C28: Against any source that keeps its contract, reading a range returns after finitely
  many calls however the source shortens or interrupts them.  It yields exactly the bytes of
  the image, all of them, unless the source failed, the image is too short or the range does
  not fit the address space; the error then is an I/O error or corruption.\<close>

theorem read_exact_at_image:
  assumes "page_source src img"
  shows "\<exists>r u. read_exact_at src len offset t = Some (r, u) \<and>
    (case r of
       Inr bs \<Rightarrow> bs = slice img offset len \<and> length bs = len
     | Inl e \<Rightarrow> err_kind e \<in> {Io, CorruptData} \<and>
         ((\<exists>t room at. src t room at = Failed) \<or> length img < offset + len \<or> usize_max < offset + len))"
  using page_source.read_exact_at_total [OF assms] unfolding exact_post_def can_fail_def by blast

text \<open>A source that hands out one byte at a time and is interrupted before each.\<close>

definition stuttering_source :: "bytes \<Rightarrow> source" where
  "stuttering_source img t room offset =
     (if even t then Interrupted
      else Got (if offset \<le> length img then take (min 1 room) (drop offset img) else []))"

lemma stuttering_cannot_fail [simp]: "stuttering_source img t room at \<noteq> Failed"
  by (simp add: stuttering_source_def)

lemma stuttering_page_source: "page_source (stuttering_source img) img"
proof
  fix t room offset bs
  assume "stuttering_source img t room offset = Got bs"
  then show "length bs \<le> room \<and> bs = slice img offset (length bs)
      \<and> offset + length bs \<le> max offset (length img)"
    by (auto simp: stuttering_source_def slice_def min_def split: if_splits)
next
  fix t room offset
  assume "stuttering_source img t room offset = Got []" "0 < room"
  then show "length img \<le> offset" by (auto simp: stuttering_source_def split: if_splits)
next
  fix t
  show "\<exists>k\<ge>t. \<forall>room offset. stuttering_source img k room offset \<noteq> Interrupted"
    by (intro exI [of _ "Suc (2 * t)"]) (simp add: stuttering_source_def)
qed

theorem read_exact_at_image_witness:
  "\<exists>u. read_exact_at (stuttering_source [1, 2, 3, 4, 5]) 3 1 0 = Some (Ok [2, 3, 4], u)"
proof -
  obtain r u where r: "read_exact_at (stuttering_source [1, 2, 3, 4, 5]) 3 1 0 = Some (r, u)"
    "case r of Inr bs \<Rightarrow> bs = slice [1, 2, 3, 4, 5] 1 3 \<and> length bs = 3
     | Inl e \<Rightarrow> err_kind e \<in> {Io, CorruptData} \<and>
        ((\<exists>t room at. stuttering_source [1, 2, 3, 4, 5] t room at = Failed) \<or>
          length [1, 2, 3, 4, 5 :: byte] < 1 + 3 \<or> usize_max < 1 + 3)"
    using read_exact_at_image [OF stuttering_page_source, of "[1, 2, 3, 4, 5]" 3 1 0] by blast
  then show ?thesis by (auto simp: slice_def usize_max_def split: sum.splits)
qed

text \<open>C29: The read that may stop short also returns, with what the image has of the range:
  all of it, or less only at the end of the image.\<close>

theorem read_up_to_at_image:
  assumes "page_source src img"
  shows "\<exists>r u. read_up_to_at src len offset t = Some (r, u) \<and>
    (case r of
       Inr bs \<Rightarrow> bs = take len (drop offset img)
     | Inl e \<Rightarrow> err_kind e \<in> {Io, CorruptData} \<and>
         ((\<exists>t room at. src t room at = Failed) \<or> usize_max < offset + len))"
  using page_source.read_up_to_at_total [OF assms] unfolding up_to_post_def can_fail_def slice_def by blast

theorem read_up_to_at_image_witness:
  "\<exists>u. read_up_to_at (stuttering_source [1, 2, 3]) 8 1 0 = Some (Ok [2, 3], u)"
proof -
  obtain r u where r: "read_up_to_at (stuttering_source [1, 2, 3]) 8 1 0 = Some (r, u)"
    "case r of Inr bs \<Rightarrow> bs = take 8 (drop 1 [1, 2, 3])
     | Inl e \<Rightarrow> err_kind e \<in> {Io, CorruptData} \<and>
        ((\<exists>t room at. stuttering_source [1, 2, 3] t room at = Failed) \<or> usize_max < 1 + 8)"
    using read_up_to_at_image [OF stuttering_page_source, of "[1, 2, 3]" 8 1 0] by blast
  then show ?thesis by (auto simp: usize_max_def split: sum.splits)
qed

end
