(* ===== verification/Budget.thy ===== *)
theory Budget
  imports Prelude
begin

text \<open>
  The memory budget (\<^verbatim>\<open>crates/drydb/src/budget.rs\<close>): reservation and release of bytes, the
  charges that hold them, the bookkeeping charge a table keeps in step with its size, and
  the size estimates for hash tables.

  \<open>Budget\<close> is used from many threads.  Its operations are given twice: as functions on the
  budget for callers that run alone, and as an interleaving of the single atomic accesses
  the source makes, which is where the accounting invariant is proved.
\<close>

definition BUFFER_OVERHEAD :: nat where "BUFFER_OVERHEAD = 192"
definition HASH_GROUP :: nat where "HASH_GROUP = 16"

subsection \<open>Sizes of hash tables\<close>

definition div_ceil :: "nat \<Rightarrow> nat \<Rightarrow> nat" where
  "div_ceil a b = (a + b - 1) div b"

function power_of_two_from :: "nat \<Rightarrow> nat \<Rightarrow> nat" where
  "power_of_two_from m n = (if 0 < m \<and> m < n then power_of_two_from (2 * m) n else m)"
  by pat_completeness auto
termination by (relation "measure (\<lambda>(m, n). n - m)") auto

declare power_of_two_from.simps [simp del]

definition next_power_of_two :: "nat \<Rightarrow> nat" where
  "next_power_of_two n = power_of_two_from 1 n"

definition next_multiple_of :: "nat \<Rightarrow> nat \<Rightarrow> nat" where
  "next_multiple_of a b = div_ceil a b * b"

text \<open>The estimate is computed in \<open>u64\<close>, where the plain operators wrap around.\<close>

definition wrapping :: "nat \<Rightarrow> nat" where
  "wrapping n = n mod 2 ^ 64"

definition hash_table_bytes :: "nat \<Rightarrow> nat \<Rightarrow> nat" where
  "hash_table_bytes entries entry =
     (if entries = 0 then 0
      else let buckets = next_power_of_two (max (div_ceil (saturating_mul entries 8) 7) 4);
               needed = wrapping (wrapping (buckets * wrapping (entry + 1)) + HASH_GROUP) in
        wrapping (next_multiple_of needed HASH_GROUP))"

definition hash_table_peak_bytes :: "nat \<Rightarrow> nat \<Rightarrow> nat \<Rightarrow> nat \<Rightarrow> nat" where
  "hash_table_peak_bytes slots capacity len entry =
     (let now = hash_table_bytes slots entry in
      if capacity > len then now
      else let next = (if slots = 0 then hash_table_bytes 1 entry
                       else hash_table_bytes (saturating_mul slots 2) entry) in
        saturating_add now next)"

subsection \<open>The budget and its charges\<close>

record Budget =
  limit :: nat
  used :: nat
  peak :: nat

definition budget_new :: "nat \<Rightarrow> Budget" where
  "budget_new l = \<lparr>limit = l, used = 0, peak = 0\<rparr>"

text \<open>The decision one turn of the loop in \<open>take\<close> makes on the value of \<open>used\<close> it has
  loaded: the new value to store, or the error.\<close>

definition take_decision :: "nat \<Rightarrow> nat \<Rightarrow> nat \<Rightarrow> nat result" where
  "take_decision lim seen n =
     (case checked_add seen n of
        Some next \<Rightarrow>
          if next \<le> lim then Ok next
          else Err (error_budget \<lparr>requested = n, in_use = seen, bi_limit = lim,
                                  retryable = n \<le> lim\<rparr>)
      | None \<Rightarrow> Err (error_budget \<lparr>requested = n, in_use = seen, bi_limit = lim,
                                  retryable = n \<le> lim\<rparr>))"

text \<open>Without interference the exchange succeeds on the first turn.\<close>

definition budget_take :: "Budget \<Rightarrow> nat \<Rightarrow> Budget result" where
  "budget_take b n =
     and_then (take_decision (limit b) (used b) n) (\<lambda>next.
     Ok (b\<lparr>used := next, peak := max (peak b) next\<rparr>))"

definition budget_release :: "Budget \<Rightarrow> nat \<Rightarrow> Budget" where
  "budget_release b n = b\<lparr>used := (used b + 2 ^ 64 - n) mod 2 ^ 64\<rparr>"

text \<open>A charge is the number of bytes it holds; the budget it points at is passed along.\<close>

type_synonym charge = nat

definition try_reserve :: "Budget \<Rightarrow> nat \<Rightarrow> (charge \<times> Budget) result" where
  "try_reserve b n = and_then (budget_take b n) (\<lambda>b'. Ok (n, b'))"

definition charge_absorb :: "charge \<Rightarrow> charge \<Rightarrow> charge" where
  "charge_absorb c d = c + d"

definition charge_grow :: "charge \<Rightarrow> nat \<Rightarrow> Budget \<Rightarrow> (charge \<times> Budget) result" where
  "charge_grow c n b = and_then (budget_take b n) (\<lambda>b'. Ok (c + n, b'))"

definition charge_shrink :: "charge \<Rightarrow> nat \<Rightarrow> Budget \<Rightarrow> charge \<times> Budget" where
  "charge_shrink c n b = (let m = min n c in (c - m, budget_release b m))"

definition charge_drop :: "charge \<Rightarrow> Budget \<Rightarrow> Budget" where
  "charge_drop c b = budget_release b c"

subsection \<open>Bookkeeping\<close>

type_synonym bookkeeping = "charge option"

definition bookkeeping_bytes :: "bookkeeping \<Rightarrow> nat" where
  "bookkeeping_bytes k = (case k of None \<Rightarrow> 0 | Some c \<Rightarrow> c)"

definition bookkeeping_absorb :: "bookkeeping \<Rightarrow> charge \<Rightarrow> bookkeeping" where
  "bookkeeping_absorb k c = (case k of Some held \<Rightarrow> Some (charge_absorb held c) | None \<Rightarrow> Some c)"

definition bookkeeping_settle :: "bookkeeping \<Rightarrow> nat \<Rightarrow> Budget \<Rightarrow> (bookkeeping \<times> Budget) result" where
  "bookkeeping_settle k want b =
     (let have_bytes = bookkeeping_bytes k in
      case cmp want have_bytes of
        Greater \<Rightarrow>
          (case k of
             Some c \<Rightarrow> and_then (charge_grow c (want - have_bytes) b) (\<lambda>(c', b'). Ok (Some c', b'))
           | None \<Rightarrow> and_then (try_reserve b want) (\<lambda>(c', b'). Ok (Some c', b')))
      | Less \<Rightarrow>
          (if want = 0 then Ok (None, (case k of Some c \<Rightarrow> charge_drop c b | None \<Rightarrow> b))
           else case k of
             Some c \<Rightarrow> (let (c', b') = charge_shrink c (have_bytes - want) b in Ok (Some c', b'))
           | None \<Rightarrow> Ok (k, b))
      | Equal \<Rightarrow> Ok (k, b))"

subsection \<open>Concurrent use\<close>

text \<open>
  A thread is idle, or inside \<open>take\<close> with the value of \<open>used\<close> it last loaded, or past a
  successful exchange and about to raise \<open>peak\<close>.  \<open>held\<close> is what its charges hold; a failed
  \<open>take\<close> leaves its error behind in \<open>last_error\<close>.
\<close>

datatype take_state = Idle | Trying nat nat | Exchanged nat

record Thread =
  pc :: take_state
  held :: nat
  last_error :: "Error option"

record System =
  budget :: Budget
  threads :: "Thread list"

definition set_thread :: "System \<Rightarrow> nat \<Rightarrow> Thread \<Rightarrow> System" where
  "set_thread s t th = s\<lparr>threads := (threads s)[t := th]\<rparr>"

text \<open>One atomic access.  \<open>compare_exchange_weak\<close> may fail although the value is the expected
  one, so \<open>exchange_fails\<close> has no condition on it.\<close>

inductive budget_step :: "System \<Rightarrow> System \<Rightarrow> bool" where
  load: "t < length (threads s) \<Longrightarrow> threads s ! t = th \<Longrightarrow> pc th = Idle \<Longrightarrow>
    budget_step s (set_thread s t (th\<lparr>pc := Trying n (used (budget s))\<rparr>))"
| refuse: "t < length (threads s) \<Longrightarrow> threads s ! t = th \<Longrightarrow> pc th = Trying n seen \<Longrightarrow>
    take_decision (limit (budget s)) seen n = Err e \<Longrightarrow>
    budget_step s (set_thread s t (th\<lparr>pc := Idle, last_error := Some e\<rparr>))"
| exchange: "t < length (threads s) \<Longrightarrow> threads s ! t = th \<Longrightarrow> pc th = Trying n seen \<Longrightarrow>
    take_decision (limit (budget s)) seen n = Ok stored \<Longrightarrow> used (budget s) = seen \<Longrightarrow>
    budget_step s
      (set_thread (s\<lparr>budget := (budget s)\<lparr>used := stored\<rparr>\<rparr>) t
        (th\<lparr>pc := Exchanged stored, held := held th + n\<rparr>))"
| exchange_fails: "t < length (threads s) \<Longrightarrow> threads s ! t = th \<Longrightarrow> pc th = Trying n seen \<Longrightarrow>
    take_decision (limit (budget s)) seen n = Ok stored \<Longrightarrow>
    budget_step s (set_thread s t (th\<lparr>pc := Trying n (used (budget s))\<rparr>))"
| raise_peak: "t < length (threads s) \<Longrightarrow> threads s ! t = th \<Longrightarrow> pc th = Exchanged stored \<Longrightarrow>
    budget_step s
      (set_thread (s\<lparr>budget := (budget s)\<lparr>peak := max (peak (budget s)) stored\<rparr>\<rparr>) t (th\<lparr>pc := Idle\<rparr>))"
| release: "t < length (threads s) \<Longrightarrow> threads s ! t = th \<Longrightarrow> n \<le> held th \<Longrightarrow>
    budget_step s
      (set_thread (s\<lparr>budget := budget_release (budget s) n\<rparr>) t (th\<lparr>held := held th - n\<rparr>))"

inductive_cases budget_stepE: "budget_step s s'"

definition system_start :: "nat \<Rightarrow> nat \<Rightarrow> System" where
  "system_start lim n =
     \<lparr>budget = budget_new lim,
      threads = replicate n \<lparr>pc = Idle, held = 0, last_error = None\<rparr>\<rparr>"

subsection \<open>The accounting invariant\<close>

definition total_held :: "System \<Rightarrow> nat" where
  "total_held s = sum_list (map held (threads s))"

definition pc_ok :: "nat \<Rightarrow> Thread \<Rightarrow> bool" where
  "pc_ok lim th = (case pc th of Exchanged stored \<Rightarrow> stored \<le> lim | _ \<Rightarrow> True)"

definition system_inv :: "System \<Rightarrow> bool" where
  "system_inv s \<longleftrightarrow> used (budget s) = total_held s \<and> used (budget s) \<le> limit (budget s)
     \<and> limit (budget s) \<le> usize_max \<and> peak (budget s) \<le> limit (budget s)
     \<and> (\<forall>th \<in> set (threads s). pc_ok (limit (budget s)) th)"

lemma take_decision_Ok_iff [simp]:
  "take_decision lim seen n = Ok q \<longleftrightarrow> seen + n \<le> usize_max \<and> seen + n \<le> lim \<and> q = seen + n"
  by (auto simp: take_decision_def split: option.splits)

lemma set_thread_simps [simp]:
  "budget (set_thread s t th) = budget s" "threads (set_thread s t th) = (threads s)[t := th]"
  by (simp_all add: set_thread_def)

lemma sum_held_update:
  "t < length ts \<Longrightarrow>
   sum_list (map held (ts[t := th])) + held (ts ! t) = sum_list (map held ts) + held th"
proof (induction ts arbitrary: t)
  case (Cons a ts)
  then show ?case by (cases t) (auto simp: add.assoc)
qed simp

lemma budget_release_used:
  assumes "n \<le> used b" "used b \<le> usize_max"
  shows "used (budget_release b n) = used b - n"
proof -
  have "(used b + 2 ^ 64 - n) mod 2 ^ 64 = (used b - n + 2 ^ 64) mod 2 ^ 64"
    using assms(1) by (simp only: Nat.diff_add_assoc2)
  also have "\<dots> = used b - n"
    using assms by (simp only: mod_add_self2) (simp add: usize_max_def)
  finally show ?thesis by (simp add: budget_release_def)
qed

lemma budget_release_other [simp]:
  "limit (budget_release b n) = limit b" "peak (budget_release b n) = peak b"
  by (simp_all add: budget_release_def)

lemma pcs_update:
  "\<forall>th \<in> set ts. P th \<Longrightarrow> P th' \<Longrightarrow> \<forall>th \<in> set (ts[t := th']). P th"
  using set_update_subset_insert [of ts t th'] by blast

lemma budget_step_limit: "budget_step s s' \<Longrightarrow> limit (budget s') = limit (budget s)"
  by (erule budget_stepE) auto

lemma system_inv_update:
  assumes "system_inv s" "t < length (threads s)" "pc_ok (limit (budget s)) th'"
    and "limit b' = limit (budget s)" "used b' + held (threads s ! t) = used (budget s) + held th'"
    and "used b' \<le> limit b'" "peak b' \<le> limit b'"
  shows "system_inv (set_thread (s\<lparr>budget := b'\<rparr>) t th')"
proof -
  have "sum_list (map held ((threads s)[t := th'])) = used b'"
    using sum_held_update [OF assms(2), of th'] assms(1,5) by (simp add: system_inv_def total_held_def)
  moreover have "\<forall>th \<in> set ((threads s)[t := th']). pc_ok (limit (budget s)) th"
    using assms(1,3) by (intro pcs_update) (simp_all add: system_inv_def)
  ultimately show ?thesis using assms by (simp add: system_inv_def total_held_def)
qed

lemma system_inv_update_thread:
  assumes "system_inv s" "t < length (threads s)" "pc_ok (limit (budget s)) th'"
    and "held th' = held (threads s ! t)"
  shows "system_inv (set_thread s t th')"
  using system_inv_update [OF assms(1-3), of "budget s"] assms by (simp add: system_inv_def)

lemma held_le_used:
  "system_inv s \<Longrightarrow> t < length (threads s) \<Longrightarrow> held (threads s ! t) \<le> used (budget s)"
  using member_le_sum_list [of "held (threads s ! t)" "map held (threads s)"]
  by (simp add: system_inv_def total_held_def)

lemma system_inv_pc_ok:
  "system_inv s \<Longrightarrow> t < length (threads s) \<Longrightarrow> pc_ok (limit (budget s)) (threads s ! t)"
  by (simp add: system_inv_def)

lemma budget_step_inv:
  assumes "budget_step s s'" "system_inv s" shows "system_inv s'"
  using assms
proof (induction rule: budget_step.induct)
  case (release t s th n)
  then have "used (budget_release (budget s) n) = used (budget s) - n" "n \<le> used (budget s)"
    using held_le_used [of s t] budget_release_used [of n "budget s"] by (auto simp: system_inv_def)
  moreover have "pc_ok (limit (budget s)) (th\<lparr>held := held th - n\<rparr>)"
    using release system_inv_pc_ok [of s t] by (simp add: pc_ok_def)
  ultimately show ?case using release held_le_used [of s t]
    by (intro system_inv_update) (auto simp: system_inv_def)
next
  case (exchange t s th n seen stored)
  then show ?case by (intro system_inv_update) (auto simp: pc_ok_def system_inv_def)
next
  case (raise_peak t s th stored)
  then have "stored \<le> limit (budget s)"
    using system_inv_pc_ok [of s t] by (simp add: pc_ok_def)
  with raise_peak show ?case by (intro system_inv_update) (auto simp: pc_ok_def system_inv_def)
qed (auto intro!: system_inv_update_thread simp: pc_ok_def)

lemma budget_reach_inv:
  "budget_step\<^sup>*\<^sup>* s s' \<Longrightarrow> system_inv s \<Longrightarrow> system_inv s' \<and> limit (budget s') = limit (budget s)"
  by (induction rule: rtranclp_induct) (auto simp: budget_step_inv budget_step_limit)

lemma system_start_inv: "lim \<le> usize_max \<Longrightarrow> system_inv (system_start lim n)"
  by (simp add: system_inv_def system_start_def budget_new_def total_held_def pc_ok_def
      sum_list_replicate)

subsection \<open>Charges used by one caller\<close>

text \<open>The sequential operations, against an abstract account: the bytes held by all charges
  together.  \<open>accounts b h\<close> relates a budget to that number.\<close>

definition accounts :: "Budget \<Rightarrow> nat \<Rightarrow> bool" where
  "accounts b h \<longleftrightarrow> used b = h \<and> h \<le> limit b \<and> limit b \<le> usize_max \<and> peak b \<le> limit b \<and> h \<le> peak b"

lemma budget_take_accounts:
  assumes "accounts b h"
  shows "budget_take b n = (if h + n \<le> limit b
      then Ok (b\<lparr>used := h + n, peak := max (peak b) (h + n)\<rparr>)
      else Err (error_budget \<lparr>requested = n, in_use = h, bi_limit = limit b, retryable = n \<le> limit b\<rparr>))"
  using assms by (auto simp: budget_take_def take_decision_def accounts_def checked_add_def)

lemma budget_take_Ok_accounts:
  "accounts b h \<Longrightarrow> budget_take b n = Ok b' \<Longrightarrow> accounts b' (h + n) \<and> limit b' = limit b"
  by (auto simp: budget_take_accounts accounts_def split: if_splits)

lemma budget_release_accounts:
  assumes "accounts b h" "n \<le> h"
  shows "accounts (budget_release b n) (h - n) \<and> limit (budget_release b n) = limit b"
  using assms budget_release_used [of n b] by (auto simp: accounts_def)

lemma charge_grow_accounts:
  "accounts b (h + c) \<Longrightarrow> charge_grow c n b = Ok (c', b') \<Longrightarrow>
   c' = c + n \<and> accounts b' (h + c') \<and> limit b' = limit b"
  using budget_take_Ok_accounts [of b "h + c" n] by (auto simp: charge_grow_def add.assoc)

lemma charge_shrink_accounts:
  assumes "accounts b (h + c)" "charge_shrink c n b = (c', b')"
  shows "c' = c - n \<and> accounts b' (h + c') \<and> limit b' = limit b"
  using assms budget_release_accounts [of b "h + c" "min n c"]
  by (auto simp: charge_shrink_def Let_def)

lemma bookkeeping_settle_accounts:
  assumes "accounts b (h + bookkeeping_bytes k)" "bookkeeping_settle k want b = Ok (k', b')"
  shows "bookkeeping_bytes k' = want \<and> accounts b' (h + want) \<and> limit b' = limit b"
proof (cases "cmp want (bookkeeping_bytes k)")
  case Less
  then obtain c where k: "k = Some c" "want < c" by (cases k) (auto simp: bookkeeping_bytes_def)
  show ?thesis
  proof (cases "want = 0")
    case True
    then show ?thesis using assms k budget_release_accounts [of b "h + c" c] Less
      by (auto simp: bookkeeping_settle_def bookkeeping_bytes_def charge_drop_def Let_def)
  next
    case False
    obtain c' b1 where s: "charge_shrink c (c - want) b = (c', b1)" by fastforce
    then show ?thesis using charge_shrink_accounts [OF _ s, of h] assms k Less False
      by (auto simp: bookkeeping_settle_def bookkeeping_bytes_def Let_def)
  qed
next
  case Equal
  then show ?thesis using assms by (auto simp: bookkeeping_settle_def Let_def)
next
  case Greater
  then have want: "bookkeeping_bytes k < want" by simp
  show ?thesis
  proof (cases k)
    case None
    then have "try_reserve b want = Ok (want, b')" "k' = Some want"
      using assms(2) want by (auto simp: bookkeeping_settle_def bookkeeping_bytes_def Let_def try_reserve_def)
    then show ?thesis using assms(1) None budget_take_Ok_accounts [of b h want b']
      by (simp add: try_reserve_def bookkeeping_bytes_def)
  next
    case (Some c)
    then obtain c' where g: "charge_grow c (want - c) b = Ok (c', b')" "k' = Some c'"
      using assms(2) want by (auto simp: bookkeeping_settle_def bookkeeping_bytes_def Let_def)
    show ?thesis using charge_grow_accounts [of b h c, OF _ g(1)] g(2) assms(1) Some want
      by (auto simp: bookkeeping_bytes_def)
  qed
qed

subsection \<open>Size estimates\<close>

lemma power_of_two_from_ge: "0 < m \<Longrightarrow> n \<le> power_of_two_from m n \<and> m \<le> power_of_two_from m n"
proof (induction m n rule: power_of_two_from.induct)
  case (1 m n)
  show ?case
  proof (cases "m < n")
    case True
    with 1 have "n \<le> power_of_two_from (2 * m) n \<and> 2 * m \<le> power_of_two_from (2 * m) n" by simp
    with True 1(2) show ?thesis by (simp add: power_of_two_from.simps [of m n])
  next
    case False
    then show ?thesis by (simp add: power_of_two_from.simps [of m n])
  qed
qed

lemma power_of_two_from_mono:
  "n \<le> n' \<Longrightarrow> 0 < m \<Longrightarrow> power_of_two_from m n \<le> power_of_two_from m n'"
proof (induction m n rule: power_of_two_from.induct)
  case (1 m n)
  show ?case
  proof (cases "m < n")
    case True
    with 1 have "power_of_two_from (2 * m) n \<le> power_of_two_from (2 * m) n'" "m < n'" by simp_all
    with True 1(3) show ?thesis by (simp add: power_of_two_from.simps [of m])
  next
    case False
    then show ?thesis using 1(3) power_of_two_from_ge [of m n'] by (simp add: power_of_two_from.simps [of m n])
  qed
qed

lemma power_of_two_from_power: "\<exists>j. power_of_two_from (2 ^ k) n = 2 ^ j"
proof (induction "2 ^ k :: nat" n arbitrary: k rule: power_of_two_from.induct)
  case (1 n)
  show ?case
  proof (cases "2 ^ k < n")
    case True
    with 1(1) [of "Suc k"] show ?thesis by (simp add: power_of_two_from.simps [of "2 ^ k"])
  next
    case False
    then show ?thesis by (auto simp: power_of_two_from.simps [of "2 ^ k"])
  qed
qed

lemma next_power_of_two: "n \<le> next_power_of_two n" "\<exists>j. next_power_of_two n = 2 ^ j"
  "n \<le> n' \<Longrightarrow> next_power_of_two n \<le> next_power_of_two n'"
  using power_of_two_from_ge [of 1 n] power_of_two_from_power [of 0 n] power_of_two_from_mono [of n n' 1]
  by (simp_all add: next_power_of_two_def)

lemma div_ceil_ge:
  assumes "0 < b" shows "a \<le> div_ceil a b * b"
proof -
  have "a + b - 1 < (a + b - 1) div b * b + b"
    using dividend_less_div_times [OF assms, of "a + b - 1"] by simp
  with assms show ?thesis unfolding div_ceil_def by linarith
qed

lemma div_ceil_mono: "a \<le> a' \<Longrightarrow> div_ceil a b \<le> div_ceil a' b"
  by (simp add: div_ceil_def div_le_mono)

text \<open>The buckets, and the estimate where it does not wrap.\<close>

definition table_buckets :: "nat \<Rightarrow> nat" where
  "table_buckets n = next_power_of_two (max (div_ceil (saturating_mul n 8) 7) 4)"

lemma power_of_two_from_lt: "0 < m \<Longrightarrow> m < 2 * n \<Longrightarrow> power_of_two_from m n < 2 * n"
proof (induction m n rule: power_of_two_from.induct)
  case (1 m n)
  then show ?case by (subst power_of_two_from.simps) auto
qed

lemma next_power_of_two_lt: "0 < n \<Longrightarrow> next_power_of_two n < 2 * n"
  using power_of_two_from_lt [of 1 n] by (simp add: next_power_of_two_def)

lemma div_ceil_lt:
  assumes "0 < b" shows "div_ceil a b * b < a + b"
proof -
  have "(a + b - 1) div b * b \<le> a + b - 1" by (rule div_times_less_eq_dividend)
  then show ?thesis using assms unfolding div_ceil_def by linarith
qed

lemma table_buckets_le:
  assumes "0 < n" shows "table_buckets n \<le> 8 * n"
proof -
  let ?m = "max (div_ceil (saturating_mul n 8) 7) 4"
  have "div_ceil (saturating_mul n 8) 7 * 7 < n * 8 + 7"
    using div_ceil_lt [of 7 "saturating_mul n 8"] by (auto simp: saturating_mul_def)
  then have "?m \<le> 4 * n" using assms by auto
  moreover have "next_power_of_two ?m < 2 * ?m" by (rule next_power_of_two_lt) simp
  ultimately show ?thesis unfolding table_buckets_def by linarith
qed

lemma table_buckets_mono: "n \<le> n' \<Longrightarrow> table_buckets n \<le> table_buckets n'"
  unfolding table_buckets_def by (intro next_power_of_two(3) max.mono div_ceil_mono) (auto simp: saturating_mul_def)

lemma hash_table_bytes_eq:
  assumes "0 < n" "n * (e + 1) \<le> 2 ^ 60"
  shows "hash_table_bytes n e = next_multiple_of (table_buckets n * (e + 1) + HASH_GROUP) HASH_GROUP"
    "hash_table_bytes n e < 8 * (n * (e + 1)) + 2 * HASH_GROUP"
proof -
  let ?x = "table_buckets n * (e + 1)"
  have x: "?x \<le> 8 * (n * (e + 1))" using mult_le_mono1 [OF table_buckets_le [OF assms(1)], of "e + 1"] by simp
  have e: "e + 1 < 2 ^ 64"
  proof -
    have "1 * (e + 1) \<le> n * (e + 1)" using assms(1) by (intro mult_le_mono1) simp
    from order_trans [OF this assms(2)] show ?thesis by simp
  qed
  have m: "next_multiple_of (?x + HASH_GROUP) HASH_GROUP < ?x + 2 * HASH_GROUP"
    using div_ceil_lt [of HASH_GROUP "?x + HASH_GROUP"] by (simp add: next_multiple_of_def HASH_GROUP_def)
  have w: "wrapping (e + 1) = e + 1" "wrapping ?x = ?x" "wrapping (?x + HASH_GROUP) = ?x + HASH_GROUP"
    "wrapping (next_multiple_of (?x + HASH_GROUP) HASH_GROUP) = next_multiple_of (?x + HASH_GROUP) HASH_GROUP"
    using e x m assms(2) unfolding wrapping_def by (intro mod_less; simp add: HASH_GROUP_def)+
  show eq: "hash_table_bytes n e = next_multiple_of (?x + HASH_GROUP) HASH_GROUP"
    using assms(1) w by (simp add: hash_table_bytes_def Let_def table_buckets_def)
  show "hash_table_bytes n e < 8 * (n * (e + 1)) + 2 * HASH_GROUP" using eq m x by simp
qed

subsection \<open>Properties\<close>

text \<open>C22: However the atomic accesses of any number of threads interleave, the bytes a budget
  has handed out are exactly what the threads' charges hold together, and neither they nor
  the recorded peak ever exceed the limit the budget was made with.\<close>

theorem budget_never_exceeded:
  assumes "lim \<le> usize_max" "budget_step\<^sup>*\<^sup>* (system_start lim n) s"
  shows "used (budget s) = sum_list (map held (threads s)) \<and> used (budget s) \<le> lim
    \<and> peak (budget s) \<le> lim \<and> limit (budget s) = lim"
  using budget_reach_inv [OF assms(2) system_start_inv [OF assms(1)]]
  by (simp add: system_inv_def total_held_def system_start_def budget_new_def)

definition example_system :: System where
  "example_system = \<lparr>budget = \<lparr>limit = 10, used = 4, peak = 0\<rparr>,
     threads = [\<lparr>pc = Exchanged 4, held = 4, last_error = None\<rparr>,
                \<lparr>pc = Idle, held = 0, last_error = None\<rparr>]\<rparr>"

lemma replicate_2: "replicate 2 x = [x, x]"
  by (simp add: numeral_2_eq_2)

lemma example_system_reached: "budget_step\<^sup>*\<^sup>* (system_start 10 2) example_system"
proof -
  have "budget_step (system_start 10 2)
      (set_thread (system_start 10 2) 0 \<lparr>pc = Trying 4 0, held = 0, last_error = None\<rparr>)" (is "budget_step _ ?m")
    using budget_step.load [of 0 "system_start 10 2" _ 4]
    by (simp add: system_start_def budget_new_def replicate_2)
  moreover have "budget_step ?m example_system"
    using budget_step.exchange [of 0 ?m _ 4 0 4]
    by (simp add: system_start_def budget_new_def example_system_def replicate_2 set_thread_def
        usize_max_def)
  ultimately show ?thesis by auto
qed

theorem budget_never_exceeded_witness:
  "used (budget example_system) = sum_list (map held (threads example_system))
    \<and> used (budget example_system) \<le> 10"
  using budget_never_exceeded [OF _ example_system_reached] by (simp add: usize_max_def)

text \<open>C23: Settling a bookkeeping charge brings it to exactly the bytes wanted and the budget to
  match.  It fails only when the other charges and the bytes wanted together are over the
  limit, with an error that says whether freeing memory could help.\<close>

theorem bookkeeping_settle_exact:
  assumes "accounts b (h + bookkeeping_bytes k)"
  shows "case bookkeeping_settle k want b of
      Inr (k', b') \<Rightarrow> bookkeeping_bytes k' = want \<and> accounts b' (h + want) \<and> limit b' = limit b
    | Inl e \<Rightarrow> limit b < h + want \<and> bookkeeping_bytes k < want \<and>
        e = error_budget \<lparr>requested = want - bookkeeping_bytes k, in_use = h + bookkeeping_bytes k,
              bi_limit = limit b, retryable = want - bookkeeping_bytes k \<le> limit b\<rparr>"
proof (cases "bookkeeping_settle k want b")
  case (Inl e)
  then have "bookkeeping_bytes k < want \<and> budget_take b (want - bookkeeping_bytes k) = Err e"
    by (auto simp: bookkeeping_settle_def Let_def charge_grow_def try_reserve_def bookkeeping_bytes_def
        and_then_def split: ordering.splits option.splits if_splits prod.splits sum.splits)
  then show ?thesis using Inl by (auto simp: budget_take_accounts [OF assms] split: if_splits)
next
  case (Inr r)
  then show ?thesis using bookkeeping_settle_accounts [OF assms] by (cases r) auto
qed

theorem bookkeeping_settle_exact_witness:
  "bookkeeping_settle (Some 3) 9 \<lparr>limit = 10, used = 5, peak = 5\<rparr>
     = Err (error_budget \<lparr>requested = 6, in_use = 5, bi_limit = 10, retryable = True\<rparr>)
   \<and> (10::nat) < 2 + 9"
  using bookkeeping_settle_exact [of "\<lparr>limit = 10, used = 5, peak = 5\<rparr>" 2 "Some 3" 9]
  by (simp add: accounts_def bookkeeping_bytes_def usize_max_def bookkeeping_settle_def charge_grow_def
      budget_take_def take_decision_def checked_add_def)

text \<open>C24: For tables of at most \<open>2 ^ 59\<close> bytes of entries and control bytes, which keeps the
  machine arithmetic from wrapping, the estimate is never short of what the table it is made for
  needs: some power of two of buckets, of which the entries fill at most seven eighths, with an
  entry and a control byte each and one spare group; and growing a table by one entry is
  estimated at no less than the tables live before and after.\<close>

theorem hash_table_estimate_covers:
  assumes "0 < n" "n * (e + 1) \<le> 2 ^ 59"
  shows "(\<exists>j. n * 8 \<le> 2 ^ j * 7 \<and> 2 ^ j * (e + 1) + HASH_GROUP \<le> hash_table_bytes n e)
    \<and> (\<forall>c l. c \<le> l \<longrightarrow> hash_table_bytes n e + hash_table_bytes (n + 1) e \<le> hash_table_peak_bytes n c l e)"
proof (intro conjI allI impI)
  have n: "n \<le> 2 ^ 59" using assms(2) by (metis Suc_eq_plus1 le_trans mult_le_mono2 mult.right_neutral Suc_le_mono le0 One_nat_def)
  have one: "n * (e + 1) \<le> 2 ^ 60" and two: "(n * 2) * (e + 1) \<le> 2 ^ 60" using assms(2) by simp_all
  have next_one: "(n + 1) * (e + 1) \<le> 2 ^ 60"
  proof -
    have "(n + 1) * (e + 1) \<le> (n * 2) * (e + 1)" using assms(1) by (intro mult_le_mono1) simp
    then show ?thesis using two by linarith
  qed
  note eq = hash_table_bytes_eq(1) [OF assms(1) one]
  have "n * 8 \<le> table_buckets n * 7"
  proof -
    have "saturating_mul n 8 = n * 8" using n by (simp add: saturating_mul_def usize_max_def)
    then have "n * 8 \<le> div_ceil (saturating_mul n 8) 7 * 7" using div_ceil_ge [of 7 "n * 8"] by simp
    then show ?thesis using next_power_of_two(1) [of "max (div_ceil (saturating_mul n 8) 7) 4"] by (simp add: table_buckets_def)
  qed
  moreover obtain j where "table_buckets n = 2 ^ j" using next_power_of_two(2) by (auto simp: table_buckets_def)
  moreover have "table_buckets n * (e + 1) + HASH_GROUP \<le> hash_table_bytes n e"
    unfolding eq next_multiple_of_def by (rule div_ceil_ge) (simp add: HASH_GROUP_def)
  ultimately show "\<exists>j. n * 8 \<le> 2 ^ j * 7 \<and> 2 ^ j * (e + 1) + HASH_GROUP \<le> hash_table_bytes n e" by auto
  fix c l :: nat
  assume cl: "c \<le> l"
  have "table_buckets (n + 1) \<le> table_buckets (n * 2)" using assms(1) by (intro table_buckets_mono) simp
  moreover have "0 < n * 2" "0 < n + 1" using assms(1) by simp_all
  ultimately have "hash_table_bytes (n + 1) e \<le> hash_table_bytes (n * 2) e"
    unfolding hash_table_bytes_eq(1) [OF \<open>0 < n + 1\<close> next_one] hash_table_bytes_eq(1) [OF \<open>0 < n * 2\<close> two] next_multiple_of_def
    by (intro mult_le_mono1 div_ceil_mono add_le_mono1)
  moreover have "hash_table_bytes n e + hash_table_bytes (n * 2) e \<le> usize_max"
    using hash_table_bytes_eq(2) [OF assms(1) one] hash_table_bytes_eq(2) [OF _ two] assms by (simp add: usize_max_def HASH_GROUP_def)
  moreover have "saturating_mul n 2 = n * 2" using n by (simp add: saturating_mul_def usize_max_def)
  ultimately show "hash_table_bytes n e + hash_table_bytes (n + 1) e \<le> hash_table_peak_bytes n c l e"
    using assms(1) cl by (simp add: hash_table_peak_bytes_def Let_def saturating_add_def)
qed

theorem hash_table_estimate_covers_witness:
  "(\<exists>j. (40::nat) \<le> 2 ^ j * 7 \<and> 2 ^ j * 9 + HASH_GROUP \<le> hash_table_bytes 5 8)"
  using hash_table_estimate_covers [of 5 8] by simp

end
