(* ===== verification/Catalog.thy ===== *)
theory Catalog
  imports Io Budget
begin

text \<open>
  The descriptor section (\<^verbatim>\<open>crates/drydb/src/format/catalog.rs\<close>) and the loop that reads it
  when a database is opened (\<open>read_catalog\<close> of \<^verbatim>\<open>crates/drydb/src/db.rs\<close>).  A Rust string is
  the list of its bytes, which satisfy \<open>utf8_valid\<close>.

  The sizes of Rust types are the compiler's choice, so they are a parameter, \<open>Layout\<close>.
\<close>

subsection \<open>Descriptors\<close>

type_synonym rstring = bytes

datatype ValueKind = RawData | PrimaryKey | ValuePageRef

definition value_kind_from_u8 :: "byte \<Rightarrow> ValueKind result" where
  "value_kind_from_u8 v =
     (if v = 0 then Ok RawData else if v = 1 then Ok PrimaryKey else if v = 2 then Ok ValuePageRef
      else Err (error_new UnsupportedFormat))"

fun value_kind_to_u8 :: "ValueKind \<Rightarrow> byte" where
  "value_kind_to_u8 RawData = 0"
| "value_kind_to_u8 PrimaryKey = 1"
| "value_kind_to_u8 ValuePageRef = 2"

record IndexDescriptor =
  index_name :: rstring
  is_unique :: bool
  key_encoding_id :: rstring
  value_kind :: ValueKind
  root :: "page_ordinal option"
  root_field_offset :: nat

record TableDescriptor =
  table_name :: rstring
  primary :: IndexDescriptor
  secondaries :: "IndexDescriptor list"

record Catalog =
  cat_page_size :: nat
  cat_page_count :: nat
  cat_directory_position :: file_offset
  filters :: "rstring list"
  tables :: "TableDescriptor list"
  descriptor_end :: nat

definition find_secondary :: "TableDescriptor \<Rightarrow> rstring \<Rightarrow> IndexDescriptor option" where
  "find_secondary t name = find (\<lambda>i. index_name i = name) (secondaries t)"

definition find_table :: "Catalog \<Rightarrow> rstring \<Rightarrow> TableDescriptor option" where
  "find_table c name = find (\<lambda>t. table_name t = name) (tables c)"

datatype CatalogParse = Complete Catalog | NeedMore nat

subsection \<open>UTF-8\<close>

text \<open>What \<open>std::str::from_utf8\<close> accepts.\<close>

definition continuation :: "byte \<Rightarrow> bool" where
  "continuation b \<longleftrightarrow> 0x80 \<le> b \<and> b \<le> 0xBF"

fun utf8_valid :: "bytes \<Rightarrow> bool" where
  "utf8_valid [] = True"
| "utf8_valid (b # bs) =
     (if b < 0x80 then utf8_valid bs
      else case bs of
        [] \<Rightarrow> False
      | c # cs \<Rightarrow>
          if 0xC2 \<le> b \<and> b \<le> 0xDF then continuation c \<and> utf8_valid cs
          else case cs of
            [] \<Rightarrow> False
          | d # ds \<Rightarrow>
              if 0xE0 \<le> b \<and> b \<le> 0xEF then
                continuation c \<and> (b = 0xE0 \<longrightarrow> 0xA0 \<le> c) \<and> (b = 0xED \<longrightarrow> c \<le> 0x9F)
                \<and> continuation d \<and> utf8_valid ds
              else case ds of
                [] \<Rightarrow> False
              | e # es \<Rightarrow>
                  0xF0 \<le> b \<and> b \<le> 0xF4 \<and> continuation c \<and> (b = 0xF0 \<longrightarrow> 0x90 \<le> c)
                  \<and> (b = 0xF4 \<longrightarrow> c \<le> 0x8F) \<and> continuation d \<and> continuation e \<and> utf8_valid es)"

definition utf8 :: "bytes \<Rightarrow> rstring result" where
  "utf8 bs = (if utf8_valid bs then Ok bs else Err corrupt)"

subsection \<open>The parser\<close>

text \<open>
  A step of the parse has the buffer, the position of the \<open>Reader\<close> and the charge it
  reserves on.  A step fails, or finds the buffer too short, which ends the whole parse with
  the number of bytes the \<open>need!\<close> macro reports, or goes on.
\<close>

record Parse_State =
  p_pos :: nat
  p_charge :: charge
  p_budget :: Budget

datatype 'a parsed = Fails Error | NeedsMore nat Parse_State | Parsed 'a Parse_State

type_synonym 'a parser = "bytes \<Rightarrow> Parse_State \<Rightarrow> 'a parsed"

definition p_return :: "'a \<Rightarrow> 'a parser" where
  "p_return x buf st = Parsed x st"

definition p_bind :: "'a parser \<Rightarrow> ('a \<Rightarrow> 'b parser) \<Rightarrow> 'b parser" where
  "p_bind p f buf st =
     (case p buf st of
        Fails e \<Rightarrow> Fails e
      | NeedsMore n st' \<Rightarrow> NeedsMore n st'
      | Parsed x st' \<Rightarrow> f x buf st')"

definition p_try :: "'a result \<Rightarrow> 'a parser" where
  "p_try r buf st = (case r of Inl e \<Rightarrow> Fails e | Inr x \<Rightarrow> Parsed x st)"

primrec p_times :: "nat \<Rightarrow> 'a parser \<Rightarrow> 'a list parser" where
  "p_times 0 p = p_return []"
| "p_times (Suc n) p = p_bind p (\<lambda>x. p_bind (p_times n p) (\<lambda>xs. p_return (x # xs)))"

text \<open>\<open>Reader::take\<close>.  When the end overflows, \<open>need\<close> stays unset and the macro asks for one
  byte more than the buffer has.\<close>

definition p_take :: "nat \<Rightarrow> bytes parser" where
  "p_take len buf st =
     (case checked_add (p_pos st) len of
        None \<Rightarrow> NeedsMore (length buf + 1) st
      | Some stop \<Rightarrow>
          (case slice_get buf (p_pos st) stop of
             Some s \<Rightarrow> Parsed s (st\<lparr>p_pos := stop\<rparr>)
           | None \<Rightarrow> NeedsMore stop st))"

definition p_pos_now :: "nat parser" where
  "p_pos_now buf st = Parsed (p_pos st) st"

definition p_grow :: "nat \<Rightarrow> unit parser" where
  "p_grow n buf st =
     (case charge_grow (p_charge st) n (p_budget st) of
        Inl e \<Rightarrow> Fails e
      | Inr (c, b) \<Rightarrow> Parsed () (st\<lparr>p_charge := c, p_budget := b\<rparr>))"

record Layout =
  size_of_String :: nat
  size_of_IndexDescriptor :: nat
  size_of_TableDescriptor :: nat
  size_of_Catalog :: nat

definition slot_cost :: "nat \<Rightarrow> nat" where
  "slot_cost size_of = 3 * size_of + BUFFER_OVERHEAD"

definition charge_string :: "nat \<Rightarrow> unit parser" where
  "charge_string len = p_grow (len + BUFFER_OVERHEAD)"

definition is_unique_of :: "byte \<Rightarrow> bool result" where
  "is_unique_of b = (if b = 0 then Ok False else if b = 1 then Ok True else Err corrupt)"

definition read_index_descriptor :: "IndexDescriptor parser" where
  "read_index_descriptor =
     p_bind (p_take 4) (\<lambda>head.
     p_bind (p_try (read_u16 head 0)) (\<lambda>name_len.
     p_bind (p_try (read_u16 head 2)) (\<lambda>encoding_len.
     p_bind (p_take name_len) (\<lambda>name_bytes.
     p_bind (charge_string (length name_bytes)) (\<lambda>_.
     p_bind (p_try (utf8 name_bytes)) (\<lambda>name.
     p_bind (p_take encoding_len) (\<lambda>encoding_bytes.
     p_bind (charge_string (length encoding_bytes)) (\<lambda>_.
     p_bind (p_try (utf8 encoding_bytes)) (\<lambda>encoding_id.
     p_bind (p_take 10) (\<lambda>tail.
     p_bind (p_try (and_then (read_u8 tail 0) is_unique_of)) (\<lambda>unique.
     p_bind (p_try (and_then (read_u8 tail 1) value_kind_from_u8)) (\<lambda>kind.
     p_bind (p_try (and_then (read_i64 tail 2) ordinal_from_i64)) (\<lambda>root_page.
     p_bind p_pos_now (\<lambda>pos.
     p_return \<lparr>index_name = name, is_unique = unique, key_encoding_id = encoding_id,
               value_kind = kind, root = root_page, root_field_offset = pos - 8\<rparr>))))))))))))))"

definition read_filter :: "Layout \<Rightarrow> rstring parser" where
  "read_filter lay =
     p_bind (p_take 1) (\<lambda>len_byte.
     p_bind (p_take (unat (len_byte ! 0))) (\<lambda>name.
     p_bind (charge_string (length name)) (\<lambda>_.
     p_bind (p_grow (slot_cost (size_of_String lay))) (\<lambda>_.
     p_try (utf8 name)))))"

text \<open>The checks for a name declared twice compare each element with those before it.\<close>

definition repeats :: "rstring list \<Rightarrow> bool" where
  "repeats names \<longleftrightarrow> (\<exists>a < length names. names ! a \<in> set (take a names))"

definition read_table :: "Layout \<Rightarrow> TableDescriptor parser" where
  "read_table lay =
     p_bind (p_take 4) (\<lambda>name_len_bytes.
     p_bind (p_try (and_then (read_i32 name_len_bytes 0) checked_len)) (\<lambda>name_len.
     p_bind (p_take name_len) (\<lambda>name_bytes.
     p_bind (charge_string (length name_bytes)) (\<lambda>_.
     p_bind (p_grow (slot_cost (size_of_TableDescriptor lay))) (\<lambda>_.
     p_bind (p_try (utf8 name_bytes)) (\<lambda>name.
     p_bind read_index_descriptor (\<lambda>prim.
     p_bind (p_take 2) (\<lambda>count_bytes.
     p_bind (p_try (read_u16 count_bytes 0)) (\<lambda>index_count.
     p_bind (p_times index_count
        (p_bind (p_grow (slot_cost (size_of_IndexDescriptor lay))) (\<lambda>_. read_index_descriptor))) (\<lambda>secs.
     p_bind (p_try (if repeats (map index_name secs) then Err corrupt else Ok ())) (\<lambda>_.
     p_return \<lparr>table_name = name, primary = prim, secondaries = secs\<rparr>)))))))))))"

definition catalog_parser :: "Layout \<Rightarrow> nat \<Rightarrow> nat \<Rightarrow> nat \<Rightarrow> nat \<Rightarrow> nat \<Rightarrow> Catalog parser" where
  "catalog_parser lay filter_count tbl_count pg_size pg_count dir_position =
     p_bind (p_times filter_count (read_filter lay)) (\<lambda>fs.
     p_bind (p_times tbl_count (read_table lay)) (\<lambda>ts.
     p_bind (p_try (if repeats (map table_name ts) then Err corrupt else Ok ())) (\<lambda>_.
     p_bind (p_grow (size_of_Catalog lay + BUFFER_OVERHEAD)) (\<lambda>_.
     p_bind p_pos_now (\<lambda>pos.
     p_return \<lparr>cat_page_size = pg_size, cat_page_count = pg_count,
               cat_directory_position = dir_position, filters = fs, tables = ts,
               descriptor_end = pos\<rparr>)))))"

definition catalog_parse ::
  "Layout \<Rightarrow> bytes \<Rightarrow> nat \<Rightarrow> nat \<Rightarrow> nat \<Rightarrow> nat \<Rightarrow> nat \<Rightarrow> charge \<Rightarrow> Budget \<Rightarrow>
   (CatalogParse \<times> charge \<times> Budget) result" where
  "catalog_parse lay buf filter_count tbl_count pg_size pg_count dir_position c b =
     (case catalog_parser lay filter_count tbl_count pg_size pg_count dir_position buf
             \<lparr>p_pos = HEADER_LEN, p_charge = c, p_budget = b\<rparr> of
        Fails e \<Rightarrow> Err e
      | NeedsMore n st \<Rightarrow> Ok (NeedMore n, p_charge st, p_budget st)
      | Parsed cat st \<Rightarrow> Ok (Complete cat, p_charge st, p_budget st))"

subsection \<open>Writing a descriptor\<close>

definition encode_index_descriptor ::
  "rstring \<Rightarrow> rstring \<Rightarrow> bool \<Rightarrow> ValueKind \<Rightarrow> int \<Rightarrow> bytes result" where
  "encode_index_descriptor name encoding_id unique kind root_placeholder =
     (if length name > 65535 then Err invalid
      else if length encoding_id > 65535 then Err invalid
      else Ok (u16_to_le (length name) @ u16_to_le (length encoding_id) @ name @ encoding_id
             @ [of_bool unique, value_kind_to_u8 kind] @ i64_to_le root_placeholder))"

subsection \<open>Parsing a prefix\<close>

text \<open>
  A stable parser does on any longer buffer what it does on a shorter one, unless it asked for
  more; and it asks only for more than it was given.  Stability is closed under the
  combinators.
\<close>

named_theorems stable_intros \<open>stability of parsers\<close>

definition stable :: "'a parser \<Rightarrow> bool" where
  "stable p \<longleftrightarrow> (\<forall>buf ext st. case p buf st of
     Fails e \<Rightarrow> p (buf @ ext) st = Fails e
   | NeedsMore n st' \<Rightarrow> length buf < n
   | Parsed x st' \<Rightarrow> p (buf @ ext) st = Parsed x st')"

lemma stableI:
  assumes "\<And>buf ext st e. p buf st = Fails e \<Longrightarrow> p (buf @ ext) st = Fails e"
    and "\<And>buf st n st'. p buf st = NeedsMore n st' \<Longrightarrow> length buf < n"
    and "\<And>buf ext st x st'. p buf st = Parsed x st' \<Longrightarrow> p (buf @ ext) st = Parsed x st'"
  shows "stable p"
  using assms by (auto simp: stable_def split: parsed.splits)

lemma stableD:
  assumes "stable p"
  shows "p buf st = Fails e \<Longrightarrow> p (buf @ ext) st = Fails e"
    and "p buf st = NeedsMore n st' \<Longrightarrow> length buf < n"
    and "p buf st = Parsed x st' \<Longrightarrow> p (buf @ ext) st = Parsed x st'"
  using assms [unfolded stable_def, rule_format, of buf ext st] by auto

lemma stable_bind [stable_intros]:
  assumes p: "stable p" and f: "\<And>x. stable (f x)" shows "stable (p_bind p f)"
proof (rule stableI)
  show "p_bind p f (buf @ ext) st = Fails e" if "p_bind p f buf st = Fails e" for buf ext st e
    using that stableD [OF p, of buf st] stableD(1) [OF f] by (auto simp: p_bind_def split: parsed.splits)
  show "length buf < n" if "p_bind p f buf st = NeedsMore n st'" for buf st n st'
    using that stableD(2) [OF p] stableD(2) [OF f] by (auto simp: p_bind_def split: parsed.splits)
  show "p_bind p f (buf @ ext) st = Parsed x st'" if "p_bind p f buf st = Parsed x st'" for buf ext st x st'
    using that stableD(3) [OF p] stableD(3) [OF f] by (auto simp: p_bind_def split: parsed.splits)
qed

lemma stable_basic [stable_intros]:
  "stable (p_return x)" "stable (p_try r)" "stable p_pos_now" "stable (p_grow n)"
  by (auto simp: stable_def p_return_def p_try_def p_pos_now_def p_grow_def split: sum.splits prod.splits)

lemma stable_take [stable_intros]: "stable (p_take n)"
  by (rule stableI) (auto simp: p_take_def slice_within split: option.splits)

lemma stable_times [stable_intros]: "stable p \<Longrightarrow> stable (p_times n p)"
  by (induction n) (simp_all, (intro stable_intros | assumption)+)

lemma stable_string [stable_intros]: "stable (charge_string n)"
  unfolding charge_string_def by (intro stable_intros)

lemma stable_read_index_descriptor [stable_intros]: "stable read_index_descriptor"
  unfolding read_index_descriptor_def by (intro stable_intros)

lemma stable_read_filter [stable_intros]: "stable (read_filter lay)"
  unfolding read_filter_def by (intro stable_intros)

lemma stable_read_table [stable_intros]: "stable (read_table lay)"
  unfolding read_table_def by (intro stable_intros)

lemma stable_catalog_parser: "stable (catalog_parser lay fc tc ps npages dp)"
  unfolding catalog_parser_def by (intro stable_intros)

subsection \<open>What a parse keeps\<close>

text \<open>The position stays inside the buffer and the budget matches the charge, of which other
  holders have \<open>h\<close> bytes.\<close>

named_theorems keeps_intros \<open>preservation by parsers\<close>

definition parse_inv :: "bytes \<Rightarrow> nat \<Rightarrow> nat \<Rightarrow> Parse_State \<Rightarrow> bool" where
  "parse_inv buf lim h st \<longleftrightarrow> p_pos st \<le> length buf \<and> accounts (p_budget st) (h + p_charge st)
     \<and> limit (p_budget st) = lim"

definition keeps :: "'a parser \<Rightarrow> bool" where
  "keeps p \<longleftrightarrow> (\<forall>buf lim h st. parse_inv buf lim h st \<longrightarrow> (case p buf st of
     Fails e \<Rightarrow> True
   | NeedsMore n st' \<Rightarrow> parse_inv buf lim h st'
   | Parsed x st' \<Rightarrow> parse_inv buf lim h st' \<and> p_pos st \<le> p_pos st'))"

lemma keepsI:
  assumes "\<And>buf lim h st n st'. parse_inv buf lim h st \<Longrightarrow> p buf st = NeedsMore n st' \<Longrightarrow> parse_inv buf lim h st'"
    and "\<And>buf lim h st x st'. parse_inv buf lim h st \<Longrightarrow> p buf st = Parsed x st' \<Longrightarrow>
      parse_inv buf lim h st' \<and> p_pos st \<le> p_pos st'"
  shows "keeps p"
  unfolding keeps_def
proof (intro allI impI)
  fix buf lim h st
  assume "parse_inv buf lim h st"
  note inv = this
  show "case p buf st of Fails e \<Rightarrow> True | NeedsMore n st' \<Rightarrow> parse_inv buf lim h st'
      | Parsed x st' \<Rightarrow> parse_inv buf lim h st' \<and> p_pos st \<le> p_pos st'"
  proof (cases "p buf st")
    case (NeedsMore n st')
    with assms(1) [OF inv this] show ?thesis by simp
  next
    case (Parsed x st')
    with assms(2) [OF inv this] show ?thesis by simp
  qed simp
qed

lemma keepsD:
  assumes "keeps p" "parse_inv buf lim h st"
  shows "p buf st = NeedsMore n st' \<Longrightarrow> parse_inv buf lim h st'"
    and "p buf st = Parsed x st' \<Longrightarrow> parse_inv buf lim h st' \<and> p_pos st \<le> p_pos st'"
  using assms(1) [unfolded keeps_def, rule_format, OF assms(2)] by auto

lemma keeps_bind [keeps_intros]:
  assumes p: "keeps p" and f: "\<And>x. keeps (f x)" shows "keeps (p_bind p f)"
proof (rule keepsI)
  fix buf lim h st n st'
  assume inv: "parse_inv buf lim h st" and r: "p_bind p f buf st = NeedsMore n st'"
  show "parse_inv buf lim h st'"
  proof (cases "p buf st")
    case (Parsed x s)
    with r have "f x buf s = NeedsMore n st'" by (simp add: p_bind_def)
    then show ?thesis using keepsD(2) [OF p inv Parsed] keepsD(1) [OF f] by blast
  qed (use r keepsD(1) [OF p inv] in \<open>simp_all add: p_bind_def\<close>)
next
  fix buf lim h st x st'
  assume inv: "parse_inv buf lim h st" and r: "p_bind p f buf st = Parsed x st'"
  then obtain y s where s: "p buf st = Parsed y s" "f y buf s = Parsed x st'"
    by (auto simp: p_bind_def split: parsed.splits)
  then show "parse_inv buf lim h st' \<and> p_pos st \<le> p_pos st'"
    using keepsD(2) [OF p inv s(1)] keepsD(2) [OF f _ s(2), of lim h] by linarith
qed

lemma keeps_basic [keeps_intros]: "keeps (p_return x)" "keeps (p_try r)" "keeps p_pos_now"
  by (auto simp: keeps_def p_return_def p_try_def p_pos_now_def split: sum.splits)

lemma keeps_take [keeps_intros]: "keeps (p_take n)"
  by (rule keepsI) (auto simp: p_take_def parse_inv_def split: option.splits if_splits)

lemma keeps_grow [keeps_intros]: "keeps (p_grow n)"
proof (rule keepsI)
  fix buf lim h st x st'
  assume "parse_inv buf lim h st" "p_grow n buf st = Parsed x st'"
  then show "parse_inv buf lim h st' \<and> p_pos st \<le> p_pos st'"
    using charge_grow_accounts [of "p_budget st" h "p_charge st" n]
    by (auto simp: p_grow_def parse_inv_def split: sum.splits prod.splits)
qed (auto simp: p_grow_def split: sum.splits prod.splits)

lemma keeps_times [keeps_intros]: "keeps p \<Longrightarrow> keeps (p_times n p)"
  by (induction n) (simp_all, (intro keeps_intros | assumption)+)

lemma keeps_string [keeps_intros]: "keeps (charge_string n)"
  unfolding charge_string_def by (intro keeps_intros)

lemma keeps_read_index_descriptor [keeps_intros]: "keeps read_index_descriptor"
  unfolding read_index_descriptor_def by (intro keeps_intros)

lemma keeps_read_filter [keeps_intros]: "keeps (read_filter lay)"
  unfolding read_filter_def by (intro keeps_intros)

lemma keeps_read_table [keeps_intros]: "keeps (read_table lay)"
  unfolding read_table_def by (intro keeps_intros)

lemma keeps_catalog_parser: "keeps (catalog_parser lay fc tc ps npages dp)"
  unfolding catalog_parser_def by (intro keeps_intros)

subsection \<open>What a parse reads\<close>

lemma p_bind_Parsed [simp]:
  "p_bind p f buf st = Parsed y st'' \<longleftrightarrow> (\<exists>x st'. p buf st = Parsed x st' \<and> f x buf st' = Parsed y st'')"
  by (auto simp: p_bind_def split: parsed.splits)

lemma p_basic_Parsed [simp]:
  "p_return x buf st = Parsed y st' \<longleftrightarrow> y = x \<and> st' = st"
  "p_try r buf st = Parsed y st' \<longleftrightarrow> r = Ok y \<and> st' = st"
  "p_pos_now buf st = Parsed n st' \<longleftrightarrow> n = p_pos st \<and> st' = st"
  by (auto simp: p_return_def p_try_def p_pos_now_def split: sum.splits)

text \<open>How far a step moved the position and what it reserved.\<close>

definition room :: "Parse_State \<Rightarrow> nat \<Rightarrow> bool" where
  "room st n \<longleftrightarrow> used (p_budget st) + n \<le> min usize_max (limit (p_budget st))"

definition moved :: "Parse_State \<Rightarrow> nat \<Rightarrow> nat \<Rightarrow> Parse_State \<Rightarrow> bool" where
  "moved st n c st' \<longleftrightarrow> p_pos st' = p_pos st + n \<and> p_charge st' = p_charge st + c
     \<and> used (p_budget st') = used (p_budget st) + c \<and> limit (p_budget st') = limit (p_budget st)"

text \<open>\<open>codec p enc cost ok\<close>: \<open>p\<close> reads \<open>x\<close> exactly where the buffer has its encoding and the
  budget has room for its cost; \<open>ok\<close> says which values can be read at a position.  A state is
  \<open>sane\<close> when its position lies in the buffer and its budget is not overdrawn.\<close>

definition sane :: "bytes \<Rightarrow> Parse_State \<Rightarrow> bool" where
  "sane buf st \<longleftrightarrow> fits buf (p_pos st) 0 \<and> room st 0"

definition codec :: "'a parser \<Rightarrow> ('a \<Rightarrow> bytes) \<Rightarrow> ('a \<Rightarrow> nat) \<Rightarrow> (nat \<Rightarrow> 'a \<Rightarrow> bool) \<Rightarrow> bool" where
  "codec p enc cost ok \<longleftrightarrow> (\<forall>buf st x. sane buf st \<longrightarrow>
     ((\<exists>st'. p buf st = Parsed x st') \<longleftrightarrow>
        ok (p_pos st) x \<and> has_at buf (p_pos st) (enc x) \<and> room st (cost x))
     \<and> (\<forall>st'. p buf st = Parsed x st' \<longrightarrow> moved st (length (enc x)) (cost x) st'))"

lemma p_take_Parsed:
  "p_take n buf st = Parsed s st' \<longleftrightarrow>
     fits buf (p_pos st) n \<and> s = slice buf (p_pos st) n \<and> st' = st\<lparr>p_pos := p_pos st + n\<rparr>"
  by (auto simp: p_take_def fits_def split: option.splits)

lemma p_grow_Parsed:
  "p_grow n buf st = Parsed u st' \<longleftrightarrow> room st n \<and>
     st' = st\<lparr>p_charge := p_charge st + n,
       p_budget := (p_budget st)\<lparr>used := used (p_budget st) + n,
         peak := max (peak (p_budget st)) (used (p_budget st) + n)\<rparr>\<rparr>"
  by (auto simp: p_grow_def charge_grow_def budget_take_def room_def take_decision_def checked_add_def
      and_then_def split: sum.splits if_splits option.splits)


subsubsection \<open>Index descriptors\<close>

definition descriptor_bytes :: "IndexDescriptor \<Rightarrow> bytes" where
  "descriptor_bytes d = u16_to_le (length (index_name d)) @ u16_to_le (length (key_encoding_id d))
     @ index_name d @ key_encoding_id d @ [of_bool (is_unique d)] @ [value_kind_to_u8 (value_kind d)]
     @ i64_to_le (ordinal_to_i64 (root d))"

definition descriptor_cost :: "IndexDescriptor \<Rightarrow> nat" where
  "descriptor_cost d = length (index_name d) + BUFFER_OVERHEAD + (length (key_encoding_id d) + BUFFER_OVERHEAD)"

definition descriptor_ok :: "nat \<Rightarrow> IndexDescriptor \<Rightarrow> bool" where
  "descriptor_ok pos d \<longleftrightarrow> length (index_name d) < 65536 \<and> length (key_encoding_id d) < 65536
     \<and> utf8_valid (index_name d) \<and> utf8_valid (key_encoding_id d)
     \<and> (case root d of None \<Rightarrow> True | Some n \<Rightarrow> n < 2 ^ 63)
     \<and> root_field_offset d = pos + length (descriptor_bytes d) - 8"

lemma utf8_Ok_iff [simp]: "utf8 bs = Inr s \<longleftrightarrow> utf8_valid bs \<and> s = bs"
  by (auto simp: utf8_def)

lemma is_unique_of_Ok_iff [simp]: "is_unique_of b = Inr u \<longleftrightarrow> b = of_bool u"
  by (auto simp: is_unique_of_def)

lemma value_kind_Ok_iff [simp]: "value_kind_from_u8 b = Inr k \<longleftrightarrow> b = value_kind_to_u8 k"
  by (cases k) (auto simp: value_kind_from_u8_def)

lemma root_Ok_iff:
  assumes "length bs = 8"
  shows "ordinal_from_i64 (to_signed 64 (le_nat bs)) = Inr r \<longleftrightarrow>
    (case r of None \<Rightarrow> True | Some n \<Rightarrow> n < 2 ^ 63) \<and> bs = i64_to_le (ordinal_to_i64 r)"
proof -
  have range: "to_signed 64 (le_nat bs) < 2 ^ 63"
    using to_signed_range(2) [of "le_nat bs" 64] le_nat_less [of bs] assms by simp
  have inv: "i64_to_le (to_signed 64 (le_nat bs)) = bs" using assms by (rule i64_to_le_inverse)
  have ret: "to_signed 64 (le_nat (i64_to_le i)) = i" if "- (2 ^ 63) \<le> i" "i < 2 ^ 63" for i
    using that to_signed_of_signed [of 64 i] by (simp add: le_nat_to_le)
  show ?thesis
  proof (cases r)
    case None
    have "to_signed 64 (le_nat bs) = - 1 \<longleftrightarrow> bs = i64_to_le (- 1)" using inv ret [of "- 1"] by auto
    with None show ?thesis by (simp add: ordinal_from_i64_Ok_iff ordinal_to_i64_def)
  next
    case (Some n)
    have "to_signed 64 (le_nat bs) = int n \<longleftrightarrow> n < 2 ^ 63 \<and> bs = i64_to_le (int n)"
      using inv ret [of "int n"] range by auto
    with Some show ?thesis by (auto simp: as_i64_small ordinal_to_i64_def)
  qed
qed

lemma length_descriptor_bytes:
  "length (descriptor_bytes d) = 14 + length (index_name d) + length (key_encoding_id d)"
  by (simp add: descriptor_bytes_def)

text \<open>The fields of a descriptor at a position, as the parser reads them.\<close>

lemma at_descriptor_bytes:
  assumes "length (index_name d) < 65536" "length (key_encoding_id d) < 65536"
  shows "has_at buf pos (descriptor_bytes d) \<longleftrightarrow>
    (let nl = le_nat (slice buf pos 2); el = le_nat (slice buf (pos + 2) 2); q = pos + 4 + nl + el in
     fits buf pos (14 + nl + el) \<and> nl = length (index_name d) \<and> el = length (key_encoding_id d)
     \<and> slice buf (pos + 4) nl = index_name d \<and> slice buf (pos + 4 + nl) el = key_encoding_id d
     \<and> buf ! q = of_bool (is_unique d) \<and> buf ! (q + 1) = value_kind_to_u8 (value_kind d)
     \<and> slice buf (q + 2) 8 = i64_to_le (ordinal_to_i64 (root d)))"
  unfolding descriptor_bytes_def at_append at_u16 [OF assms(1)] at_u16 [OF assms(2)] at_byte
    at_bytes [OF length_to_le(3)] at_bytes [OF refl, of _ _ "index_name d"]
    at_bytes [OF refl, of _ _ "key_encoding_id d"]
  by (auto simp: Let_def fits_def ac_simps simp del: add_2_eq_Suc add_2_eq_Suc')

lemmas parse_step_simps = p_take_Parsed p_grow_Parsed charge_string_def read_Ok_iff slice_slice

lemma p_take_eval: "fits buf (p_pos st) n \<Longrightarrow>
    p_take n buf st = Parsed (slice buf (p_pos st) n) (st\<lparr>p_pos := p_pos st + n\<rparr>)"
  by (simp add: p_take_Parsed)

lemma p_bind_eval: "p buf st = Parsed x st' \<Longrightarrow> p_bind p f buf st = f x buf st'"
  by (simp add: p_bind_def)

text \<open>The part of a parse that reads a string of known length.\<close>

definition string_read :: "Parse_State \<Rightarrow> nat \<Rightarrow> Parse_State" where
  "string_read st n = (let b = p_budget st; c = n + BUFFER_OVERHEAD in
     st\<lparr>p_pos := p_pos st + n, p_charge := p_charge st + c,
      p_budget := b\<lparr>used := used b + c, peak := max (peak b) (used b + c)\<rparr>\<rparr>)"

lemma string_Parsed:
  "p_bind (p_take n) (\<lambda>bs. p_bind (charge_string (length bs)) (\<lambda>_. p_bind (p_try (utf8 bs)) (f bs))) buf st
     = Parsed y st' \<longleftrightarrow>
   fits buf (p_pos st) n \<and> room st (n + BUFFER_OVERHEAD) \<and> utf8_valid (slice buf (p_pos st) n)
   \<and> f (slice buf (p_pos st) n) (slice buf (p_pos st) n) buf (string_read st n) = Parsed y st'"
proof -
  have "length (slice buf (p_pos st) n) = n" if "fits buf (p_pos st) n" using that by (simp add: fits_def)
  then show ?thesis
    by (auto simp: p_take_Parsed charge_string_def p_grow_Parsed string_read_def Let_def room_def)
qed

lemma string_read_simps [simp]:
  "p_pos (string_read st n) = p_pos st + n" "p_charge (string_read st n) = p_charge st + (n + BUFFER_OVERHEAD)"
  "used (p_budget (string_read st n)) = used (p_budget st) + (n + BUFFER_OVERHEAD)"
  "limit (p_budget (string_read st n)) = limit (p_budget st)"
  by (simp_all add: string_read_def Let_def)

lemma head_Parsed:
  "p_bind (p_take 4) (\<lambda>head. p_bind (p_try (read_u16 head 0)) (\<lambda>nl.
     p_bind (p_try (read_u16 head 2)) (\<lambda>el. f nl el))) buf st = Parsed y st' \<longleftrightarrow>
   fits buf (p_pos st) 4 \<and>
   f (le_nat (slice buf (p_pos st) 2)) (le_nat (slice buf (p_pos st + 2) 2)) buf (st\<lparr>p_pos := p_pos st + 4\<rparr>)
     = Parsed y st'"
  by (auto simp: p_take_Parsed read_Ok_iff slice_slice fits_def usize_max_def)

lemma tail_Parsed:
  "p_bind (p_take 10) (\<lambda>tail.
     p_bind (p_try (and_then (read_u8 tail 0) is_unique_of)) (\<lambda>unique.
     p_bind (p_try (and_then (read_u8 tail 1) value_kind_from_u8)) (\<lambda>kind.
     p_bind (p_try (and_then (read_i64 tail 2) ordinal_from_i64)) (\<lambda>root_page.
     p_bind p_pos_now (\<lambda>pos.
     p_return \<lparr>index_name = name, is_unique = unique, key_encoding_id = encoding_id,
               value_kind = kind, root = root_page, root_field_offset = pos - 8\<rparr>))))) buf st = Parsed d st' \<longleftrightarrow>
   fits buf (p_pos st) 10 \<and> buf ! p_pos st = of_bool (is_unique d)
   \<and> buf ! (p_pos st + 1) = value_kind_to_u8 (value_kind d)
   \<and> ordinal_from_i64 (to_signed 64 (le_nat (slice buf (p_pos st + 2) 8))) = Ok (root d)
   \<and> root_field_offset d = p_pos st + 2 \<and> index_name d = name \<and> key_encoding_id d = encoding_id
   \<and> st' = st\<lparr>p_pos := p_pos st + 10\<rparr>"
  by (cases d) (auto simp: p_take_Parsed read_Ok_iff slice_slice fits_def usize_max_def nth_slice)

lemma read_index_descriptor_steps:
  "read_index_descriptor buf st = Parsed d st' \<longleftrightarrow>
    (let pos = p_pos st; nl = le_nat (slice buf pos 2); el = le_nat (slice buf (pos + 2) 2);
         q = pos + 4 + nl + el in
     fits buf pos 4 \<and> fits buf (pos + 4) nl \<and> room st (nl + BUFFER_OVERHEAD)
     \<and> fits buf (pos + 4 + nl) el \<and> room (string_read (st\<lparr>p_pos := pos + 4\<rparr>) nl) (el + BUFFER_OVERHEAD)
     \<and> fits buf q 10 \<and> utf8_valid (index_name d) \<and> utf8_valid (key_encoding_id d)
     \<and> index_name d = slice buf (pos + 4) nl \<and> key_encoding_id d = slice buf (pos + 4 + nl) el
     \<and> buf ! q = of_bool (is_unique d) \<and> buf ! (q + 1) = value_kind_to_u8 (value_kind d)
     \<and> ordinal_from_i64 (to_signed 64 (le_nat (slice buf (q + 2) 8))) = Ok (root d)
     \<and> root_field_offset d = q + 2
     \<and> st' = string_read (string_read (st\<lparr>p_pos := pos + 4\<rparr>) nl) el \<lparr>p_pos := q + 10\<rparr>)"
  unfolding read_index_descriptor_def head_Parsed string_Parsed tail_Parsed string_read_simps Let_def
  by (auto simp: room_def)

lemma codecI:
  assumes "\<And>buf st x st'. sane buf st \<Longrightarrow> p buf st = Parsed x st' \<Longrightarrow> ok (p_pos st) x
      \<and> has_at buf (p_pos st) (enc x) \<and> room st (cost x) \<and> moved st (length (enc x)) (cost x) st'"
    and "\<And>buf st x. sane buf st \<Longrightarrow> ok (p_pos st) x \<Longrightarrow> has_at buf (p_pos st) (enc x) \<Longrightarrow> room st (cost x) \<Longrightarrow>
      \<exists>st'. p buf st = Parsed x st'"
  shows "codec p enc cost ok"
  unfolding codec_def by (intro allI conjI iffI impI) (use assms in blast)+

lemma codecD:
  assumes "codec p enc cost ok" "sane buf st" "p buf st = Parsed x st'"
  shows "ok (p_pos st) x" "has_at buf (p_pos st) (enc x)" "room st (cost x)"
    "moved st (length (enc x)) (cost x) st'"
  using assms unfolding codec_def by blast+

lemma codecE:
  assumes "codec p enc cost ok" "sane buf st" "ok (p_pos st) x" "has_at buf (p_pos st) (enc x)" "room st (cost x)"
  obtains st' where "p buf st = Parsed x st'" "moved st (length (enc x)) (cost x) st'"
  using assms unfolding codec_def by blast

lemma read_index_descriptor_codec: "codec read_index_descriptor descriptor_bytes descriptor_cost descriptor_ok"
proof (rule codecI)
  fix buf st d st'
  assume "read_index_descriptor buf st = Parsed d st'"
  note p = this [unfolded read_index_descriptor_steps Let_def]
  let ?nl = "le_nat (slice buf (p_pos st) 2)" and ?el = "le_nat (slice buf (p_pos st + 2) 2)"
  have len: "length (index_name d) = ?nl" "length (key_encoding_id d) = ?el"
    using p by (simp_all add: fits_def)
  have less: "?nl < 65536" "?el < 65536"
    using p le_nat_less [of "slice buf (p_pos st) 2"] le_nat_less [of "slice buf (p_pos st + 2) 2"]
    by (simp_all add: fits_def)
  have "length (slice buf (p_pos st + 4 + ?nl + ?el + 2) 8) = 8" using p by (simp add: fits_def)
  from root_Ok_iff [OF this] p
  have root: "case root d of None \<Rightarrow> True | Some n \<Rightarrow> n < 2 ^ 63"
    "slice buf (p_pos st + 4 + ?nl + ?el + 2) 8 = i64_to_le (ordinal_to_i64 (root d))" by blast+
  have "has_at buf (p_pos st) (descriptor_bytes d)"
    using p less len root unfolding at_descriptor_bytes [of d, unfolded len, OF less] Let_def
    by (simp add: fits_def)
  moreover have "utf8_valid (index_name d)" "utf8_valid (key_encoding_id d)"
    "root_field_offset d = p_pos st + 4 + ?nl + ?el + 2" using p by blast+
  then have "descriptor_ok (p_pos st) d"
    using less len root(1) by (simp add: descriptor_ok_def length_descriptor_bytes)
  moreover have "room st (descriptor_cost d)" "moved st (length (descriptor_bytes d)) (descriptor_cost d) st'"
    using p len by (simp_all add: room_def descriptor_cost_def moved_def length_descriptor_bytes)
  ultimately show "descriptor_ok (p_pos st) d \<and> has_at buf (p_pos st) (descriptor_bytes d) \<and>
      room st (descriptor_cost d) \<and> moved st (length (descriptor_bytes d)) (descriptor_cost d) st'" by blast
next
  fix buf st d
  assume ok: "descriptor_ok (p_pos st) d" and bytes: "has_at buf (p_pos st) (descriptor_bytes d)"
    and room: "room st (descriptor_cost d)"
  have less: "length (index_name d) < 65536" "length (key_encoding_id d) < 65536"
    using ok by (simp_all add: descriptor_ok_def)
  note f = bytes [unfolded at_descriptor_bytes [OF less] Let_def]
  let ?nl = "le_nat (slice buf (p_pos st) 2)" and ?el = "le_nat (slice buf (p_pos st + 2) 2)"
  have "length (slice buf (p_pos st + 4 + ?nl + ?el + 2) 8) = 8" using f by (simp add: fits_def)
  from root_Ok_iff [OF this, of "root d"] f ok
  have "ordinal_from_i64 (to_signed 64 (le_nat (slice buf (p_pos st + 4 + ?nl + ?el + 2) 8))) = Ok (root d)"
    unfolding descriptor_ok_def by blast
  then show "\<exists>st'. read_index_descriptor buf st = Parsed d st'"
    using ok f room unfolding read_index_descriptor_steps Let_def
    by (auto simp: descriptor_ok_def length_descriptor_bytes fits_def room_def descriptor_cost_def)
qed

subsubsection \<open>Composing codecs\<close>

lemma room_moved: "moved st n c st' \<Longrightarrow> room st' c' \<longleftrightarrow> room st (c + c')"
  by (simp add: room_def moved_def add.assoc)

lemma moved_trans: "moved st n c st1 \<Longrightarrow> moved st1 m d st2 \<Longrightarrow> moved st (n + m) (c + d) st2"
  by (simp add: moved_def)

lemma room_mono: "room st (c + c') \<Longrightarrow> room st c"
  by (simp add: room_def)

text \<open>In a composition the first value is determined by the result.\<close>

lemma sane_moved: "has_at buf (p_pos st) bs \<Longrightarrow> room st c \<Longrightarrow> moved st (length bs) c st' \<Longrightarrow> sane buf st'"
  by (simp add: sane_def has_at_def fits_def room_moved) (simp add: moved_def)

lemma codec_bind:
  assumes p: "codec p e1 c1 ok1" and f: "\<And>x. codec (f x) (e2 x) (c2 x) (ok2 x)"
    and part: "\<And>x pos pos' y. ok1 pos x \<Longrightarrow> ok2 x pos' y \<Longrightarrow> part y = x"
  shows "codec (p_bind p f) (\<lambda>y. e1 (part y) @ e2 (part y) y) (\<lambda>y. c1 (part y) + c2 (part y) y)
    (\<lambda>pos y. ok1 pos (part y) \<and> ok2 (part y) (pos + length (e1 (part y))) y)"
proof (rule codecI)
  fix buf st y st''
  assume st: "sane buf st" and "p_bind p f buf st = Parsed y st''"
  then obtain x st' where x: "p buf st = Parsed x st'" and y: "f x buf st' = Parsed y st''" by auto
  note p' = codecD [OF p st x]
  note f' = codecD [OF f sane_moved [OF p'(2-4)] y]
  have [simp]: "part y = x" by (rule part [OF p'(1) f'(1)])
  have "p_pos st' = p_pos st + length (e1 x)" using p'(4) by (simp add: moved_def)
  then show "(ok1 (p_pos st) (part y) \<and> ok2 (part y) (p_pos st + length (e1 (part y))) y) \<and>
      has_at buf (p_pos st) (e1 (part y) @ e2 (part y) y) \<and> room st (c1 (part y) + c2 (part y) y) \<and>
      moved st (length (e1 (part y) @ e2 (part y) y)) (c1 (part y) + c2 (part y) y) st''"
    using p'(1-3) f'(1-3) moved_trans [OF p'(4) f'(4)] by (simp add: at_append room_moved [OF p'(4)])
next
  fix buf st y
  assume st: "sane buf st" and ok: "ok1 (p_pos st) (part y) \<and> ok2 (part y) (p_pos st + length (e1 (part y))) y"
    and bs: "has_at buf (p_pos st) (e1 (part y) @ e2 (part y) y)" and rm: "room st (c1 (part y) + c2 (part y) y)"
  obtain st' where st': "p buf st = Parsed (part y) st'" "moved st (length (e1 (part y))) (c1 (part y)) st'"
    using codecE [OF p st, of "part y"] ok bs room_mono [OF rm] by (auto simp: at_append)
  note sane = sane_moved [OF _ room_mono [OF rm] st'(2)]
  obtain st'' where "f (part y) buf st' = Parsed y st''"
    using codecE [OF f sane, of buf "part y" y] ok bs rm room_moved [OF st'(2)] st'(2)
    by (auto simp: at_append moved_def)
  with st' show "\<exists>st'. p_bind p f buf st = Parsed y st'" by auto
qed

lemma codec_cong:
  assumes "codec p e c ok" "\<And>pos x. ok' pos x \<longleftrightarrow> ok pos x" "\<And>pos x. ok pos x \<Longrightarrow> e' x = e x"
    "\<And>pos x. ok pos x \<Longrightarrow> c' x = c x"
  shows "codec p e' c' ok'"
proof (rule codecI)
  show "ok' (p_pos st) x \<and> has_at buf (p_pos st) (e' x) \<and> room st (c' x) \<and> moved st (length (e' x)) (c' x) st'"
    if "sane buf st" "p buf st = Parsed x st'" for buf st x st'
    using codecD [OF assms(1) that] assms(2-4) by auto
  show "\<exists>st'. p buf st = Parsed x st'"
    if "sane buf st" "ok' (p_pos st) x" "has_at buf (p_pos st) (e' x)" "room st (c' x)" for buf st x
    using codecE [OF assms(1) that(1), of x] that assms(2-4) by metis
qed

lemma codec_return: "codec (p_return x) (\<lambda>_. []) (\<lambda>_. 0) (\<lambda>pos y. y = x)"
  by (rule codecI) (auto simp: sane_def has_at_def slice_def moved_def)

lemma codec_try: "codec (p_try r) (\<lambda>_. []) (\<lambda>_. 0) (\<lambda>pos x. r = Ok x)"
  by (rule codecI) (auto simp: sane_def has_at_def slice_def moved_def)

lemma codec_pos: "codec p_pos_now (\<lambda>_. []) (\<lambda>_. 0) (\<lambda>pos x. x = pos)"
  by (rule codecI) (auto simp: sane_def has_at_def slice_def moved_def)

lemma codec_take: "codec (p_take n) (\<lambda>bs. bs) (\<lambda>_. 0) (\<lambda>pos bs. length bs = n)"
  by (rule codecI) (auto simp: p_take_Parsed sane_def has_at_def fits_def moved_def)

lemma codec_grow: "codec (p_grow n) (\<lambda>_. []) (\<lambda>_. n) (\<lambda>pos x. True)"
  by (rule codecI) (auto simp: p_grow_Parsed sane_def has_at_def slice_def moved_def)

primrec list_ok :: "(nat \<Rightarrow> 'a \<Rightarrow> bool) \<Rightarrow> ('a \<Rightarrow> bytes) \<Rightarrow> nat \<Rightarrow> 'a list \<Rightarrow> bool" where
  "list_ok ok enc pos [] \<longleftrightarrow> True"
| "list_ok ok enc pos (x # xs) \<longleftrightarrow> ok pos x \<and> list_ok ok enc (pos + length (enc x)) xs"

lemma codec_times:
  assumes p: "codec p enc cost ok"
  shows "codec (p_times n p) (\<lambda>xs. concat (map enc xs)) (\<lambda>xs. sum_list (map cost xs))
    (\<lambda>pos xs. length xs = n \<and> list_ok ok enc pos xs)"
proof (induction n)
  case 0
  show ?case unfolding p_times.simps by (rule codec_cong [OF codec_return]) auto
next
  case (Suc n)
  have rest: "codec (p_bind (p_times n p) (\<lambda>xs. p_return (x # xs)))
      (\<lambda>xs. concat (map enc (tl xs))) (\<lambda>xs. sum_list (map cost (tl xs)))
      (\<lambda>pos xs. \<exists>ys. xs = x # ys \<and> length ys = n \<and> list_ok ok enc pos ys)" for x
    by (rule codec_cong [OF codec_bind [OF Suc codec_return, where part = tl]]) auto
  show ?case unfolding p_times.simps
  proof (rule codec_cong [OF codec_bind [OF p rest, where part = hd]], goal_cases)
    case (2 pos xs)
    then show ?case by (cases xs) auto
  next
    case (3 pos xs)
    then show ?case by (cases xs) auto
  next
    case (4 pos xs)
    then show ?case by (cases xs) auto
  qed auto
qed

lemma p_bind_assoc: "p_bind (p_bind p f) g = p_bind p (\<lambda>x. p_bind (f x) g)"
  by (rule ext)+ (simp add: p_bind_def split: parsed.splits)

lemma codec_after_grow: "codec p enc cost ok \<Longrightarrow> codec (p_bind (p_grow n) (\<lambda>_. p)) enc (\<lambda>x. n + cost x) ok"
  by (rule codec_cong [OF codec_bind [OF codec_grow, where part = "\<lambda>_. ()"]]) auto

text \<open>A string of known length, then its slot.\<close>

definition read_string :: "nat \<Rightarrow> nat \<Rightarrow> rstring parser" where
  "read_string n k = p_bind (p_take n) (\<lambda>bs. p_bind (charge_string (length bs)) (\<lambda>_.
     p_bind (p_grow k) (\<lambda>_. p_try (utf8 bs))))"

lemma codec_read_string:
  "codec (read_string n k) (\<lambda>s. s) (\<lambda>s. length s + BUFFER_OVERHEAD + k) (\<lambda>pos s. length s = n \<and> utf8_valid s)"
proof -
  have "codec (p_bind (charge_string (length bs)) (\<lambda>_. p_bind (p_grow k) (\<lambda>_. p_try (utf8 bs))))
      (\<lambda>_. []) (\<lambda>s. length s + BUFFER_OVERHEAD + k) (\<lambda>pos s. s = bs \<and> utf8_valid s)" for bs
    unfolding charge_string_def
    by (rule codec_cong [OF codec_after_grow [OF codec_after_grow [OF codec_try]]]) auto
  then show ?thesis unfolding read_string_def
    by (rule codec_cong [OF codec_bind [OF codec_take, where part = "\<lambda>s. s"]]) auto
qed

subsubsection \<open>Filters, tables and the catalog\<close>

definition filter_bytes :: "rstring \<Rightarrow> bytes" where
  "filter_bytes s = word_of_nat (length s) # s"

definition filter_cost :: "Layout \<Rightarrow> rstring \<Rightarrow> nat" where
  "filter_cost lay s = length s + BUFFER_OVERHEAD + slot_cost (size_of_String lay)"

definition filter_ok :: "nat \<Rightarrow> rstring \<Rightarrow> bool" where
  "filter_ok pos s \<longleftrightarrow> length s < 256 \<and> utf8_valid s"

lemma read_filter_codec: "codec (read_filter lay) filter_bytes (filter_cost lay) filter_ok"
proof -
  have def: "read_filter lay = p_bind (p_take 1) (\<lambda>b. read_string (unat (b ! 0)) (slot_cost (size_of_String lay)))"
    by (simp add: read_filter_def read_string_def)
  have len: "unat (bs ! 0) = n \<longleftrightarrow> n < 256 \<and> bs = [word_of_nat n]" if "length bs = 1" for bs :: bytes and n
    using that unat_byte_less [of "bs ! 0"] by (auto simp: length_Suc_conv)
  show ?thesis unfolding def
    by (rule codec_cong [OF codec_bind [OF codec_take codec_read_string, where part = "\<lambda>s. [word_of_nat (length s)]"]])
      (auto simp: filter_ok_def filter_bytes_def filter_cost_def len length_Suc_conv)
qed

definition table_bytes :: "TableDescriptor \<Rightarrow> bytes" where
  "table_bytes t = i32_to_le (int (length (table_name t))) @ table_name t @ descriptor_bytes (primary t)
     @ u16_to_le (length (secondaries t)) @ concat (map descriptor_bytes (secondaries t))"

definition table_cost :: "Layout \<Rightarrow> TableDescriptor \<Rightarrow> nat" where
  "table_cost lay t = length (table_name t) + BUFFER_OVERHEAD + slot_cost (size_of_TableDescriptor lay)
     + descriptor_cost (primary t)
     + sum_list (map (\<lambda>d. slot_cost (size_of_IndexDescriptor lay) + descriptor_cost d) (secondaries t))"

definition table_ok :: "nat \<Rightarrow> TableDescriptor \<Rightarrow> bool" where
  "table_ok pos t \<longleftrightarrow> length (table_name t) < 2 ^ 31 \<and> utf8_valid (table_name t)
     \<and> descriptor_ok (pos + 4 + length (table_name t)) (primary t)
     \<and> length (secondaries t) < 65536
     \<and> list_ok descriptor_ok descriptor_bytes
         (pos + 4 + length (table_name t) + length (descriptor_bytes (primary t)) + 2) (secondaries t)
     \<and> distinct (map index_name (secondaries t))"

lemma repeats_iff [simp]: "repeats xs \<longleftrightarrow> \<not> distinct xs"
proof -
  have "distinct xs \<longleftrightarrow> (\<forall>a < length xs. xs ! a \<notin> set (take a xs))"
  proof (induction xs rule: rev_induct)
    case (snoc x xs)
    then show ?case by (auto simp: less_Suc_eq nth_append)
  qed simp
  then show ?thesis by (simp add: repeats_def)
qed

text \<open>The two lengths in front of a table's name and of its secondary indexes.\<close>

lemma i32_len_iff:
  assumes "length bs = 4"
  shows "and_then (read_i32 bs 0) checked_len = Ok n \<longleftrightarrow> n < 2 ^ 31 \<and> bs = i32_to_le (int n)"
proof -
  have less: "le_nat bs < 2 ^ 32" using le_nat_less [of bs] assms by simp
  have "and_then (read_i32 bs 0) checked_len = Ok n \<longleftrightarrow> to_signed 32 (le_nat bs) = int n"
    using assms by (auto simp: read_Ok_iff fits_def usize_max_def slice_all)
  also have "\<dots> \<longleftrightarrow> n < 2 ^ 31 \<and> le_nat bs = n"
    using less to_signed_range(2) [OF less] by (auto simp: to_signed_def split: if_splits)
  also have "\<dots> \<longleftrightarrow> n < 2 ^ 31 \<and> bs = i32_to_le (int n)"
    using le_bytes_le_nat [OF assms] by (auto simp: i32_to_le_def of_signed_nonneg le_nat_le_bytes)
  finally show ?thesis .
qed

lemma u16_len_iff:
  assumes "length bs = 2" shows "read_u16 bs 0 = Ok n \<longleftrightarrow> n < 65536 \<and> bs = u16_to_le n"
  using assms le_nat_less [of bs] le_bytes_le_nat [OF assms]
  by (auto simp: read_Ok_iff fits_def usize_max_def slice_all u16_to_le_def le_nat_le_bytes)

lemma codec_table_name:
  "codec (p_bind (p_take 4) (\<lambda>b. p_bind (p_try (and_then (read_i32 b 0) checked_len)) (\<lambda>n. read_string n k)))
     (\<lambda>s. i32_to_le (int (length s)) @ s) (\<lambda>s. length s + BUFFER_OVERHEAD + k)
     (\<lambda>pos s. length s < 2 ^ 31 \<and> utf8_valid s)"
proof -
  have rest: "codec (p_bind (p_try (and_then (read_i32 b 0) checked_len)) (\<lambda>n. read_string n k))
      (\<lambda>s. s) (\<lambda>s. length s + BUFFER_OVERHEAD + k)
      (\<lambda>pos s. and_then (read_i32 b 0) checked_len = Ok (length s) \<and> utf8_valid s)" for b
    by (rule codec_cong [OF codec_bind [OF codec_try codec_read_string, where part = length]]) auto
  show ?thesis
    by (rule codec_cong [OF codec_bind [OF codec_take rest, where part = "\<lambda>s. i32_to_le (int (length s))"]])
      (auto simp: i32_len_iff simp del: and_then_Ok_iff)
qed

lemma codec_counted:
  assumes "codec p enc cost ok"
  shows "codec (p_bind (p_take 2) (\<lambda>b. p_bind (p_try (read_u16 b 0)) (\<lambda>n. p_times n p)))
     (\<lambda>xs. u16_to_le (length xs) @ concat (map enc xs)) (\<lambda>xs. sum_list (map cost xs))
     (\<lambda>pos xs. length xs < 65536 \<and> list_ok ok enc (pos + 2) xs)"
proof -
  have rest: "codec (p_bind (p_try (read_u16 b 0)) (\<lambda>n. p_times n p))
      (\<lambda>xs. concat (map enc xs)) (\<lambda>xs. sum_list (map cost xs))
      (\<lambda>pos xs. read_u16 b 0 = Ok (length xs) \<and> list_ok ok enc pos xs)" for b
    by (rule codec_cong [OF codec_bind [OF codec_try codec_times [OF assms], where part = length]]) auto
  show ?thesis
    by (rule codec_cong [OF codec_bind [OF codec_take rest, where part = "\<lambda>xs. u16_to_le (length xs)"]])
      (auto simp: u16_len_iff)
qed

lemma codec_return_checked:
  "codec (p_bind (p_try (if c then Err e else Ok ())) (\<lambda>_. p_return x)) (\<lambda>_. []) (\<lambda>_. 0) (\<lambda>pos y. y = x \<and> \<not> c)"
  by (rule codec_cong [OF codec_bind [OF codec_try codec_return, where part = "\<lambda>_. ()"]]) auto

lemma read_table_codec: "codec (read_table lay) table_bytes (table_cost lay) table_ok"
proof -
  let ?name = "p_bind (p_take 4) (\<lambda>b. p_bind (p_try (and_then (read_i32 b 0) checked_len))
      (\<lambda>n. read_string n (slot_cost (size_of_TableDescriptor lay))))"
  let ?index = "p_bind (p_grow (slot_cost (size_of_IndexDescriptor lay))) (\<lambda>_. read_index_descriptor)"
  let ?secs = "p_bind (p_take 2) (\<lambda>b. p_bind (p_try (read_u16 b 0)) (\<lambda>n. p_times n ?index))"
  have def: "read_table lay = p_bind ?name (\<lambda>name. p_bind read_index_descriptor (\<lambda>prim. p_bind ?secs (\<lambda>secs.
      p_bind (p_try (if repeats (map index_name secs) then Err corrupt else Ok ())) (\<lambda>_.
      p_return \<lparr>table_name = name, primary = prim, secondaries = secs\<rparr>))))"
    by (simp add: read_table_def read_string_def p_bind_assoc)
  note secs = codec_counted [OF codec_after_grow [OF read_index_descriptor_codec]]
  note s1 = codec_bind [OF secs codec_return_checked, where part = secondaries]
  note s2 = codec_bind [OF read_index_descriptor_codec s1, where part = primary]
  note s3 = codec_bind [OF codec_table_name s2, where part = table_name]
  show ?thesis unfolding def
    by (rule codec_cong [OF s3]) (auto simp: table_ok_def table_bytes_def table_cost_def add.assoc,
        (metis TableDescriptor.select_convs)+)
qed

definition catalog_bytes :: "Catalog \<Rightarrow> bytes" where
  "catalog_bytes c = concat (map filter_bytes (filters c)) @ concat (map table_bytes (tables c))"

definition catalog_cost :: "Layout \<Rightarrow> Catalog \<Rightarrow> nat" where
  "catalog_cost lay c = sum_list (map (filter_cost lay) (filters c)) + sum_list (map (table_cost lay) (tables c))
     + (size_of_Catalog lay + BUFFER_OVERHEAD)"

definition catalog_ok :: "nat \<Rightarrow> Catalog \<Rightarrow> bool" where
  "catalog_ok pos c \<longleftrightarrow> list_ok filter_ok filter_bytes pos (filters c)
     \<and> list_ok table_ok table_bytes (pos + length (concat (map filter_bytes (filters c)))) (tables c)
     \<and> distinct (map table_name (tables c)) \<and> descriptor_end c = pos + length (catalog_bytes c)"

lemma catalog_eq_iff:
  "c = \<lparr>cat_page_size = ps, cat_page_count = npages, cat_directory_position = dp, filters = fs,
     tables = ts, descriptor_end = n\<rparr> \<longleftrightarrow> cat_page_size c = ps \<and> cat_page_count c = npages
     \<and> cat_directory_position c = dp \<and> filters c = fs \<and> tables c = ts \<and> descriptor_end c = n"
  by (cases c) auto

lemma catalog_parser_codec:
  "codec (catalog_parser lay fc tc ps npages dp) catalog_bytes (catalog_cost lay)
     (\<lambda>pos c. catalog_ok pos c \<and> length (filters c) = fc \<and> length (tables c) = tc
        \<and> cat_page_size c = ps \<and> cat_page_count c = npages \<and> cat_directory_position c = dp)"
proof -
  let ?c = "\<lambda>fs ts pos. \<lparr>cat_page_size = ps, cat_page_count = npages, cat_directory_position = dp,
      filters = fs, tables = ts, descriptor_end = pos\<rparr>"
  have end_: "codec (p_bind p_pos_now (\<lambda>pos. p_return (?c fs ts pos))) (\<lambda>_. []) (\<lambda>_. 0)
      (\<lambda>pos y. y = ?c fs ts pos)" for fs ts
    by (rule codec_cong [OF codec_bind [OF codec_pos codec_return, where part = descriptor_end]]) auto
  have check: "codec (p_bind (p_try (if repeats (map table_name ts) then Err corrupt else Ok ())) (\<lambda>_.
      p_bind (p_grow (size_of_Catalog lay + BUFFER_OVERHEAD)) (\<lambda>_.
      p_bind p_pos_now (\<lambda>pos. p_return (?c fs ts pos)))))
      (\<lambda>_. []) (\<lambda>_. size_of_Catalog lay + BUFFER_OVERHEAD)
      (\<lambda>pos y. distinct (map table_name ts) \<and> cat_page_size y = ps \<and> cat_page_count y = npages
        \<and> cat_directory_position y = dp \<and> filters y = fs \<and> tables y = ts \<and> descriptor_end y = pos)" for fs ts
    by (rule codec_cong [OF codec_bind [OF codec_try codec_after_grow [OF end_], where part = "\<lambda>_. ()"]])
      (auto simp: catalog_eq_iff)
  note s1 = codec_bind [OF codec_times [OF read_table_codec] check, where part = tables]
  note s2 = codec_bind [OF codec_times [OF read_filter_codec] s1, where part = filters]
  show ?thesis unfolding catalog_parser_def
    by (rule codec_cong [OF s2]) (auto simp: catalog_ok_def catalog_bytes_def catalog_cost_def add.assoc)
qed

lemma catalog_parse_NeedMore:
  "catalog_parse lay buf fc tc ps npages dp c b = Ok (NeedMore n, c', b') \<Longrightarrow> length buf < n"
  using stableD(2) [OF stable_catalog_parser] by (auto simp: catalog_parse_def split: parsed.splits)

subsection \<open>Reading header and descriptors from a source\<close>

text \<open>\<open>None\<close> is a read that never returns.  The last component counts the calls made.\<close>

definition read_header :: "source \<Rightarrow> nat \<Rightarrow> (Header result \<times> nat) option" where
  "read_header src t =
     (case read_up_to_at src HEADER_LEN 0 t of
        None \<Rightarrow> None
      | Some (r, t') \<Rightarrow>
          Some (and_then r (\<lambda>bs.
            if length bs < HEADER_LEN then Err (error_new UnsupportedFormat)
            else header_parse bs), t'))"

text \<open>
  One turn of the loop of \<open>read_catalog\<close> ends it, or asks for a larger buffer, after which the
  loop looks at how much was needed and how much was read.  Every reservation made in a turn
  is released at its end, but for the catalog's own.
\<close>

datatype catalog_turn = Done "(charge \<times> Catalog \<times> Budget) result" | Again nat nat Budget

definition parse_turn ::
  "Layout \<Rightarrow> Header \<Rightarrow> charge \<Rightarrow> charge \<Rightarrow> Budget \<Rightarrow> bytes result \<Rightarrow> catalog_turn" where
  "parse_turn lay h buffer_charge catalog_charge b r =
     (case and_then r (\<lambda>buf.
        if length buf < HEADER_LEN then Err (error_new UnsupportedFormat)
        else and_then (catalog_parse lay buf (page_filter_count h) (table_count h) (page_size h)
               (page_count h) (page_directory_position h) catalog_charge b) (\<lambda>p. Ok (length buf, p))) of
        Inl e \<Rightarrow> Done (Err e)
      | Inr (filled, Complete cat, c, b') \<Rightarrow> Done (Ok (c, cat, charge_drop buffer_charge b'))
      | Inr (filled, NeedMore needed, c, b') \<Rightarrow>
          Again needed filled (charge_drop buffer_charge (charge_drop c b')))"

definition read_catalog_turn ::
  "Layout \<Rightarrow> source \<Rightarrow> Header \<Rightarrow> nat \<Rightarrow> Budget \<Rightarrow> nat \<Rightarrow> (catalog_turn \<times> nat) option" where
  "read_catalog_turn lay src h capacity b t =
     (case and_then (try_reserve b (capacity + BUFFER_OVERHEAD)) (\<lambda>(buffer_charge, b1).
           and_then (try_reserve b1 0) (\<lambda>(catalog_charge, b2). Ok (buffer_charge, catalog_charge, b2))) of
        Inl e \<Rightarrow> Some (Done (Err e), t)
      | Inr (buffer_charge, catalog_charge, b2) \<Rightarrow>
          (case read_up_to_at src capacity 0 t of
             None \<Rightarrow> None
           | Some (r, t') \<Rightarrow> Some (parse_turn lay h buffer_charge catalog_charge b2 r, t')))"

lemma parse_turn_Again:
  "parse_turn lay h bc cc b r = Again needed filled b' \<Longrightarrow> filled < needed"
  by (auto simp: parse_turn_def and_then_Err_iff dest!: catalog_parse_NeedMore
      split: sum.splits prod.splits CatalogParse.splits if_splits)

lemma read_catalog_turn_Again:
  "read_catalog_turn lay src h capacity b t = Some (Again needed filled b', t') \<Longrightarrow> filled < needed"
  by (auto simp: read_catalog_turn_def dest: parse_turn_Again
      split: sum.splits prod.splits option.splits)

function read_catalog_loop ::
  "Layout \<Rightarrow> source \<Rightarrow> Header \<Rightarrow> nat \<Rightarrow> nat \<Rightarrow> Budget \<Rightarrow> nat \<Rightarrow>
   ((charge \<times> Catalog \<times> Budget) result \<times> nat) option" where
  "read_catalog_loop lay src h max_bytes capacity b t =
     (case read_catalog_turn lay src h capacity b t of
        None \<Rightarrow> None
      | Some (Done r, t') \<Rightarrow> Some (r, t')
      | Some (Again needed filled b', t') \<Rightarrow>
          if filled < capacity then Some (Err corrupt, t')
          else if capacity \<ge> max_bytes then Some (Err corrupt, t')
          else read_catalog_loop lay src h max_bytes (min (max needed (capacity * 2)) max_bytes) b' t')"
  by pat_completeness auto
termination
  by (relation "measure (\<lambda>(lay, src, h, max_bytes, capacity, b, t). max_bytes - capacity)")
    (auto dest: read_catalog_turn_Again)

declare read_catalog_loop.simps [simp del]

definition read_catalog ::
  "Layout \<Rightarrow> source \<Rightarrow> Header \<Rightarrow> nat \<Rightarrow> Budget \<Rightarrow> nat \<Rightarrow>
   ((charge \<times> Catalog \<times> Budget) result \<times> nat) option" where
  "read_catalog lay src h max_bytes b t =
     read_catalog_loop lay src h max_bytes (max (min (8 * 1024) max_bytes) HEADER_LEN) b t"

subsection \<open>Properties of the parse\<close>

abbreviation start_state :: "charge \<Rightarrow> Budget \<Rightarrow> Parse_State" where
  "start_state c b \<equiv> \<lparr>p_pos = HEADER_LEN, p_charge = c, p_budget = b\<rparr>"

text \<open>The catalogs a header with these fields can describe.\<close>

definition describes :: "nat \<Rightarrow> nat \<Rightarrow> nat \<Rightarrow> nat \<Rightarrow> nat \<Rightarrow> Catalog \<Rightarrow> bool" where
  "describes fc tc ps npages dp c \<longleftrightarrow> catalog_ok HEADER_LEN c \<and> length (filters c) = fc
     \<and> length (tables c) = tc \<and> cat_page_size c = ps \<and> cat_page_count c = npages
     \<and> cat_directory_position c = dp"

lemma sane_start:
  "accounts b h \<Longrightarrow> HEADER_LEN \<le> length buf \<Longrightarrow> sane buf (start_state c b)"
  by (auto simp: sane_def fits_def room_def accounts_def HEADER_LEN_def usize_max_def)

lemma catalog_parse_sound:
  assumes "accounts b (h + c)" "HEADER_LEN \<le> length buf"
    and "catalog_parse lay buf fc tc ps npages dp c b = Ok (Complete cat, c', b')"
  shows "describes fc tc ps npages dp cat \<and> has_at buf HEADER_LEN (catalog_bytes cat)
    \<and> c' = c + catalog_cost lay cat \<and> accounts b' (h + c') \<and> limit b' = limit b"
proof -
  obtain st where st: "catalog_parser lay fc tc ps npages dp buf (start_state c b) = Parsed cat st"
    "c' = p_charge st" "b' = p_budget st"
    using assms(3) by (auto simp: catalog_parse_def split: parsed.splits)
  have "parse_inv buf (limit b) h (start_state c b)"
    using assms by (simp add: parse_inv_def HEADER_LEN_def)
  from keepsD(2) [OF keeps_catalog_parser this st(1)] codecD [OF catalog_parser_codec sane_start [OF assms(1,2)] st(1)]
  show ?thesis using st(2,3) by (simp add: describes_def parse_inv_def moved_def)
qed

lemma catalog_parse_complete:
  assumes "accounts b (h + c)" "describes fc tc ps npages dp cat" "has_at buf HEADER_LEN (catalog_bytes cat)"
    and "h + c + catalog_cost lay cat \<le> limit b"
  shows "\<exists>c' b'. catalog_parse lay buf fc tc ps npages dp c b = Ok (Complete cat, c', b')"
proof -
  have "HEADER_LEN \<le> length buf" using assms(3) by (simp add: has_at_def fits_def)
  with sane_start [OF assms(1)] have sane: "sane buf (start_state c b)" .
  obtain st where "catalog_parser lay fc tc ps npages dp buf (start_state c b) = Parsed cat st"
    using codecE [OF catalog_parser_codec sane, of cat fc tc ps npages dp lay] assms
    by (auto simp: describes_def room_def accounts_def)
  then show ?thesis by (simp add: catalog_parse_def)
qed

lemma catalog_parse_stable:
  "catalog_parse lay buf fc tc ps npages dp c b = Ok (Complete cat, r) \<Longrightarrow>
   catalog_parse lay (buf @ ext) fc tc ps npages dp c b = Ok (Complete cat, r)"
  "catalog_parse lay buf fc tc ps npages dp c b = Err e \<Longrightarrow>
   catalog_parse lay (buf @ ext) fc tc ps npages dp c b = Err e"
  using stableD(1,3) [OF stable_catalog_parser, of lay fc tc ps npages dp buf "start_state c b"]
  by (auto simp: catalog_parse_def split: parsed.splits)

text \<open>C25: The parse of the descriptor section succeeds with a catalog exactly when the buffer
  holds the encoding of that catalog after the header, the catalog is well formed and agrees
  with the header, and the budget has room for all of it; the charge then has grown by what
  its strings and slots cost.\<close>

theorem catalog_parse_iff:
  assumes "accounts b (h + c)" "HEADER_LEN \<le> length buf"
  shows "(\<exists>b'. catalog_parse lay buf fc tc ps npages dp c b = Ok (Complete cat, c + catalog_cost lay cat, b'))
    \<longleftrightarrow> describes fc tc ps npages dp cat \<and> has_at buf HEADER_LEN (catalog_bytes cat)
        \<and> h + c + catalog_cost lay cat \<le> limit b"
proof
  assume "\<exists>b'. catalog_parse lay buf fc tc ps npages dp c b = Ok (Complete cat, c + catalog_cost lay cat, b')"
  then show "describes fc tc ps npages dp cat \<and> has_at buf HEADER_LEN (catalog_bytes cat)
        \<and> h + c + catalog_cost lay cat \<le> limit b"
    using catalog_parse_sound [OF assms] by (fastforce simp: accounts_def)
next
  assume "describes fc tc ps npages dp cat \<and> has_at buf HEADER_LEN (catalog_bytes cat)
        \<and> h + c + catalog_cost lay cat \<le> limit b"
  then show "\<exists>b'. catalog_parse lay buf fc tc ps npages dp c b = Ok (Complete cat, c + catalog_cost lay cat, b')"
    using catalog_parse_complete [OF assms(1)] catalog_parse_sound [OF assms] by blast
qed

definition example_index :: IndexDescriptor where
  "example_index = \<lparr>index_name = [112, 107], is_unique = True, key_encoding_id = [105, 54, 52],
     value_kind = RawData, root = Some 5, root_field_offset = 42\<rparr>"

definition example_catalog :: Catalog where
  "example_catalog = \<lparr>cat_page_size = 4096, cat_page_count = 6, cat_directory_position = 512, filters = [],
     tables = [\<lparr>table_name = [116], primary = example_index, secondaries = []\<rparr>], descriptor_end = 52\<rparr>"

definition example_layout :: Layout where
  "example_layout = \<lparr>size_of_String = 24, size_of_IndexDescriptor = 80, size_of_TableDescriptor = 128,
     size_of_Catalog = 80\<rparr>"

lemma example_catalog_described: "describes 0 1 4096 6 512 example_catalog"
  by (simp add: describes_def catalog_ok_def example_catalog_def example_index_def table_ok_def
      descriptor_ok_def length_descriptor_bytes catalog_bytes_def table_bytes_def HEADER_LEN_def)

definition example_file :: bytes where
  "example_file = replicate 26 0 @ catalog_bytes example_catalog"

lemma example_file_catalog: "has_at example_file HEADER_LEN (catalog_bytes example_catalog)"
  unfolding example_file_def
  by (rule at_here) (simp_all add: HEADER_LEN_def example_catalog_def example_index_def catalog_bytes_def
      table_bytes_def length_descriptor_bytes usize_max_def)

theorem catalog_parse_iff_witness:
  "\<exists>b'. catalog_parse example_layout example_file 0 1 4096 6 512 0 (budget_new 4000)
     = Ok (Complete example_catalog, 0 + catalog_cost example_layout example_catalog, b')"
  using catalog_parse_iff [of "budget_new 4000" 0 0 example_file example_layout 0 1 4096 6 512 example_catalog]
    example_catalog_described example_file_catalog
  by (simp add: accounts_def budget_new_def usize_max_def example_file_def HEADER_LEN_def catalog_cost_def
      table_cost_def descriptor_cost_def slot_cost_def example_layout_def example_catalog_def example_index_def
      BUFFER_OVERHEAD_def)

text \<open>C26: What the parse says of a prefix of the file it would say of the whole file: a complete
  catalog and an error both stand whatever follows, and a request for more asks for more
  bytes than the prefix has.\<close>

theorem catalog_parse_prefix:
  "case catalog_parse lay buf fc tc ps npages dp c b of
     Inl e \<Rightarrow> catalog_parse lay (buf @ ext) fc tc ps npages dp c b = Err e
   | Inr (Complete cat, c', b') \<Rightarrow>
       catalog_parse lay (buf @ ext) fc tc ps npages dp c b = Ok (Complete cat, c', b')
   | Inr (NeedMore n, c', b') \<Rightarrow> length buf < n"
  using catalog_parse_stable [of lay buf fc tc ps npages dp c b] catalog_parse_NeedMore [of lay buf fc tc ps npages dp c b]
  by (auto split: sum.splits prod.splits CatalogParse.splits)


subsection \<open>Reading the catalog\<close>

text \<open>One turn of the loop, for a source that keeps its contract: the buffer is a prefix of
  the image.\<close>

lemma accounts_reserve:
  assumes "accounts b h" "try_reserve b n = Ok (c, b')" shows "c = n \<and> accounts b' (h + n) \<and> limit b' = limit b"
  using assms budget_take_Ok_accounts [OF assms(1)] by (auto simp: try_reserve_def)

lemma accounts_drop:
  assumes "accounts b (h + c)" shows "accounts (charge_drop c b) h \<and> limit (charge_drop c b) = limit b"
  using budget_release_accounts [OF assms, of c] by (simp add: charge_drop_def)

lemma catalog_parse_more_accounts:
  assumes "accounts b (h + c)" "HEADER_LEN \<le> length buf"
    and "catalog_parse lay buf fc tc ps npages dp c b = Ok (NeedMore n, c', b')"
  shows "accounts b' (h + c') \<and> limit b' = limit b"
proof -
  have "parse_inv buf (limit b) h (start_state c b)"
    using assms by (simp add: parse_inv_def HEADER_LEN_def)
  moreover obtain st where "catalog_parser lay fc tc ps npages dp buf (start_state c b) = NeedsMore n st"
    "c' = p_charge st" "b' = p_budget st"
    using assms(3) by (auto simp: catalog_parse_def split: parsed.splits)
  ultimately show ?thesis using keepsD(1) [OF keeps_catalog_parser] unfolding parse_inv_def by blast
qed

text \<open>\<open>catalog_read\<close>: what a result of \<open>read_catalog\<close> says of the image.\<close>

definition catalog_read ::
  "Layout \<Rightarrow> bytes \<Rightarrow> Header \<Rightarrow> nat \<Rightarrow> nat \<Rightarrow> (charge \<times> Catalog \<times> Budget) result \<Rightarrow> bool" where
  "catalog_read lay img hdr lim h r = (case r of
     Inl e \<Rightarrow> True
   | Inr (c, cat, b) \<Rightarrow>
       describes (page_filter_count hdr) (table_count hdr) (page_size hdr) (page_count hdr)
         (page_directory_position hdr) cat
       \<and> has_at img HEADER_LEN (catalog_bytes cat) \<and> c = catalog_cost lay cat
       \<and> accounts b (h + c) \<and> limit b = lim)"

lemma parse_turn_reads:
  assumes "accounts b (h + bc)" "up_to_post fails img 0 capacity r"
  shows "case parse_turn lay hdr bc 0 b r of
      Done r \<Rightarrow> catalog_read lay img hdr (limit b) h r
    | Again needed filled b' \<Rightarrow> accounts b' h \<and> limit b' = limit b"
proof (cases "parse_turn lay hdr bc 0 b r")
  case (Done q)
  show ?thesis
  proof (cases q)
    case (Inr x)
    obtain c cat b' where x: "x = (c, cat, b')" by (metis prod_cases3)
    from Done Inr x obtain buf b3 where r: "r = Ok buf" and len: "HEADER_LEN \<le> length buf"
      and p: "catalog_parse lay buf (page_filter_count hdr) (table_count hdr) (page_size hdr) (page_count hdr)
          (page_directory_position hdr) 0 b = Ok (Complete cat, c, b3)" and b': "b' = charge_drop bc b3"
      by (auto simp: parse_turn_def split: sum.splits prod.splits CatalogParse.splits)
    have a: "accounts b (h + bc + 0)" using assms(1) by simp
    note sound = catalog_parse_sound [OF a len p]
    have "h + bc + c = h + c + bc" by simp
    with sound have "accounts b3 (h + c + bc)" by metis
    then have "accounts (charge_drop bc b3) (h + c) \<and> limit (charge_drop bc b3) = limit b3"
      by (rule accounts_drop)
    moreover have "has_at img HEADER_LEN (catalog_bytes cat)"
      using sound assms(2) r at_take [of capacity img] by (simp add: up_to_post_def slice_def)
    ultimately show ?thesis using Done Inr x b' sound by (simp add: catalog_read_def)
  qed (simp add: Done catalog_read_def)
next
  case (Again needed filled b')
  from Again obtain buf c b3 where "r = Ok buf" and len: "HEADER_LEN \<le> length buf"
    and p: "catalog_parse lay buf (page_filter_count hdr) (table_count hdr) (page_size hdr) (page_count hdr)
        (page_directory_position hdr) 0 b = Ok (NeedMore needed, c, b3)"
    and b': "b' = charge_drop bc (charge_drop c b3)"
    by (auto simp: parse_turn_def split: sum.splits prod.splits CatalogParse.splits)
  have a: "accounts b (h + bc + 0)" using assms(1) by simp
  have "accounts (charge_drop c b3) (h + bc) \<and> limit (charge_drop c b3) = limit b"
    using catalog_parse_more_accounts [OF a len p] accounts_drop [of b3 "h + bc" c] by simp
  then show ?thesis using Again b' accounts_drop [of "charge_drop c b3" h bc] by simp
qed

lemma read_catalog_turn_reads:
  assumes "page_source src img" "accounts b h"
  shows "\<exists>q u. read_catalog_turn lay src hdr capacity b t = Some (q, u) \<and> (case q of
      Done r \<Rightarrow> catalog_read lay img hdr (limit b) h r
    | Again needed filled b' \<Rightarrow> accounts b' h \<and> limit b' = limit b)"
proof (cases "and_then (try_reserve b (capacity + BUFFER_OVERHEAD)) (\<lambda>(buffer_charge, b1).
           and_then (try_reserve b1 0) (\<lambda>(catalog_charge, b2). Ok (buffer_charge, catalog_charge, b2)))")
  case (Inr x)
  obtain bc cc b2 where x: "x = (bc, cc, b2)" by (metis prod_cases3)
  with Inr obtain b1 where r: "try_reserve b (capacity + BUFFER_OVERHEAD) = Ok (bc, b1)"
    "try_reserve b1 0 = Ok (cc, b2)" by auto
  have a: "cc = 0" "accounts b2 (h + bc)" "limit b2 = limit b"
    using accounts_reserve [OF assms(2) r(1)] accounts_reserve [OF _ r(2)] by auto
  obtain q u where q: "read_up_to_at src capacity 0 t = Some (q, u)" "up_to_post (can_fail src) img 0 capacity q"
    using page_source.read_up_to_at_total [OF assms(1)] by blast
  show ?thesis using parse_turn_reads [OF a(2) q(2), of lay hdr] q(1) a
    unfolding read_catalog_turn_def Inr x by (simp split: catalog_turn.splits)
qed (simp add: read_catalog_turn_def catalog_read_def)

lemma read_catalog_loop_reads:
  assumes "page_source src img" "accounts b h"
  shows "\<exists>r u. read_catalog_loop lay src hdr max_bytes capacity b t = Some (r, u)
    \<and> catalog_read lay img hdr (limit b) h r"
  using assms(2)
proof (induction "max_bytes - capacity" arbitrary: capacity b t rule: less_induct)
  case less
  note unroll = read_catalog_loop.simps [of lay src hdr max_bytes capacity b t]
  obtain q u where q: "read_catalog_turn lay src hdr capacity b t = Some (q, u)"
    "case q of Done r \<Rightarrow> catalog_read lay img hdr (limit b) h r
     | Again needed filled b' \<Rightarrow> accounts b' h \<and> limit b' = limit b"
    using read_catalog_turn_reads [OF assms(1) less.prems] by blast
  show ?case
  proof (cases q)
    case (Again needed filled b')
    note more = read_catalog_turn_Again [OF q(1) [unfolded Again]]
    show ?thesis
    proof (cases "filled < capacity \<or> max_bytes \<le> capacity")
      case True
      then show ?thesis using q Again by (auto simp: unroll catalog_read_def)
    next
      case False
      then show ?thesis
        using less.hyps [of "min (max needed (capacity * 2)) max_bytes" b' u] q Again more
        by (auto simp: unroll)
    qed
  qed (use q in \<open>simp add: unroll\<close>)
qed

text \<open>A catalog that is there and fits the limits is found.\<close>

lemma parse_turn_finds:
  assumes "accounts b (h + bc)" "buf = take capacity img" "HEADER_LEN \<le> capacity"
    and cat: "describes (page_filter_count hdr) (table_count hdr) (page_size hdr) (page_count hdr)
        (page_directory_position hdr) cat" "has_at img HEADER_LEN (catalog_bytes cat)"
    and room: "h + bc + catalog_cost lay cat \<le> limit b"
  shows "case parse_turn lay hdr bc 0 b (Ok buf) of
      Done r \<Rightarrow> \<exists>b'. r = Ok (catalog_cost lay cat, cat, b')
    | Again needed filled b' \<Rightarrow> capacity \<le> filled \<and> capacity < HEADER_LEN + length (catalog_bytes cat)"
proof -
  let ?parse = "\<lambda>bs. catalog_parse lay bs (page_filter_count hdr) (table_count hdr) (page_size hdr)
      (page_count hdr) (page_directory_position hdr) 0 b"
  have a: "accounts b (h + bc + 0)" using assms(1) by simp
  have r: "h + bc + 0 + catalog_cost lay cat \<le> limit b" using room by simp
  have len: "HEADER_LEN \<le> length img" using cat(2) by (simp add: has_at_def fits_def)
  then have lenb: "HEADER_LEN \<le> length buf" using assms(2,3) by simp
  obtain c' b' where img: "?parse img = Ok (Complete cat, c', b')"
    using catalog_parse_complete [OF a cat r] by blast
  have c': "c' = catalog_cost lay cat" using catalog_parse_sound [OF a len img] by simp
  have app: "img = buf @ drop capacity img" using assms(2) by simp
  show ?thesis
  proof (cases "?parse buf")
    case (Inl e)
    then show ?thesis using catalog_parse_stable(2) [OF Inl, of "drop capacity img"] app img by simp
  next
    case (Inr x)
    obtain p c1 b1 where x: "x = (p, c1, b1)" by (metis prod_cases3)
    show ?thesis
    proof (cases p)
      case (Complete cat')
      then have "?parse img = Ok (Complete cat', c1, b1)"
        using catalog_parse_stable(1) [of lay buf _ _ _ _ _ 0 b cat' "(c1, b1)" "drop capacity img"] app Inr x
        by simp
      with img have "cat' = cat" "c1 = c'" by simp_all
      then show ?thesis using lenb Inr x Complete c' by (simp add: parse_turn_def)
    next
      case (NeedMore n)
      have "\<not> has_at buf HEADER_LEN (catalog_bytes cat)"
        using catalog_parse_complete [OF a cat(1) _ r, of buf] Inr x NeedMore by auto
      then have "capacity < HEADER_LEN + length (catalog_bytes cat)" "buf \<noteq> img"
        using at_within [OF cat(2), of capacity] assms(2) cat(2) not_less by blast+
      moreover have "capacity \<le> length buf" using \<open>buf \<noteq> img\<close> assms(2) by (cases "length img \<le> capacity") auto
      ultimately show ?thesis using Inr x NeedMore lenb by (simp add: parse_turn_def)
    qed
  qed
qed

lemma read_catalog_turn_finds:
  assumes "page_source src img" "\<not> can_fail src" "accounts b h" "HEADER_LEN \<le> capacity" "capacity \<le> usize_max"
    and cat: "describes (page_filter_count hdr) (table_count hdr) (page_size hdr) (page_count hdr)
        (page_directory_position hdr) cat" "has_at img HEADER_LEN (catalog_bytes cat)"
    and room: "h + (capacity + BUFFER_OVERHEAD) + catalog_cost lay cat \<le> limit b"
  shows "\<exists>q u. read_catalog_turn lay src hdr capacity b t = Some (q, u) \<and> (case q of
      Done r \<Rightarrow> \<exists>b'. r = Ok (catalog_cost lay cat, cat, b')
    | Again needed filled b' \<Rightarrow> capacity \<le> filled \<and> capacity < HEADER_LEN + length (catalog_bytes cat))"
proof -
  obtain b1 where r1: "try_reserve b (capacity + BUFFER_OVERHEAD) = Ok (capacity + BUFFER_OVERHEAD, b1)"
    using room budget_take_accounts [OF assms(3)] by (simp add: try_reserve_def)
  note a1 = accounts_reserve [OF assms(3) r1]
  then obtain b2 where r2: "try_reserve b1 0 = Ok (0, b2)"
    using room budget_take_accounts [of b1 "h + (capacity + BUFFER_OVERHEAD)" 0] by (simp add: try_reserve_def)
  have a2: "accounts b2 (h + (capacity + BUFFER_OVERHEAD))" "limit b2 = limit b"
    using a1 accounts_reserve [OF _ r2] by auto
  obtain q u where q: "read_up_to_at src capacity 0 t = Some (q, u)" "up_to_post (can_fail src) img 0 capacity q"
    using page_source.read_up_to_at_total [OF assms(1)] by blast
  then have buf: "q = Ok (take capacity img)"
    using assms(2,5) by (auto simp: up_to_post_def slice_def split: sum.splits)
  have "h + (capacity + BUFFER_OVERHEAD) + catalog_cost lay cat \<le> limit b2" using room a2(2) by simp
  from parse_turn_finds [OF a2(1) refl assms(4) cat this] r1 r2 q(1) buf
  show ?thesis by (simp add: read_catalog_turn_def)
qed

lemma read_catalog_loop_finds:
  assumes "page_source src img" "\<not> can_fail src" "accounts b h" "HEADER_LEN \<le> capacity" "capacity \<le> max_bytes"
    and "max_bytes \<le> usize_max"
    and cat: "describes (page_filter_count hdr) (table_count hdr) (page_size hdr) (page_count hdr)
        (page_directory_position hdr) cat" "has_at img HEADER_LEN (catalog_bytes cat)"
    and size: "HEADER_LEN + length (catalog_bytes cat) \<le> max_bytes"
    and room: "h + (max_bytes + BUFFER_OVERHEAD) + catalog_cost lay cat \<le> limit b"
  shows "\<exists>b' u. read_catalog_loop lay src hdr max_bytes capacity b t = Some (Ok (catalog_cost lay cat, cat, b'), u)"
  using assms(3-5) room
proof (induction "max_bytes - capacity" arbitrary: capacity b t rule: less_induct)
  case less
  note unroll = read_catalog_loop.simps [of lay src hdr max_bytes capacity b t]
  have room: "h + (capacity + BUFFER_OVERHEAD) + catalog_cost lay cat \<le> limit b" using less.prems by simp
  have "capacity \<le> usize_max" using less.prems assms(6) by simp
  from read_catalog_turn_finds [OF assms(1,2) less.prems(1,2) this cat room]
  obtain q u where q: "read_catalog_turn lay src hdr capacity b t = Some (q, u)" "case q of
      Done r \<Rightarrow> \<exists>b'. r = Ok (catalog_cost lay cat, cat, b')
    | Again needed filled b' \<Rightarrow> capacity \<le> filled \<and> capacity < HEADER_LEN + length (catalog_bytes cat)" by blast
  show ?case
  proof (cases q)
    case (Done r)
    then show ?thesis using q by (auto simp: unroll)
  next
    case (Again needed filled b')
    have a: "accounts b' h \<and> limit b' = limit b"
      using read_catalog_turn_reads [OF assms(1) less.prems(1), of lay hdr capacity t] q(1) Again by simp
    have "filled < needed" by (rule read_catalog_turn_Again [OF q(1) [unfolded Again]])
    then have "capacity < min (max needed (capacity * 2)) max_bytes" using q(2) Again size by auto
    then have "max_bytes - min (max needed (capacity * 2)) max_bytes < max_bytes - capacity" by linarith
    then show ?thesis
      using less.hyps [of "min (max needed (capacity * 2)) max_bytes" b' u] less.prems a q Again size
      by (simp add: unroll)
  qed
qed

text \<open>C27: Reading the descriptors from a source always returns.  What it returns is the catalog
  the image holds, whose cost is exactly what stays reserved; and a catalog that is there, fits
  the size limit and the budget, is found, if the source does not fail.\<close>

theorem read_catalog_correct:
  assumes "page_source src img" "accounts b h" "max_bytes \<le> usize_max"
  shows "\<exists>r u. read_catalog lay src hdr max_bytes b t = Some (r, u) \<and>
    (\<forall>c cat b'. r = Ok (c, cat, b') \<longrightarrow>
       describes (page_filter_count hdr) (table_count hdr) (page_size hdr) (page_count hdr)
         (page_directory_position hdr) cat
       \<and> has_at img HEADER_LEN (catalog_bytes cat) \<and> c = catalog_cost lay cat \<and> accounts b' (h + c)) \<and>
    (\<forall>cat. describes (page_filter_count hdr) (table_count hdr) (page_size hdr) (page_count hdr)
         (page_directory_position hdr) cat
       \<and> has_at img HEADER_LEN (catalog_bytes cat) \<and> HEADER_LEN + length (catalog_bytes cat) \<le> max_bytes
       \<and> h + (max_bytes + BUFFER_OVERHEAD) + catalog_cost lay cat \<le> limit b
       \<and> (\<forall>t room at. src t room at \<noteq> Failed)
       \<longrightarrow> (\<exists>b'. r = Ok (catalog_cost lay cat, cat, b')))"
proof -
  let ?cap = "max (min (8 * 1024) max_bytes) HEADER_LEN"
  obtain r u where r: "read_catalog_loop lay src hdr max_bytes ?cap b t = Some (r, u)"
    "catalog_read lay img hdr (limit b) h r"
    using read_catalog_loop_reads [OF assms(1,2)] by blast
  have "\<exists>b'. r = Ok (catalog_cost lay cat, cat, b')"
    if "describes (page_filter_count hdr) (table_count hdr) (page_size hdr) (page_count hdr)
         (page_directory_position hdr) cat"
      "has_at img HEADER_LEN (catalog_bytes cat)" "HEADER_LEN + length (catalog_bytes cat) \<le> max_bytes"
      "h + (max_bytes + BUFFER_OVERHEAD) + catalog_cost lay cat \<le> limit b"
      "\<not> can_fail src" for cat
    using read_catalog_loop_finds [OF assms(1) that(5) assms(2) _ _ assms(3) that(1-4), of ?cap t] r(1) that(3)
    by auto
  then show ?thesis using r by (auto simp: read_catalog_def catalog_read_def can_fail_def)
qed

definition example_header :: Header where
  "example_header = \<lparr>major_version = MAJOR_VERSION, minor_version = MINOR_VERSION, page_filter_count = 0,
     page_size = 4096, table_count = 1, page_count = 6, page_directory_position = 512\<rparr>"

theorem read_catalog_correct_witness:
  "\<exists>b' u. read_catalog example_layout (memory_source example_file) example_header 4096 (budget_new 9000) 0
     = Some (Ok (catalog_cost example_layout example_catalog, example_catalog, b'), u)"
proof -
  have "accounts (budget_new 9000) 0" by (simp add: accounts_def budget_new_def usize_max_def)
  moreover have "catalog_cost example_layout example_catalog \<le> 2000"
    by (simp add: catalog_cost_def table_cost_def descriptor_cost_def slot_cost_def example_layout_def
        example_catalog_def example_index_def BUFFER_OVERHEAD_def)
  moreover have "length (catalog_bytes example_catalog) \<le> 100"
    by (simp add: catalog_bytes_def table_bytes_def length_descriptor_bytes example_catalog_def example_index_def)
  moreover have "\<not> memory_source example_file t room at = Failed" for t room at
    by (simp add: memory_source_def)
  ultimately show ?thesis
    using read_catalog_correct [OF memory.page_source_axioms, of "budget_new 9000" 0 4096 example_layout
        example_file example_header 0] example_catalog_described example_file_catalog
    by (auto simp: usize_max_def example_header_def budget_new_def BUFFER_OVERHEAD_def HEADER_LEN_def)
qed

end
