(* ===== verification/Page_Sink.thy ===== *)
theory Page_Sink
  imports Format
begin

text \<open>
  Page filters (\<^verbatim>\<open>crates/drydb/src/filter.rs\<close>) and the output file of a build
  (\<^verbatim>\<open>crates/drydb/src/builder/sink.rs\<close>): the spool that collects page offsets, the file with
  its append position, page writing with an optional filter, and back-patching.

  The file and the spool's temporary file are byte lists; the operating system failing to
  write them is not modelled.  A filter is code outside the crate, so it is a parameter: a
  record of its functions.  \<open>filter_decode\<close> is given the room of the vector it writes to, and
  returns what it wrote and the room the vector has afterwards.
\<close>

subsection \<open>Filters\<close>

record PageFilter =
  filter_id :: bytes
  filter_encode :: "bytes \<Rightarrow> bytes result"
  working_set_bytes :: nat
  probe_bytes :: nat
  decoded_size_hint :: "bytes \<Rightarrow> nat option"
  filter_decode :: "nat \<Rightarrow> bytes \<Rightarrow> (bytes \<times> nat) result"

type_synonym FilterRegistry = "bytes \<rightharpoonup> PageFilter"

definition filter_registry_new :: FilterRegistry where
  "filter_registry_new = Map.empty"

definition filter_register :: "FilterRegistry \<Rightarrow> PageFilter \<Rightarrow> FilterRegistry" where
  "filter_register reg f = reg(filter_id f \<mapsto> f)"

text \<open>\<open>builtin_filter\<close> is the zstd filter, present when the crate is built with that feature.\<close>

definition filter_resolve ::
  "(bytes \<times> PageFilter) option \<Rightarrow> FilterRegistry \<Rightarrow> bytes \<Rightarrow> PageFilter result" where
  "filter_resolve builtin_filter reg i =
     (case reg i of
        Some f \<Rightarrow> Ok f
      | None \<Rightarrow>
          (case builtin_filter of
             Some (zstd_id, zstd) \<Rightarrow> if i = zstd_id then Ok zstd else Err (error_new UnknownFilter)
           | None \<Rightarrow> Err (error_new UnknownFilter)))"

subsection \<open>The directory spool\<close>

text \<open>Writing at a position, as a file does: what is there is overwritten and a gap past the
  end reads as zeros.\<close>

definition write_at :: "bytes \<Rightarrow> nat \<Rightarrow> bytes \<Rightarrow> bytes" where
  "write_at out pos bs = take pos (out @ replicate (pos - length out) 0) @ bs @ drop (pos + length bs) out"

text \<open>The temporary file is created by the first spill; \<open>ds_spilled_bytes\<close> is where the next one goes.\<close>

record DirectorySpool =
  ds_buffer :: bytes
  ds_file :: "bytes option"
  ds_spilled_bytes :: nat
  ds_count :: nat
  ds_threshold :: nat

definition directory_new :: "nat \<Rightarrow> DirectorySpool" where
  "directory_new threshold =
     \<lparr>ds_buffer = [], ds_file = None, ds_spilled_bytes = 0, ds_count = 0, ds_threshold = max threshold DIRECTORY_SLOT_LEN\<rparr>"

definition directory_spill :: "DirectorySpool \<Rightarrow> DirectorySpool" where
  "directory_spill d =
     (if ds_buffer d = [] then d
      else let file = (case ds_file d of None \<Rightarrow> [] | Some f \<Rightarrow> f) in
        d\<lparr>ds_file := Some (write_at file (ds_spilled_bytes d) (ds_buffer d)),
          ds_spilled_bytes := ds_spilled_bytes d + length (ds_buffer d), ds_buffer := []\<rparr>)"

definition directory_push :: "DirectorySpool \<Rightarrow> nat \<Rightarrow> (page_ordinal \<times> DirectorySpool) result" where
  "directory_push d offset =
     (if ds_count d \<ge> 2147483647 then Err (error_new ValueTooLarge)
      else let d' = d\<lparr>ds_buffer := ds_buffer d @ i64_to_le (as_i64 offset), ds_count := ds_count d + 1\<rparr> in
        Ok (ds_count d, if length (ds_buffer d') \<ge> ds_threshold d' then directory_spill d' else d'))"

text \<open>\<open>write_into\<close> copies \<open>ds_spilled_bytes\<close> bytes of the file a chunk at a time; a file that ends
  before is an error.\<close>

function copy_chunks :: "nat \<Rightarrow> nat \<Rightarrow> bytes \<Rightarrow> bytes result" where
  "copy_chunks chunk remaining src =
     (if remaining = 0 \<or> chunk = 0 then Ok []
      else let want = min chunk remaining in
        if length src < want then Err (error_new Io)
        else and_then (copy_chunks chunk (remaining - want) (drop want src)) (\<lambda>rest. Ok (take want src @ rest)))"
  by pat_completeness auto
termination by (relation "measure (\<lambda>(chunk, remaining, src). remaining)") auto

declare copy_chunks.simps [simp del]

definition directory_write_into :: "DirectorySpool \<Rightarrow> bytes result" where
  "directory_write_into d =
     and_then (case ds_file d of None \<Rightarrow> Ok [] | Some f \<Rightarrow> copy_chunks (256 * 1024) (ds_spilled_bytes d) f) (\<lambda>spilled.
     Ok (spilled @ ds_buffer d))"

subsection \<open>The sink\<close>

record PageSink =
  sink_out :: bytes
  sink_pos :: nat
  sink_filter :: "PageFilter option"
  sink_directory :: DirectorySpool

definition sink_new :: "PageFilter option \<Rightarrow> DirectorySpool \<Rightarrow> PageSink" where
  "sink_new f d = \<lparr>sink_out = [], sink_pos = 0, sink_filter = f, sink_directory = d\<rparr>"

definition sink_write_raw :: "PageSink \<Rightarrow> bytes \<Rightarrow> PageSink" where
  "sink_write_raw s bs = s\<lparr>sink_out := write_at (sink_out s) (sink_pos s) bs, sink_pos := sink_pos s + length bs\<rparr>"

definition sink_begin_page :: "PageSink \<Rightarrow> (page_ordinal \<times> nat \<times> PageSink) result" where
  "sink_begin_page s =
     and_then (directory_push (sink_directory s) (sink_pos s)) (\<lambda>(ordinal, d).
     Ok (ordinal, sink_pos s, s\<lparr>sink_directory := d\<rparr>))"

definition sink_write_page :: "PageSink \<Rightarrow> bytes \<Rightarrow> PageSink result" where
  "sink_write_page s page =
     (case sink_filter s of
        None \<Rightarrow> Ok (sink_write_raw s page)
      | Some f \<Rightarrow>
          and_then (filter_encode f (drop PAGE_PREFIX_LEN page)) (\<lambda>payload.
          and_then (case checked_add PAGE_PREFIX_LEN (length payload) of
                      Some t \<Rightarrow> if t \<le> 2147483647 then Ok t else Err (error_new ValueTooLarge)
                    | None \<Rightarrow> Err (error_new ValueTooLarge)) (\<lambda>len.
          let prefix = i32_to_le (as_i32 len) @ drop 4 (take PAGE_PREFIX_LEN page) in
          Ok (sink_write_raw (sink_write_raw s prefix) payload))))"

definition sink_patch_at :: "PageSink \<Rightarrow> nat \<Rightarrow> bytes \<Rightarrow> PageSink" where
  "sink_patch_at s offset bs = s\<lparr>sink_out := write_at (sink_out s) offset bs\<rparr>"

text \<open>Returns the offset of the section and the number of pages; the spool is replaced by an
  empty one.\<close>

definition sink_finish_directory :: "PageSink \<Rightarrow> (nat \<times> nat \<times> PageSink) result" where
  "sink_finish_directory s =
     (let s' = s\<lparr>sink_directory := directory_new DIRECTORY_SLOT_LEN\<rparr> in
      and_then (directory_write_into (sink_directory s)) (\<lambda>section_bytes.
      Ok (sink_pos s, ds_count (sink_directory s), sink_write_raw s' section_bytes)))"

subsection \<open>The spool holds every offset in order\<close>

definition directory_offsets :: "nat list \<Rightarrow> bytes" where
  "directory_offsets offs = concat (map (\<lambda>n. i64_to_le (as_i64 n)) offs)"

definition spool_holds :: "DirectorySpool \<Rightarrow> nat list \<Rightarrow> bool" where
  "spool_holds d offs \<longleftrightarrow> (case ds_file d of None \<Rightarrow> [] | Some f \<Rightarrow> f) @ ds_buffer d = directory_offsets offs
     \<and> ds_spilled_bytes d = length (case ds_file d of None \<Rightarrow> [] | Some f \<Rightarrow> f) \<and> ds_count d = length offs"

lemma copy_chunks_id: "0 < chunk \<Longrightarrow> copy_chunks chunk (length src) src = Ok src"
proof (induction chunk "length src" src rule: copy_chunks.induct)
  case (1 chunk src)
  show ?case
  proof (cases "src = []")
    case False
    then have "copy_chunks chunk (length src - min chunk (length src)) (drop (min chunk (length src)) src) = Ok (drop (min chunk (length src)) src)"
      using 1 by simp
    then show ?thesis using False 1(2) by (subst copy_chunks.simps) (simp add: Let_def)
  qed (simp add: copy_chunks.simps)
qed

lemma spool_new: "spool_holds (directory_new t) []"
  by (simp add: spool_holds_def directory_new_def directory_offsets_def)

lemma write_at_end: "pos = length out \<Longrightarrow> write_at out pos bs = out @ bs"
  by (simp add: write_at_def)

lemma spool_spill: "spool_holds d offs \<Longrightarrow> spool_holds (directory_spill d) offs"
  by (auto simp: spool_holds_def directory_spill_def Let_def write_at_end split: option.splits dest: arg_cong [of _ _ length])

lemma spool_push:
  assumes "spool_holds d offs" "directory_push d n = Ok (ordinal, d')"
  shows "ordinal = length offs \<and> spool_holds d' (offs @ [n])"
proof -
  let ?d = "d\<lparr>ds_buffer := ds_buffer d @ i64_to_le (as_i64 n), ds_count := ds_count d + 1\<rparr>"
  have "spool_holds ?d (offs @ [n])" using assms(1) by (simp add: spool_holds_def directory_offsets_def)
  from spool_spill [OF this] this show ?thesis
    using assms by (auto simp: directory_push_def Let_def spool_holds_def split: if_splits)
qed

lemma spool_write_into: "spool_holds d offs \<Longrightarrow> directory_write_into d = Ok (directory_offsets offs)"
  using copy_chunks_id [of "256 * 1024"] by (auto simp: directory_write_into_def spool_holds_def split: option.splits)

lemma length_directory_offsets: "length (directory_offsets offs) = 8 * length offs"
  by (induction offs) (simp_all add: directory_offsets_def)

lemma slice_directory_offsets:
  "i < length offs \<Longrightarrow> slice (directory_offsets offs) (8 * i) 8 = i64_to_le (as_i64 (offs ! i))"
proof (induction offs arbitrary: i)
  case (Cons x xs)
  show ?case
  proof (cases i)
    case 0
    then show ?thesis by (simp add: directory_offsets_def slice_def)
  next
    case (Suc j)
    then show ?thesis using Cons.IH [of j] Cons.prems by (simp add: directory_offsets_def slice_def)
  qed
qed simp

subsection \<open>Pages in the file\<close>

text \<open>
  The file as a build sees it: what was written before the pages, then the stored pages in
  ordinal order, each starting where the directory says.
\<close>

definition stored_offsets :: "nat \<Rightarrow> bytes list \<Rightarrow> nat list" where
  "stored_offsets base pages = map (\<lambda>i. base + length (concat (take i pages))) [0..<length pages]"

definition sink_holds :: "PageSink \<Rightarrow> bytes \<Rightarrow> bytes list \<Rightarrow> bool" where
  "sink_holds s front pages \<longleftrightarrow> sink_out s = front @ concat pages \<and> sink_pos s = length (sink_out s)
     \<and> spool_holds (sink_directory s) (stored_offsets (length front) pages)"

lemma write_at_append_left:
  "pos + length bs \<le> length xs \<Longrightarrow> write_at (xs @ ys) pos bs = write_at xs pos bs @ ys"
  by (simp add: write_at_def)

lemma write_at_append_right:
  "length xs \<le> pos \<Longrightarrow> write_at (xs @ ys) pos bs = xs @ write_at ys (pos - length xs) bs"
  by (simp add: write_at_def)

lemma length_write_at: "pos + length bs \<le> length out \<Longrightarrow> length (write_at out pos bs) = length out"
  by (simp add: write_at_def)

lemma stored_offsets_snoc:
  "stored_offsets base (pages @ [p]) = stored_offsets base pages @ [base + length (concat pages)]"
  by (simp add: stored_offsets_def)

lemma stored_offsets_cong:
  "map length pages = map length pages' \<Longrightarrow> stored_offsets base pages = stored_offsets base pages'"
proof -
  assume eq: "map length pages = map length pages'"
  then have "length pages = length pages'" by (metis length_map)
  moreover have "length (concat (take i pages)) = length (concat (take i pages'))" for i
    using eq by (simp add: length_concat) (metis take_map)
  ultimately show ?thesis by (simp add: stored_offsets_def)
qed

lemma concat_split:
  "i < length pages \<Longrightarrow> concat pages = concat (take i pages) @ pages ! i @ concat (drop (Suc i) pages)"
  by (metis concat.simps(2) concat_append id_take_nth_drop)

lemma write_at_middle:
  assumes "k + length bs \<le> length p"
  shows "write_at (a @ p @ rest) (length a + k) bs = a @ write_at p k bs @ rest"
  using assms write_at_append_right [of a "length a + k" "p @ rest" bs] write_at_append_left [of k bs p rest]
  by simp

lemma write_at_page:
  assumes "i < length pages" "k + length bs \<le> length (pages ! i)"
  shows "write_at (front @ concat pages) (length front + length (concat (take i pages)) + k) bs
    = front @ concat (pages[i := write_at (pages ! i) k bs])"
proof -
  have "concat (pages[i := write_at (pages ! i) k bs])
      = concat (take i pages) @ write_at (pages ! i) k bs @ concat (drop (Suc i) pages)"
    using assms(1) by (simp add: upd_conv_take_nth_drop)
  then show ?thesis
    using write_at_middle [OF assms(2), of "front @ concat (take i pages)" "concat (drop (Suc i) pages)"]
    by (subst concat_split [OF assms(1)]) simp
qed

lemma stored_offsets_nth:
  "i < length pages \<Longrightarrow> stored_offsets base pages ! i = base + length (concat (take i pages))"
  by (simp add: stored_offsets_def)

lemma sink_holds_patch:
  assumes "sink_holds s front pages" "i < length pages" "k + length bs \<le> length (pages ! i)"
  shows "sink_holds (sink_patch_at s (stored_offsets (length front) pages ! i + k) bs) front
    (pages[i := write_at (pages ! i) k bs])"
proof -
  have "map length (pages[i := write_at (pages ! i) k bs]) = map length pages"
    using assms(2,3) by (simp add: map_update length_write_at list_update_same_conv)
  from stored_offsets_cong [OF this] show ?thesis
    using assms write_at_page [OF assms(2,3), of front]
    by (simp add: sink_holds_def sink_patch_at_def stored_offsets_nth)
      (simp add: length_concat map_update [symmetric] length_write_at list_update_same_conv map_update)
qed

lemma length_stored_offsets [simp]: "length (stored_offsets base pages) = length pages"
  by (simp add: stored_offsets_def)

text \<open>What \<open>write_page\<close> stores for a page: its prefix with the stored length, and the payload
  through the filter.\<close>

definition stored_page :: "PageFilter option \<Rightarrow> bytes \<Rightarrow> bytes result" where
  "stored_page f page = (case f of
     None \<Rightarrow> Ok page
   | Some f \<Rightarrow> and_then (filter_encode f (drop PAGE_PREFIX_LEN page)) (\<lambda>payload.
       if PAGE_PREFIX_LEN + length payload \<le> 2147483647
       then Ok (i32_to_le (int (PAGE_PREFIX_LEN + length payload)) @ drop 4 (take PAGE_PREFIX_LEN page) @ payload)
       else Err (error_new ValueTooLarge)))"

lemma sink_write_page_stored:
  assumes "sink_pos s = length (sink_out s)"
  shows "sink_write_page s page = and_then (stored_page (sink_filter s) page) (\<lambda>bs.
    Ok (s\<lparr>sink_out := sink_out s @ bs, sink_pos := sink_pos s + length bs\<rparr>))"
proof (cases "sink_filter s")
  case (Some f)
  have "\<not> (usize_max < PAGE_PREFIX_LEN + n \<and> PAGE_PREFIX_LEN + n \<le> 2147483647)" for n
    by (simp add: usize_max_def)
  then show ?thesis using assms Some
    by (cases "filter_encode f (drop PAGE_PREFIX_LEN page)")
      (auto simp: sink_write_page_def stored_page_def sink_write_raw_def write_at_end Let_def as_i32_small
        split: option.splits if_splits)
qed (use assms in \<open>simp add: sink_write_page_def stored_page_def sink_write_raw_def write_at_end\<close>)

lemma sink_holds_page:
  assumes "sink_holds s front pages" "sink_begin_page s = Ok (ordinal, offset, s1)"
    and "sink_write_page s1 page = Ok s2"
  shows "\<exists>bs. stored_page (sink_filter s) page = Ok bs \<and> ordinal = length pages
    \<and> offset = stored_offsets (length front) (pages @ [bs]) ! length pages
    \<and> sink_holds s2 front (pages @ [bs]) \<and> sink_filter s2 = sink_filter s"
proof -
  obtain d where d: "directory_push (sink_directory s) (sink_pos s) = Ok (ordinal, d)"
    "offset = sink_pos s" "s1 = s\<lparr>sink_directory := d\<rparr>"
    using assms(2) by (auto simp: sink_begin_page_def)
  note sp = spool_push [OF _ d(1), of "stored_offsets (length front) pages"]
  have pos: "sink_pos s1 = length (sink_out s1)" using assms(1) d(3) by (simp add: sink_holds_def)
  note w = assms(3) [unfolded sink_write_page_stored [OF pos]]
  show ?thesis using assms(1) d sp w by (auto simp: sink_holds_def stored_offsets_snoc nth_append)
qed


text \<open>The stored prefix is the page's own but for the length.\<close>

lemma stored_page_prefix:
  assumes "stored_page f page = Ok bs" "PAGE_PREFIX_LEN \<le> length page"
  shows "PAGE_PREFIX_LEN \<le> length bs \<and> drop 4 (take PAGE_PREFIX_LEN bs) = drop 4 (take PAGE_PREFIX_LEN page)"
  using assms by (auto simp: stored_page_def PAGE_PREFIX_LEN_def split: option.splits)

subsection \<open>Properties\<close>

fun push_offsets :: "DirectorySpool \<Rightarrow> nat list \<Rightarrow> (page_ordinal list \<times> DirectorySpool) result" where
  "push_offsets d [] = Ok ([], d)"
| "push_offsets d (n # ns) = and_then (directory_push d n) (\<lambda>(ordinal, d1).
     and_then (push_offsets d1 ns) (\<lambda>(ordinals, d2). Ok (ordinal # ordinals, d2)))"

lemma push_offsets_holds:
  "spool_holds d offs \<Longrightarrow> push_offsets d ns = Ok (ordinals, d') \<Longrightarrow>
   ordinals = [length offs..<length offs + length ns] \<and> spool_holds d' (offs @ ns)"
proof (induction ns arbitrary: d offs ordinals)
  case (Cons n ns)
  then obtain ordinal d1 rest where p: "directory_push d n = Ok (ordinal, d1)"
    "push_offsets d1 ns = Ok (rest, d')" "ordinals = ordinal # rest" by auto
  note h = spool_push [OF Cons.prems(1) p(1)]
  from Cons.IH [OF conjunct2 [OF h] p(2)] h p(3) show ?case
    by (simp add: upt_conv_Cons [of "length offs" "Suc (length offs + length ns)"] del: upt_Suc)
qed simp

text \<open>C30: Whatever the spill threshold, the directory section is the offsets of the pages in the
  order they were pushed, eight bytes each, and every push returns the index its offset has
  there.\<close>

theorem directory_section_exact:
  assumes "push_offsets (directory_new threshold) offs = Ok (ordinals, d)"
  shows "ordinals = [0..<length offs] \<and> directory_write_into d = Ok (concat (map (\<lambda>n. i64_to_le (as_i64 n)) offs))"
  using push_offsets_holds [OF spool_new assms] spool_write_into [of d offs] by (simp add: directory_offsets_def)

theorem directory_section_exact_witness:
  "\<exists>d. push_offsets (directory_new 8) [26, 90] = Ok ([0, 1], d)
    \<and> directory_write_into d = Ok (i64_to_le 26 @ i64_to_le 90)"
proof -
  obtain d where d: "push_offsets (directory_new 8) [26, 90] = Ok ([0, 1], d)"
    by (simp add: directory_push_def directory_new_def directory_spill_def Let_def DIRECTORY_SLOT_LEN_def)
  from directory_section_exact [OF d] have "directory_write_into d = Ok (i64_to_le 26 @ i64_to_le 90)"
    by (simp add: as_i64_small)
  with d show ?thesis by blast
qed

end
