(* ===== verification/Node.thy ===== *)
theory Node
  imports Format "HOL-Library.While_Combinator"
begin

text \<open>
  B+tree pages (\<^verbatim>\<open>crates/drydb/src/format/node.rs\<close>): the node header and its layout flags,
  \<open>PageView::parse\<close> and \<open>PageView::validate\<close>, the bounds-checked entry accessors of the
  classic, compact and omitted-keys layouts, and the rank search over a sorted or an
  Eytzinger ordered digest area.  A \<open>PageView\<close> borrows its page; the model carries the
  page bytes in the record.
\<close>

subsection \<open>Layout\<close>

datatype NodeKind = Leaf | Internal

definition KIND_MASK :: int where "KIND_MASK = 0xFF"
definition FLAG_LEGACY_KEY_DIGESTS :: int where "FLAG_LEGACY_KEY_DIGESTS = 0x100"
definition FLAG_EYTZINGER :: int where "FLAG_EYTZINGER = 0x200"
definition FLAG_COMPACT_META :: int where "FLAG_COMPACT_META = 0x400"
definition FLAG_OMITTED_KEYS :: int where "FLAG_OMITTED_KEYS = 0x800"
definition KNOWN_FLAGS :: int where
  "KNOWN_FLAGS = FLAG_EYTZINGER OR FLAG_COMPACT_META OR FLAG_OMITTED_KEYS"

lemmas flag_defs = KIND_MASK_def FLAG_LEGACY_KEY_DIGESTS_def FLAG_EYTZINGER_def
  FLAG_COMPACT_META_def FLAG_OMITTED_KEYS_def KNOWN_FLAGS_def

record NodeLayout =
  eytzinger :: bool
  compact_meta :: bool
  omitted_keys :: bool

definition flag_bits :: "NodeLayout \<Rightarrow> int" where
  "flag_bits l = (if eytzinger l then FLAG_EYTZINGER else 0)
     OR (if compact_meta l then FLAG_COMPACT_META else 0)
     OR (if omitted_keys l then FLAG_OMITTED_KEYS else 0)"

text \<open>\<open>checked_shl(1)\<close> on a 64 bit \<open>usize\<close> drops the bit shifted out.\<close>

definition complete_size :: "nat \<Rightarrow> nat" where
  "complete_size count =
     (let target = saturating_add count 1;
          m = while (\<lambda>m. m < target \<and> (2 * m) mod 2 ^ 64 \<noteq> 0) (\<lambda>m. (2 * m) mod 2 ^ 64) 1
      in if m < target then usize_max else m - 1)"

definition digest_slots :: "NodeLayout \<Rightarrow> nat \<Rightarrow> nat" where
  "digest_slots l n = (if eytzinger l then complete_size n else n)"

definition leaf_meta_size :: "NodeLayout \<Rightarrow> nat \<Rightarrow> nat option" where
  "leaf_meta_size l n =
     (if compact_meta l then
        Option.bind (Option.bind (checked_add n 1)
            (\<lambda>m. checked_add m (if omitted_keys l then 0 else n)))
          (\<lambda>slots. checked_mul slots 2)
      else checked_mul n 8)"

definition internal_meta_size :: "NodeLayout \<Rightarrow> nat \<Rightarrow> nat option" where
  "internal_meta_size l n =
     (if compact_meta l then
        (if omitted_keys l then Some 0
         else Option.bind (checked_add n 1) (\<lambda>m. checked_mul m 2))
      else checked_mul n 6)"

definition digest_area_size :: "NodeLayout \<Rightarrow> nat \<Rightarrow> nat option" where
  "digest_area_size l n = checked_mul (digest_slots l n) 8"

subsection \<open>Pages and entries\<close>

record NodeHeader =
  kind :: NodeKind
  layout :: NodeLayout
  entry_count :: nat
  left_sibling :: "page_ordinal option"
  right_sibling :: "page_ordinal option"

record PageView =
  pv_bytes :: bytes
  pv_header :: NodeHeader
  meta_base :: nat
  payload_base :: nat

datatype LeafValue = Inline nat nat | Overflow page_ordinal

record LeafEntry =
  le_key_offset :: nat
  le_key_len :: nat
  le_value :: LeafValue

record InternalEntry =
  ie_key_offset :: nat
  ie_key_len :: nat
  ie_child :: page_ordinal

abbreviation pv_kind :: "PageView \<Rightarrow> NodeKind" where "pv_kind v \<equiv> kind (pv_header v)"
abbreviation pv_layout :: "PageView \<Rightarrow> NodeLayout" where "pv_layout v \<equiv> layout (pv_header v)"
abbreviation pv_entry_count :: "PageView \<Rightarrow> nat" where
  "pv_entry_count v \<equiv> entry_count (pv_header v)"

definition parse_kind :: "int \<Rightarrow> NodeKind result" where
  "parse_kind word =
     (let k = word AND KIND_MASK in
      if k = 0 then Ok Leaf else if k = 1 then Ok Internal else Err corrupt)"

definition parse_layout :: "int \<Rightarrow> NodeLayout" where
  "parse_layout word =
     \<lparr>eytzinger = word AND FLAG_EYTZINGER \<noteq> 0, compact_meta = word AND FLAG_COMPACT_META \<noteq> 0,
      omitted_keys = word AND FLAG_OMITTED_KEYS \<noteq> 0\<rparr>"

definition meta_size :: "NodeKind \<Rightarrow> NodeLayout \<Rightarrow> nat \<Rightarrow> nat option" where
  "meta_size k l n =
     (case k of Leaf \<Rightarrow> leaf_meta_size l n | Internal \<Rightarrow> internal_meta_size l n)"

definition page_parse :: "bytes \<Rightarrow> PageView result" where
  "page_parse bs =
     (if length bs < PAGE_PREFIX_LEN then Err corrupt
      else and_then (and_then (read_i32 bs 0) checked_len) (\<lambda>stored_len.
      if stored_len \<noteq> length bs then Err corrupt
      else and_then (read_i32 bs KIND_OFFSET) (\<lambda>word.
      and_then (parse_kind word) (\<lambda>k.
      if word AND FLAG_LEGACY_KEY_DIGESTS \<noteq> 0 then Err corrupt
      else if word AND NOT (KIND_MASK OR KNOWN_FLAGS) \<noteq> 0 then Err corrupt
      else let l = parse_layout word in
      if omitted_keys l \<and> \<not> compact_meta l then Err corrupt
      else if omitted_keys l \<and> eytzinger l then Err corrupt
      else if compact_meta l \<and> stored_len > MAX_COMPACT_PAGE_SIZE then Err corrupt
      else and_then (and_then (read_i32 bs ENTRY_COUNT_OFFSET) checked_len) (\<lambda>count.
      and_then (and_then (read_i64 bs LEFT_SIBLING_OFFSET) ordinal_from_i64) (\<lambda>left.
      and_then (and_then (read_i64 bs RIGHT_SIBLING_OFFSET) ordinal_from_i64) (\<lambda>right.
      and_then (ok_or (digest_area_size l count) corrupt) (\<lambda>digest_area.
      and_then (ok_or (checked_add DIGEST_BASE digest_area) corrupt) (\<lambda>meta.
      if meta > length bs then Err corrupt
      else and_then (ok_or (meta_size k l count) corrupt) (\<lambda>meta_area.
      and_then (ok_or (checked_add meta meta_area) corrupt) (\<lambda>payload.
      if payload > length bs then Err corrupt
      else Ok \<lparr>pv_bytes = bs,
               pv_header = \<lparr>kind = k, layout = l, entry_count = count,
                 left_sibling = left, right_sibling = right\<rparr>,
               meta_base = meta, payload_base = payload\<rparr>)))))))))))"

definition blob_payload :: "PageView \<Rightarrow> bytes" where
  "blob_payload v = drop PAGE_PREFIX_LEN (pv_bytes v)"

subsection \<open>Digests\<close>

definition digest_slot_count :: "PageView \<Rightarrow> nat" where
  "digest_slot_count v = (meta_base v - DIGEST_BASE) div 8"

definition digest_slot :: "PageView \<Rightarrow> nat \<Rightarrow> u64 result" where
  "digest_slot v slot =
     (if digest_slot_count v \<le> slot then Err corrupt
      else read_u64 (pv_bytes v) (DIGEST_BASE + slot * 8))"

definition digest_at :: "PageView \<Rightarrow> nat \<Rightarrow> u64 result" where
  "digest_at v i =
     (if eytzinger (pv_layout v) then Err corrupt
      else if pv_entry_count v \<le> i then Err corrupt
      else read_u64 (pv_bytes v) (DIGEST_BASE + i * 8))"

text \<open>The descent starts at node 1, so the guard \<open>0 < i\<close> holds throughout.\<close>

function eytzinger_descent :: "PageView \<Rightarrow> u64 \<Rightarrow> nat \<Rightarrow> nat \<Rightarrow> nat result" where
  "eytzinger_descent v key complete i =
     (if 0 < i \<and> i \<le> complete then
        and_then (digest_slot v (i - 1)) (\<lambda>d.
          eytzinger_descent v key complete (2 * i + (if d < key then 1 else 0)))
      else Ok i)"
  by pat_completeness auto
termination by (relation "measure (\<lambda>(v, key, complete, i). complete + 1 - i)") auto

function binary_rank :: "PageView \<Rightarrow> u64 \<Rightarrow> nat \<Rightarrow> nat \<Rightarrow> nat result" where
  "binary_rank v key lo hi =
     (if lo < hi then
        (let mid = lo + (hi - lo) div 2 in
         and_then (digest_slot v mid) (\<lambda>d.
           if d < key then binary_rank v key (mid + 1) hi else binary_rank v key lo mid))
      else Ok lo)"
  by pat_completeness auto
termination by (relation "measure (\<lambda>(v, key, lo, hi). hi - lo)") auto

declare eytzinger_descent.simps [simp del] binary_rank.simps [simp del]

definition lower_bound_rank :: "PageView \<Rightarrow> u64 \<Rightarrow> nat result" where
  "lower_bound_rank v key =
     (if eytzinger (pv_layout v) then
        (let complete = digest_slot_count v in
         and_then (eytzinger_descent v key complete 1) (\<lambda>i. Ok (i - complete - 1)))
      else binary_rank v key 0 (pv_entry_count v))"

subsection \<open>Entries\<close>

definition check_index :: "PageView \<Rightarrow> nat \<Rightarrow> unit result" where
  "check_index v i = (if pv_entry_count v \<le> i then Err corrupt else Ok ())"

definition payload_range :: "PageView \<Rightarrow> nat \<Rightarrow> nat \<Rightarrow> unit result" where
  "payload_range v off len =
     (if off < payload_base v then Err corrupt
      else and_then (ok_or (checked_add off len) corrupt) (\<lambda>stop.
      if stop > length (pv_bytes v) then Err corrupt else Ok ()))"

text \<open>Payload offset, key length and value length of a leaf entry, from either kind of
  metadata.\<close>

definition leaf_meta :: "PageView \<Rightarrow> nat \<Rightarrow> (nat \<times> nat \<times> nat) result" where
  "leaf_meta v i =
     (if compact_meta (pv_layout v) then
        and_then (read_u16 (pv_bytes v) (meta_base v + i * 2)) (\<lambda>raw.
        and_then (read_u16 (pv_bytes v) (meta_base v + (i + 1) * 2)) (\<lambda>next.
        let off = raw AND COMPACT_OFFSET_MASK; next_off = next AND COMPACT_OFFSET_MASK in
        and_then (if omitted_keys (pv_layout v) then Ok 0
                  else read_u16 (pv_bytes v)
                         (meta_base v + (pv_entry_count v + 1) * 2 + i * 2)) (\<lambda>key_len.
        if next_off < off then Err corrupt
        else let span = next_off - off in
        if key_len > span then Err corrupt
        else Ok (off, key_len,
                 if raw AND COMPACT_OVERFLOW_BIT \<noteq> 0 then OVERFLOW_SENTINEL
                 else span - key_len))))
      else
        and_then (and_then (read_i32 (pv_bytes v) (meta_base v + i * 8)) checked_len) (\<lambda>off.
        and_then (read_u16 (pv_bytes v) (meta_base v + i * 8 + 4)) (\<lambda>key_len.
        and_then (read_u16 (pv_bytes v) (meta_base v + i * 8 + 6)) (\<lambda>value_len.
        Ok (off, key_len, value_len)))))"

definition leaf_entry :: "PageView \<Rightarrow> nat \<Rightarrow> LeafEntry result" where
  "leaf_entry v i =
     (if pv_kind v \<noteq> Leaf then Err corrupt
      else and_then (check_index v i) (\<lambda>_.
      and_then (leaf_meta v i) (\<lambda>(off, key_len, value_len).
      if omitted_keys (pv_layout v) \<and> key_len \<noteq> 0 then Err corrupt
      else if value_len = OVERFLOW_SENTINEL then
        and_then (payload_range v off (key_len + 8)) (\<lambda>_.
        and_then (and_then (and_then (read_i64 (pv_bytes v) (off + key_len)) ordinal_from_i64)
                   (\<lambda>p. ok_or p corrupt)) (\<lambda>ordinal.
        Ok \<lparr>le_key_offset = off, le_key_len = key_len, le_value = Overflow ordinal\<rparr>))
      else
        and_then (payload_range v off (key_len + value_len)) (\<lambda>_.
        Ok \<lparr>le_key_offset = off, le_key_len = key_len,
            le_value = Inline (off + key_len) value_len\<rparr>))))"

definition internal_meta :: "PageView \<Rightarrow> nat \<Rightarrow> (nat \<times> nat) result" where
  "internal_meta v i =
     (if compact_meta (pv_layout v) then
        (if omitted_keys (pv_layout v) then Ok (meta_base v + i * 8, 0)
         else
           and_then (read_u16 (pv_bytes v) (meta_base v + i * 2)) (\<lambda>raw.
           and_then (read_u16 (pv_bytes v) (meta_base v + (i + 1) * 2)) (\<lambda>next.
           if next < raw + 8 then Err corrupt else Ok (raw, next - raw - 8))))
      else
        and_then (and_then (read_i32 (pv_bytes v) (meta_base v + i * 6)) checked_len) (\<lambda>off.
        and_then (read_u16 (pv_bytes v) (meta_base v + i * 6 + 4)) (\<lambda>key_len.
        Ok (off, key_len))))"

definition internal_entry :: "PageView \<Rightarrow> nat \<Rightarrow> InternalEntry result" where
  "internal_entry v i =
     (if pv_kind v \<noteq> Internal then Err corrupt
      else and_then (check_index v i) (\<lambda>_.
      and_then (internal_meta v i) (\<lambda>(off, key_len).
      if omitted_keys (pv_layout v) \<and> key_len \<noteq> 0 then Err corrupt
      else and_then (payload_range v off (key_len + 8)) (\<lambda>_.
      and_then (and_then (and_then (read_i64 (pv_bytes v) (off + key_len)) ordinal_from_i64)
                 (\<lambda>p. ok_or p corrupt)) (\<lambda>child.
      Ok \<lparr>ie_key_offset = off, ie_key_len = key_len, ie_child = child\<rparr>)))))"

definition leaf_key :: "PageView \<Rightarrow> LeafEntry \<Rightarrow> bytes result" where
  "leaf_key v e = read_slice (pv_bytes v) (le_key_offset e) (le_key_len e)"

definition internal_key :: "PageView \<Rightarrow> InternalEntry \<Rightarrow> bytes result" where
  "internal_key v e = read_slice (pv_bytes v) (ie_key_offset e) (ie_key_len e)"

definition inline_value :: "PageView \<Rightarrow> nat \<Rightarrow> nat \<Rightarrow> bytes result" where
  "inline_value v off len = read_slice (pv_bytes v) off len"

definition page_validate :: "PageView \<Rightarrow> unit result" where
  "page_validate v =
     and_then (case pv_kind v of
         Leaf \<Rightarrow> for_each (\<lambda>i. and_then (leaf_entry v i) (\<lambda>_. Ok ())) [0..<pv_entry_count v]
       | Internal \<Rightarrow>
           for_each (\<lambda>i. and_then (internal_entry v i) (\<lambda>_. Ok ())) [0..<pv_entry_count v])
     (\<lambda>_. if eytzinger (pv_layout v) then
            and_then (ok_or (checked_mul (complete_size (pv_entry_count v)) 8) corrupt) (\<lambda>len.
            and_then (ok_or (checked_add DIGEST_BASE len) corrupt) (\<lambda>stop.
            if stop > length (pv_bytes v) then Err corrupt else Ok ()))
          else Ok ())"

subsection \<open>The slot count of a complete tree\<close>

lemma complete_size_loop:
  fixes target :: nat
  defines "m \<equiv> while (\<lambda>m. m < target \<and> (2 * m) mod 2 ^ 64 \<noteq> 0) (\<lambda>m. (2 * m) mod 2 ^ 64) (1::nat)"
  shows "\<exists>k<64. m = 2 ^ k \<and> (k = 0 \<or> 2 ^ (k - 1) < target) \<and> (m < target \<longrightarrow> k = 63)"
proof -
  have step: "(2 * 2 ^ k) mod (2::nat) ^ 64 = (if k = 63 then 0 else 2 ^ Suc k)" if "k < 64" for k
  proof (cases "k = 63")
    case False
    with that have "Suc k < 64" by simp
    then have "(2::nat) ^ Suc k < 2 ^ 64" by (rule power_strict_increasing) simp
    with False show ?thesis by simp
  qed simp
  have "\<exists>k<64. m = 2 ^ k \<and> (k = 0 \<or> 2 ^ (k - 1) < target) \<and> \<not> (m < target \<and> (2 * m) mod 2 ^ 64 \<noteq> 0)"
    unfolding m_def
  proof (rule while_rule [where P = "\<lambda>m. \<exists>k<64. m = 2 ^ k \<and> (k = 0 \<or> 2 ^ (k - 1) < target)"
        and r = "measure (\<lambda>m. 2 ^ 64 - m)"])
    show "\<exists>k<64. (1::nat) = 2 ^ k \<and> (k = 0 \<or> 2 ^ (k - 1) < target)" by (intro exI [of _ 0]) simp
  next
    fix s :: nat
    assume P: "\<exists>k<64. s = 2 ^ k \<and> (k = 0 \<or> 2 ^ (k - 1) < target)"
      and c: "s < target \<and> (2 * s) mod 2 ^ 64 \<noteq> 0"
    then obtain k where k: "k < 64" "s = 2 ^ k" by auto
    with c step have "k \<noteq> 63" by auto
    with k have k': "Suc k < 64" and s': "(2 * s) mod 2 ^ 64 = 2 ^ Suc k"
      using step [OF k(1)] by simp_all
    with c k show "\<exists>k<64. (2 * s) mod 2 ^ 64 = 2 ^ k \<and> (k = 0 \<or> 2 ^ (k - 1) < target)"
      by (intro exI [of _ "Suc k"]) simp
    have "s < 2 ^ 64" unfolding k(2) by (rule power_strict_increasing [OF k(1)]) simp
    moreover have "0 < s" using k(2) by simp
    ultimately have "2 ^ 64 - (2 * s) < 2 ^ 64 - s" by linarith
    then show "((2 * s) mod 2 ^ 64, s) \<in> measure (\<lambda>m. 2 ^ 64 - m)" using s' k(2) by simp
  qed auto
  then obtain k where "k < 64" "m = 2 ^ k" "k = 0 \<or> 2 ^ (k - 1) < target"
    "\<not> (m < target \<and> (2 * m) mod 2 ^ 64 \<noteq> 0)" by blast
  then show ?thesis using step [of k] by (intro exI [of _ k]) (auto split: if_splits)
qed

lemma complete_size_least:
  assumes "n \<le> usize_max"
  obtains k where "complete_size n = 2 ^ k - 1" "n \<le> 2 ^ k - 1" "k = 0 \<or> 2 ^ (k - 1) - 1 < n" "k \<le> 64"
proof -
  let ?t = "saturating_add n 1"
  let ?m = "while (\<lambda>m. m < ?t \<and> (2 * m) mod 2 ^ 64 \<noteq> 0) (\<lambda>m. (2 * m) mod 2 ^ 64) (1::nat)"
  obtain k where k: "k < 64" "?m = 2 ^ k" "k = 0 \<or> 2 ^ (k - 1) < ?t" "?m < ?t \<longrightarrow> k = 63"
    using complete_size_loop [of ?t] by blast
  show ?thesis
  proof (cases "?m < ?t")
    case True
    then have "complete_size n = 2 ^ 64 - 1" "2 ^ 63 < ?t"
      using k by (simp_all add: complete_size_def usize_max_def)
    then show ?thesis using assms that [of 64] by (simp add: saturating_add_def usize_max_def)
  next
    case False
    then have c: "complete_size n = 2 ^ k - 1" "?t \<le> 2 ^ k"
      using k(2) by (simp_all add: complete_size_def)
    show ?thesis
    proof (cases "n = usize_max")
      case True
      have "(2::nat) ^ k \<le> 2 ^ 63" using k(1) by (intro power_increasing) auto
      with c True show ?thesis by (simp add: saturating_add_def usize_max_def)
    next
      case False
      with assms have t: "?t = Suc n" by (simp add: saturating_add_def)
      moreover have "0 < (2::nat) ^ (k - 1)" by simp
      ultimately show ?thesis using c k by (intro that [of k]) linarith+
    qed
  qed
qed

lemma complete_size_ge: "n \<le> usize_max \<Longrightarrow> n \<le> complete_size n"
  by (rule complete_size_least) auto

subsection \<open>In-order traversal of a complete tree\<close>

function in_nodes :: "nat \<Rightarrow> nat \<Rightarrow> nat list" where
  "in_nodes complete i =
     (if 0 < i \<and> i \<le> complete
      then in_nodes complete (2 * i) @ [i] @ in_nodes complete (2 * i + 1) else [])"
  by pat_completeness auto
termination by (relation "measure (\<lambda>(complete, i). complete + 1 - i)") auto

declare in_nodes.simps [simp del]

definition at_height :: "nat \<Rightarrow> nat \<Rightarrow> nat \<Rightarrow> bool" where
  "at_height k h i \<longleftrightarrow> h \<le> k \<and> 2 ^ (k - h) \<le> i \<and> i < 2 ^ (k - h + 1)"

lemma at_height_root: "at_height k k 1"
  by (simp add: at_height_def)

lemma at_height_pos: "at_height k h i \<Longrightarrow> 0 < i"
  by (auto simp: at_height_def intro: gr0I)

lemma at_height_0: "Suc n = 2 ^ k \<Longrightarrow> at_height k 0 i \<Longrightarrow> \<not> i \<le> n"
  by (auto simp: at_height_def)

lemma at_height_Suc:
  assumes "Suc n = 2 ^ k" "at_height k (Suc h) i"
  shows "i \<le> n" "at_height k h (2 * i)" "at_height k h (Suc (2 * i))"
proof -
  from assms have h: "Suc h \<le> k" "2 ^ (k - Suc h) \<le> i" "i < 2 ^ (k - Suc h + 1)"
    by (auto simp: at_height_def)
  have e: "k - h = Suc (k - Suc h)" using h(1) by simp
  have "(2::nat) ^ (k - h) \<le> 2 ^ k" by (rule power_increasing) auto
  then show "i \<le> n" using h(3) e assms(1) by simp
  show "at_height k h (2 * i)" "at_height k h (Suc (2 * i))"
    using h e by (auto simp: at_height_def)
qed

lemma in_nodes_0: "Suc n = 2 ^ k \<Longrightarrow> at_height k 0 i \<Longrightarrow> in_nodes n i = []"
  using at_height_0 [of n k i] by (subst in_nodes.simps) simp

lemma in_nodes_Suc:
  "Suc n = 2 ^ k \<Longrightarrow> at_height k (Suc h) i \<Longrightarrow>
   in_nodes n i = in_nodes n (2 * i) @ [i] @ in_nodes n (Suc (2 * i))"
  using at_height_Suc(1) [of n k h i] at_height_pos [of k "Suc h" i]
  by (subst in_nodes.simps) simp

lemma length_in_nodes:
  assumes n: "Suc n = 2 ^ k" shows "at_height k h i \<Longrightarrow> Suc (length (in_nodes n i)) = 2 ^ h"
proof (induction h arbitrary: i)
  case (Suc h)
  note c = at_height_Suc [OF n Suc.prems]
  from Suc.IH [OF c(2)] Suc.IH [OF c(3)] show ?case by (simp add: in_nodes_Suc [OF n Suc.prems])
qed (simp add: in_nodes_0 n)

lemma set_in_nodes: "set (in_nodes n i) \<subseteq> {1..n}"
  by (induction n i rule: in_nodes.induct) (subst in_nodes.simps, auto)


subsection \<open>Ranks\<close>

text \<open>
  What a bisection establishes whether or not its input is sorted: the entry before the
  rank is below the key and the entry at the rank is not.  On a sorted list that is the
  number of entries below the key.
\<close>

definition is_rank :: "u64 list \<Rightarrow> u64 \<Rightarrow> nat \<Rightarrow> bool" where
  "is_rank ds key r \<longleftrightarrow> r \<le> length ds \<and> (0 < r \<longrightarrow> ds ! (r - 1) < key)
     \<and> (r < length ds \<longrightarrow> key \<le> ds ! r)"

lemma is_rank_left: "is_rank xs key r \<Longrightarrow> key \<le> y \<Longrightarrow> is_rank (xs @ y # zs) key r"
  by (auto simp: is_rank_def nth_append)

lemma is_rank_right:
  "is_rank zs key r \<Longrightarrow> y < key \<Longrightarrow> is_rank (xs @ y # zs) key (Suc (length xs + r))"
  by (cases r) (auto simp: is_rank_def nth_append)

lemma sorted_prefix_filter:
  "sorted ds \<Longrightarrow> r \<le> length ds \<Longrightarrow> (0 < r \<longrightarrow> ds ! (r - 1) < key) \<Longrightarrow>
   (r < length ds \<longrightarrow> key \<le> ds ! r) \<Longrightarrow> filter (\<lambda>d. d < key) ds = take r ds"
proof (induction ds arbitrary: r)
  case (Cons d ds)
  show ?case
  proof (cases r)
    case 0
    with Cons.prems show ?thesis by (auto simp: filter_empty_conv)
  next
    case (Suc q)
    have "d < key"
    proof (cases q)
      case (Suc p)
      with Cons.prems \<open>r = Suc q\<close> have "ds ! p < key" "p < length ds" "d \<le> ds ! p" by auto
      then show ?thesis by simp
    qed (use Cons.prems \<open>r = Suc q\<close> in auto)
    moreover have "filter (\<lambda>d. d < key) ds = take q ds"
      using Cons.prems Suc by (intro Cons.IH) (auto split: nat.splits)
    ultimately show ?thesis using Suc by simp
  qed
qed simp

lemma sorted_is_rank:
  assumes "sorted ds" "is_rank ds key r"
  shows "r = length (filter (\<lambda>d. d < key) ds)"
  using sorted_prefix_filter [OF assms(1), of r key] assms(2) by (simp add: is_rank_def)

subsection \<open>What a parsed page guarantees\<close>

definition view_wf :: "PageView \<Rightarrow> bool" where
  "view_wf v \<longleftrightarrow>
     (let l = pv_layout v; n = pv_entry_count v; len = length (pv_bytes v) in
      PAGE_PREFIX_LEN \<le> len \<and> len < 2 ^ 31 \<and> n \<le> usize_max
      \<and> (omitted_keys l \<longrightarrow> compact_meta l \<and> \<not> eytzinger l)
      \<and> (compact_meta l \<longrightarrow> len \<le> MAX_COMPACT_PAGE_SIZE)
      \<and> meta_base v = DIGEST_BASE + 8 * digest_slots l n
      \<and> meta_size (pv_kind v) l n = Some (payload_base v - meta_base v)
      \<and> meta_base v \<le> payload_base v \<and> payload_base v \<le> len)"

lemma page_parse_elim:
  assumes "page_parse bs = Ok v"
  obtains word where
   "pv_bytes v = bs" "PAGE_PREFIX_LEN \<le> length bs"  "read_i32 bs 0 = Ok (int (length bs))"
   "read_i32 bs KIND_OFFSET = Ok word" "parse_kind word = Ok (pv_kind v)"
   "pv_layout v = parse_layout word"
   "omitted_keys (pv_layout v) \<longrightarrow> compact_meta (pv_layout v) \<and> \<not> eytzinger (pv_layout v)"
   "compact_meta (pv_layout v) \<longrightarrow> length bs \<le> MAX_COMPACT_PAGE_SIZE"
   "read_i32 bs ENTRY_COUNT_OFFSET = Ok (int (pv_entry_count v))"
   "and_then (read_i64 bs LEFT_SIBLING_OFFSET) ordinal_from_i64 = Ok (left_sibling (pv_header v))"
   "and_then (read_i64 bs RIGHT_SIBLING_OFFSET) ordinal_from_i64 = Ok (right_sibling (pv_header v))"
   "meta_base v = DIGEST_BASE + 8 * digest_slots (pv_layout v) (pv_entry_count v)"
   "meta_size (pv_kind v) (pv_layout v) (pv_entry_count v) = Some (payload_base v - meta_base v)"
   "meta_base v \<le> payload_base v" "payload_base v \<le> length bs"
proof -
  from assms obtain stored word k count left right area where f:
    "PAGE_PREFIX_LEN \<le> length bs" "read_i32 bs 0 = Ok stored" "0 \<le> stored"
    "length bs = nat stored" "read_i32 bs KIND_OFFSET = Ok word" "parse_kind word = Ok k"
    "\<not> (omitted_keys (parse_layout word) \<and> \<not> compact_meta (parse_layout word))"
    "\<not> (omitted_keys (parse_layout word) \<and> eytzinger (parse_layout word))"
    "\<not> (compact_meta (parse_layout word) \<and> nat stored > MAX_COMPACT_PAGE_SIZE)"
    "read_i32 bs ENTRY_COUNT_OFFSET = Ok count" "0 \<le> count"
    "and_then (read_i64 bs LEFT_SIBLING_OFFSET) ordinal_from_i64 = Ok left"
    "and_then (read_i64 bs RIGHT_SIBLING_OFFSET) ordinal_from_i64 = Ok right"
    "meta_size k (parse_layout word) (nat count) = Some area"
    and p: "DIGEST_BASE + digest_slots (parse_layout word) (nat count) * 8 + area \<le> length bs"
    and v: "v = \<lparr>pv_bytes = bs, pv_header = \<lparr>kind = k, layout = parse_layout word,
        entry_count = nat count, left_sibling = left, right_sibling = right\<rparr>,
      meta_base = DIGEST_BASE + digest_slots (parse_layout word) (nat count) * 8,
      payload_base = DIGEST_BASE + digest_slots (parse_layout word) (nat count) * 8 + area\<rparr>"
    unfolding page_parse_def Let_def digest_area_size_def
    by (auto simp: not_less)
  show ?thesis by (rule that [of word]) (use f p v in auto)
qed

lemma page_parse_wf:
  assumes "page_parse bs = Ok v"
  shows "view_wf v \<and> pv_bytes v = bs"
  using assms
  by (rule page_parse_elim) (auto simp: view_wf_def Let_def usize_max_def dest!: read_i32_range)

subsection \<open>Reading digests\<close>

definition digests :: "PageView \<Rightarrow> u64 list" where
  "digests v = map (\<lambda>i. word_of_nat (le_nat (slice (pv_bytes v) (DIGEST_BASE + i * 8) 8)))
     [0..<digest_slot_count v]"

lemma length_digests [simp]: "length (digests v) = digest_slot_count v"
  by (simp add: digests_def)

lemma digest_slot_count_wf: "view_wf v \<Longrightarrow> digest_slot_count v = digest_slots (pv_layout v) (pv_entry_count v)"
  by (simp add: view_wf_def digest_slot_count_def Let_def)

lemma digest_slot_wf:
  assumes "view_wf v"
  shows "digest_slot v i = (if i < digest_slot_count v then Ok (digests v ! i) else Err corrupt)"
proof (cases "i < digest_slot_count v")
  case True
  then have "DIGEST_BASE + i * 8 + 8 \<le> meta_base v"
    by (auto simp: digest_slot_count_def)
  with assms have "fits (pv_bytes v) (DIGEST_BASE + i * 8) 8"
    by (auto simp: fits_def view_wf_def Let_def usize_max_def)
  with True show ?thesis by (simp add: digest_slot_def digests_def read_Ok_iff)
qed (simp add: digest_slot_def)

lemma digest_slot_in: "view_wf v \<Longrightarrow> i < digest_slot_count v \<Longrightarrow> digest_slot v i = Ok (digests v ! i)"
  by (simp add: digest_slot_wf)

lemma binary_rank_spec:
  assumes "view_wf v" "lo \<le> hi" "hi \<le> digest_slot_count v"
    "0 < lo \<longrightarrow> digests v ! (lo - 1) < key" "hi < n \<longrightarrow> key \<le> digests v ! hi"
  shows "\<exists>r. binary_rank v key lo hi = Ok r \<and> lo \<le> r \<and> r \<le> hi
    \<and> (0 < r \<longrightarrow> digests v ! (r - 1) < key) \<and> (r < n \<longrightarrow> key \<le> digests v ! r)"
  using assms
proof (induction v key lo hi rule: binary_rank.induct)
  case (1 v key lo hi)
  show ?case
  proof (cases "lo < hi")
    case True
    define mid where "mid = lo + (hi - lo) div 2"
    have m: "lo \<le> mid" "mid < hi" using True by (auto simp: mid_def)
    then have d: "digest_slot v mid = Ok (digests v ! mid)" using "1.prems" by (intro digest_slot_in) auto
    show ?thesis
    proof (cases "digests v ! mid < key")
      case True
      from "1.IH"(1) [OF \<open>lo < hi\<close> mid_def d True] "1.prems" m True
      obtain r where "binary_rank v key (mid + 1) hi = Ok r" "mid + 1 \<le> r" "r \<le> hi"
        "0 < r \<longrightarrow> digests v ! (r - 1) < key" "r < n \<longrightarrow> key \<le> digests v ! r" by auto
      then show ?thesis using \<open>lo < hi\<close> d True m
        by (subst binary_rank.simps) (simp add: mid_def [symmetric])
    next
      case False
      then have "mid < n \<longrightarrow> key \<le> digests v ! mid" by (simp add: not_less)
      with "1.IH"(2) [OF \<open>lo < hi\<close> mid_def d False "1.prems"(1) m(1) _ "1.prems"(4)]
        "1.prems"(3) m(2)
      obtain r where "binary_rank v key lo mid = Ok r" "lo \<le> r" "r \<le> mid"
        "0 < r \<longrightarrow> digests v ! (r - 1) < key" "r < n \<longrightarrow> key \<le> digests v ! r" by auto
      then show ?thesis using \<open>lo < hi\<close> d False m
        by (subst binary_rank.simps) (simp add: mid_def [symmetric])
    qed
  next
    case False
    with "1.prems" show ?thesis by (subst binary_rank.simps) auto
  qed
qed

lemma eytzinger_descent_spec:
  assumes v: "view_wf v" and n: "Suc n = 2 ^ k" "n = digest_slot_count v"
  shows "at_height k h i \<Longrightarrow>
    \<exists>r. eytzinger_descent v key n i = Ok (i * 2 ^ h + r)
      \<and> is_rank (map (\<lambda>j. digests v ! (j - 1)) (in_nodes n i)) key r"
proof (induction h arbitrary: i)
  case 0
  with n at_height_0 [OF n(1)] show ?case
    by (subst eytzinger_descent.simps) (auto simp: in_nodes_0 is_rank_def)
next
  case (Suc h)
  note c = at_height_Suc [OF n(1) Suc.prems]
  let ?E = "\<lambda>i. map (\<lambda>j. digests v ! (j - 1)) (in_nodes n i)"
  let ?d = "digests v ! (i - 1)"
  have pos: "0 < i" by (rule at_height_pos [OF Suc.prems])
  then have d: "digest_slot v (i - 1) = Ok ?d" using c(1) n(2) by (intro digest_slot_in v) auto
  have len: "Suc (length (?E (2 * i))) = 2 ^ h" using length_in_nodes [OF n(1) c(2)] by simp
  have E: "?E i = ?E (2 * i) @ ?d # ?E (Suc (2 * i))" by (simp add: in_nodes_Suc [OF n(1) Suc.prems])
  show ?case
  proof (cases "?d < key")
    case True
    obtain r where r: "eytzinger_descent v key n (Suc (2 * i)) = Ok (Suc (2 * i) * 2 ^ h + r)"
      "is_rank (?E (Suc (2 * i))) key r" using Suc.IH [OF c(3)] by blast
    have "eytzinger_descent v key n i = Ok (i * 2 ^ Suc h + (2 ^ h + r))"
      using True d pos c(1) r(1) by (subst eytzinger_descent.simps) (simp add: algebra_simps)
    moreover have "is_rank (?E i) key (2 ^ h + r)"
      using is_rank_right [OF r(2) True, of "?E (2 * i)"] len unfolding E by (simp flip: len)
    ultimately show ?thesis by blast
  next
    case False
    obtain r where r: "eytzinger_descent v key n (2 * i) = Ok (2 * i * 2 ^ h + r)"
      "is_rank (?E (2 * i)) key r" using Suc.IH [OF c(2)] by blast
    have "eytzinger_descent v key n i = Ok (i * 2 ^ Suc h + r)"
      using False d pos c(1) r(1) by (subst eytzinger_descent.simps) (simp add: algebra_simps)
    moreover have "is_rank (?E i) key r"
      using is_rank_left [OF r(2), of ?d] False unfolding E by (simp add: not_less)
    ultimately show ?thesis by blast
  qed
qed

subsection \<open>Rank search and entry access\<close>

definition inorder_digests :: "PageView \<Rightarrow> u64 list" where
  "inorder_digests v =
     (if eytzinger (pv_layout v)
      then map (\<lambda>j. digests v ! (j - 1)) (in_nodes (digest_slot_count v) 1) else digests v)"

lemma complete_slots:
  assumes "view_wf v" "eytzinger (pv_layout v)"
  obtains k where "Suc (digest_slot_count v) = 2 ^ k"
proof -
  have "pv_entry_count v \<le> usize_max" using assms(1) by (simp add: view_wf_def Let_def)
  then obtain k where "complete_size (pv_entry_count v) = 2 ^ k - 1" by (rule complete_size_least)
  then show ?thesis using assms that [of k] by (simp add: digest_slot_count_wf digest_slots_def)
qed

lemma length_inorder_digests:
  assumes "view_wf v" shows "length (inorder_digests v) = digest_slot_count v"
proof (cases "eytzinger (pv_layout v)")
  case True
  then obtain k where k: "Suc (digest_slot_count v) = 2 ^ k" using complete_slots assms by blast
  from length_in_nodes [OF k at_height_root] k True show ?thesis by (simp add: inorder_digests_def)
qed (simp add: inorder_digests_def)

lemma lower_bound_rank_is_rank:
  assumes "view_wf v"
  shows "\<exists>r. lower_bound_rank v key = Ok r \<and> is_rank (inorder_digests v) key r"
proof (cases "eytzinger (pv_layout v)")
  case True
  then obtain k where k: "Suc (digest_slot_count v) = 2 ^ k" using complete_slots assms by blast
  from eytzinger_descent_spec [OF assms k refl at_height_root, of key] True k
  show ?thesis by (auto simp: lower_bound_rank_def inorder_digests_def Let_def)
next
  case False
  then have n: "pv_entry_count v = digest_slot_count v"
    using assms by (simp add: digest_slot_count_wf digest_slots_def)
  from binary_rank_spec [OF assms, of 0 "digest_slot_count v" key "digest_slot_count v"] False n
  show ?thesis by (auto simp: lower_bound_rank_def inorder_digests_def is_rank_def)
qed

lemma payload_range_Ok_iff:
  "payload_range v off len = Inr u \<longleftrightarrow>
     payload_base v \<le> off \<and> off + len \<le> length (pv_bytes v) \<and> off + len \<le> usize_max"
  by (auto simp: payload_range_def)

lemma leaf_entry_bounds:
  assumes "leaf_entry v i = Ok e"
  shows "pv_kind v = Leaf" "i < pv_entry_count v" "payload_base v \<le> le_key_offset e"
    "fits (pv_bytes v) (le_key_offset e) (le_key_len e)"
    "\<And>off len. le_value e = Inline off len \<Longrightarrow>
       off = le_key_offset e + le_key_len e \<and> fits (pv_bytes v) off len"
    "omitted_keys (pv_layout v) \<Longrightarrow> le_key_len e = 0"
  using assms
  by (auto simp: leaf_entry_def check_index_def payload_range_Ok_iff fits_def split: if_splits)

lemma internal_entry_bounds:
  assumes "internal_entry v i = Ok e"
  shows "pv_kind v = Internal" "i < pv_entry_count v" "payload_base v \<le> ie_key_offset e"
    "fits (pv_bytes v) (ie_key_offset e) (ie_key_len e)"
    "omitted_keys (pv_layout v) \<Longrightarrow> ie_key_len e = 0"
  using assms
  by (auto simp: internal_entry_def check_index_def payload_range_Ok_iff fits_def)

lemma page_validate_entries:
  assumes "page_validate v = Ok ()" "i < pv_entry_count v"
  shows "pv_kind v = Leaf \<Longrightarrow> \<exists>e. leaf_entry v i = Ok e"
    "pv_kind v = Internal \<Longrightarrow> \<exists>e. internal_entry v i = Ok e"
  using assms by (auto simp: page_validate_def for_each_Ok_iff)

subsection \<open>A concrete page\<close>

text \<open>A two entry Eytzinger leaf, used to exercise the statements below.\<close>

definition sample_leaf :: bytes where
  "sample_leaf = [68, 0, 0, 0,  0, 2, 0, 0,  2, 0, 0, 0] @ [255, 255, 255, 255, 255, 255, 255, 255,
     255, 255, 255, 255, 255, 255, 255, 255]
     @ [20, 0, 0, 0, 0, 0, 0, 0,  10, 0, 0, 0, 0, 0, 0, 0] @ [255, 255, 255, 255, 255, 255, 255, 255]
     @ [68, 0, 0, 0, 0, 0, 0, 0,  68, 0, 0, 0, 0, 0, 0, 0]"

definition sample_view :: PageView where
  "sample_view = \<lparr>pv_bytes = sample_leaf,
     pv_header = \<lparr>kind = Leaf,
       layout = \<lparr>eytzinger = True, compact_meta = False, omitted_keys = False\<rparr>,
       entry_count = 2, left_sibling = None, right_sibling = None\<rparr>,
     meta_base = 52, payload_base = 68\<rparr>"


lemmas page_eval = page_parse_def parse_kind_def parse_layout_def flag_defs format_consts Let_def
  read_u16_def read_i32_def read_i64_def read_u64_def read_le_cases fits_def usize_max_def slice_def
  to_signed_def checked_len_def ordinal_from_i64_def digest_area_size_def digest_slots_def
  meta_size_def leaf_meta_size_def internal_meta_size_def checked_add_def checked_mul_def
  digest_slot_def digest_slot_count_def check_index_def payload_range_def

lemma complete_size_2: "complete_size 2 = 3"
  by (simp add: complete_size_def saturating_add_def usize_max_def while_unfold)


lemma sample_parse: "page_parse sample_leaf = Ok sample_view"
  by (simp add: sample_leaf_def sample_view_def page_eval complete_size_2)

lemma sample_inorder: "inorder_digests sample_view = [10, 20, -1]"
  by (simp add: sample_leaf_def sample_view_def page_eval inorder_digests_def digests_def
      in_nodes.simps upt_rec)

lemma sample_validate: "page_validate sample_view = Ok ()"
  by (simp add: sample_leaf_def sample_view_def page_eval complete_size_2 page_validate_def upt_rec
      leaf_entry_def leaf_meta_def)

subsection \<open>Properties\<close>

text \<open>C11: on a parsed page whose digests are sorted, in array order or in the in-order
  sequence of the Eytzinger tree, the rank search succeeds and returns the number of
  digests strictly below the searched one.\<close>

theorem lower_bound_rank_counts:
  assumes "page_parse bs = Ok v" "sorted (inorder_digests v)"
  shows "lower_bound_rank v key = Ok (length (filter (\<lambda>d. d < key) (inorder_digests v)))"
  using lower_bound_rank_is_rank [OF conjunct1 [OF page_parse_wf [OF assms(1)]], of key]
    sorted_is_rank [OF assms(2)] by auto

theorem lower_bound_rank_counts_witness:
  "page_parse sample_leaf = Ok sample_view \<and> sorted (inorder_digests sample_view)
   \<and> lower_bound_rank sample_view 15 = Ok 1"
  using sample_parse lower_bound_rank_counts [OF sample_parse, of 15] by (simp add: sample_inorder)

text \<open>C12: after \<open>PageView::parse\<close> and \<open>validate\<close> accept a page, every entry decodes, its
  key bytes can be read and lie in the payload area, and an inline value lies inside the
  page directly after its key.\<close>

theorem validated_entries_readable:
  assumes "page_parse bs = Ok v" "page_validate v = Ok ()" "i < pv_entry_count v"
  shows "case pv_kind v of
      Leaf \<Rightarrow> \<exists>e. leaf_entry v i = Ok e \<and> payload_base v \<le> le_key_offset e
        \<and> leaf_key v e = Ok (slice bs (le_key_offset e) (le_key_len e))
        \<and> le_key_offset e + le_key_len e \<le> length bs
        \<and> (case le_value e of
             Inline off len \<Rightarrow> off = le_key_offset e + le_key_len e \<and> off + len \<le> length bs
               \<and> inline_value v off len = Ok (slice bs off len)
           | Overflow p \<Rightarrow> True)
    | Internal \<Rightarrow> \<exists>e. internal_entry v i = Ok e \<and> payload_base v \<le> ie_key_offset e
        \<and> internal_key v e = Ok (slice bs (ie_key_offset e) (ie_key_len e))
        \<and> ie_key_offset e + ie_key_len e \<le> length bs"
proof (cases "pv_kind v")
  case Leaf
  then obtain e where e: "leaf_entry v i = Ok e" using page_validate_entries assms by blast
  show ?thesis using Leaf e leaf_entry_bounds [OF e] page_parse_wf [OF assms(1)]
    by (auto simp: leaf_key_def inline_value_def read_slice_Ok_iff fits_def split: LeafValue.split)
next
  case Internal
  then obtain e where e: "internal_entry v i = Ok e" using page_validate_entries assms by blast
  show ?thesis using Internal e internal_entry_bounds [OF e] page_parse_wf [OF assms(1)]
    by (auto simp: internal_key_def read_slice_Ok_iff fits_def)
qed

theorem validated_entries_readable_witness:
  "\<exists>e. leaf_entry sample_view 1 = Ok e \<and> payload_base sample_view \<le> le_key_offset e
     \<and> leaf_key sample_view e = Ok (slice sample_leaf (le_key_offset e) (le_key_len e))"
  using validated_entries_readable [OF sample_parse sample_validate, of 1]
  by (auto simp: sample_view_def)

text \<open>C20: \<open>complete_size\<close> returns the smallest number of the form \<open>2 ^ k - 1\<close> that is at
  least its argument, for every \<open>usize\<close>.\<close>

theorem complete_size_is_least:
  assumes "n \<le> usize_max"
  shows "complete_size n = (LEAST m. n \<le> m \<and> (\<exists>k. m = 2 ^ k - 1))"
proof -
  obtain k where k: "complete_size n = 2 ^ k - 1" "n \<le> 2 ^ k - 1" "k = 0 \<or> 2 ^ (k - 1) - 1 < n"
    using assms by (rule complete_size_least)
  have "2 ^ k - 1 \<le> m" if m: "n \<le> m" "m = 2 ^ j - 1" for m j :: nat
  proof (rule ccontr)
    assume "\<not> 2 ^ k - 1 \<le> m"
    with m have "(2::nat) ^ j < 2 ^ k" by linarith
    then have "j \<le> k - 1" "k \<noteq> 0" by (simp_all add: power_strict_increasing_iff less_imp_le)
    then have "(2::nat) ^ j \<le> 2 ^ (k - 1)" by (intro power_increasing) auto
    with k(3) m \<open>k \<noteq> 0\<close> show False by linarith
  qed
  with k(1,2) show ?thesis by (intro Least_equality [symmetric]) auto
qed

theorem complete_size_is_least_witness:
  "(5::nat) \<le> usize_max \<and> complete_size 5 = (LEAST m. 5 \<le> m \<and> (\<exists>k. m = 2 ^ k - 1))"
  using complete_size_is_least [of 5] by (simp add: usize_max_def)

end
