(* ===== verification/Encoding.thy ===== *)
theory Encoding
  imports Format
begin

text \<open>
  Key encodings (\<^verbatim>\<open>crates/drydb/src/encoding.rs\<close>).  The trait \<open>KeyEncoding\<close> is a record of
  functions; the trait's default methods are definitions that the built-in instances use
  where the source does not override them.  The locale \<open>lawful_encoding\<close> states the
  contract of the module comment, a total order with an order-preserving digest, and is
  interpreted for every built-in encoding and for the composite keys of non-unique
  indexes.  Text is a list of UTF-8 bytes.
\<close>

type_synonym str = bytes

definition str_of :: "string \<Rightarrow> str" where
  "str_of cs = map (\<lambda>c. word_of_nat (of_char c)) cs"

record KeyEncoding =
  enc_id :: str
  compare :: "bytes \<Rightarrow> bytes \<Rightarrow> ordering result"
  digest :: "bytes \<Rightarrow> u64 result"
  is_digest_exact :: bool
  accepts_digest :: "bytes \<Rightarrow> u64 \<Rightarrow> bool result"
  decode_key_from_digest :: "u64 \<Rightarrow> bytes \<Rightarrow> bytes result"
  fixed_key_len :: "nat option"
  max_rebuilt_key_len :: "nat option"
  is_byte_lexicographic :: bool
  validate_key :: "bytes \<Rightarrow> unit result"
  format_key :: "bytes \<Rightarrow> str"
  parse_key :: "str \<Rightarrow> bytes result"

subsection \<open>Default methods\<close>

definition default_accepts_digest :: "(bytes \<Rightarrow> u64 result) \<Rightarrow> bytes \<Rightarrow> u64 \<Rightarrow> bool result" where
  "default_accepts_digest dig key stored = and_then (dig key) (\<lambda>d. Ok (d = stored))"

text \<open>Decoding takes the old contents of the \<open>out\<close> vector and returns the new ones.\<close>

definition default_decode_key_from_digest :: "u64 \<Rightarrow> bytes \<Rightarrow> bytes result" where
  "default_decode_key_from_digest d out = Err (error_new Unsupported)"

definition default_validate_key :: "nat option \<Rightarrow> bytes \<Rightarrow> unit result" where
  "default_validate_key fixed key =
     (case fixed of
        Some len \<Rightarrow> if length key \<noteq> len then Err invalid else Ok ()
      | None \<Rightarrow> Ok ())"

text \<open>\<open>{b:02x}\<close>: two lowercase hex digits.\<close>

definition hex_char :: "nat \<Rightarrow> byte" where
  "hex_char n = (if n < 10 then word_of_nat (48 + n) else word_of_nat (87 + n))"

definition hex_byte :: "byte \<Rightarrow> str" where
  "hex_byte b = [hex_char (unat b div 16), hex_char (unat b mod 16)]"

definition default_format_key :: "bytes \<Rightarrow> str" where
  "default_format_key key = concat (map hex_byte key)"

definition hex_digit :: "byte \<Rightarrow> byte result" where
  "hex_digit b =
     (if 0x30 \<le> b \<and> b \<le> 0x39 then Ok (b - 0x30)
      else if 0x61 \<le> b \<and> b \<le> 0x66 then Ok (b - 0x61 + 10)
      else if 0x41 \<le> b \<and> b \<le> 0x46 then Ok (b - 0x41 + 10)
      else Err invalid)"

fun parse_hex_pairs :: "str \<Rightarrow> bytes result" where
  "parse_hex_pairs (a # b # rest) =
     and_then (hex_digit a) (\<lambda>hi. and_then (hex_digit b) (\<lambda>lo.
     and_then (parse_hex_pairs rest) (\<lambda>out. Ok ((push_bit 4 hi OR lo) # out))))"
| "parse_hex_pairs _ = Ok []"

definition parse_hex_key :: "str \<Rightarrow> bytes result" where
  "parse_hex_key t = (if length t mod 2 \<noteq> 0 then Err invalid else parse_hex_pairs t)"

definition need_len :: "bytes \<Rightarrow> nat \<Rightarrow> unit result" where
  "need_len key len = (if length key \<noteq> len then Err corrupt else Ok ())"

subsection \<open>Text helpers of the standard library\<close>

text \<open>\<open>str::trim\<close> removes the characters with the Unicode property \<open>White_Space\<close>, listed
  here by their UTF-8 encodings.\<close>

definition white_space :: "str list" where
  "white_space =
     map (\<lambda>c. [c]) [9, 10, 11, 12, 13, 32]
     @ [[0xC2, 0x85], [0xC2, 0xA0], [0xE1, 0x9A, 0x80]]
     @ map (\<lambda>c. [0xE2, 0x80, c]) [0x80, 0x81, 0x82, 0x83, 0x84, 0x85, 0x86, 0x87, 0x88, 0x89, 0x8A,
                                 0xA8, 0xA9, 0xAF]
     @ [[0xE2, 0x81, 0x9F], [0xE3, 0x80, 0x80]]"

definition white_prefix :: "str list \<Rightarrow> str \<Rightarrow> nat option" where
  "white_prefix ws t =
     map_option length (find (\<lambda>w. w \<noteq> [] \<and> take (length w) t = w) ws)"

lemma white_prefix_pos: "white_prefix ws t = Some n \<Longrightarrow> 0 < n \<and> n \<le> length t"
  by (auto simp: white_prefix_def find_Some_iff dest: arg_cong [where f = length])

function trim_start :: "str list \<Rightarrow> str \<Rightarrow> str" where
  "trim_start ws t = (case white_prefix ws t of None \<Rightarrow> t | Some n \<Rightarrow> trim_start ws (drop n t))"
  by pat_completeness auto
termination
  by (relation "measure (\<lambda>(ws, t). length t)") (auto dest!: white_prefix_pos)

declare trim_start.simps [simp del]

definition trim :: "str \<Rightarrow> str" where
  "trim t = rev (trim_start (map rev white_space) (rev (trim_start white_space t)))"

text \<open>Decimal rendering and \<open>i64::from_str\<close>.\<close>

function decimal_nat :: "nat \<Rightarrow> str" where
  "decimal_nat n =
     (if n < 10 then [word_of_nat (48 + n)] else decimal_nat (n div 10) @ [word_of_nat (48 + n mod 10)])"
  by pat_completeness auto
termination by (relation "measure id") auto

declare decimal_nat.simps [simp del]

definition decimal_int :: "int \<Rightarrow> str" where
  "decimal_int i = (if i < 0 then 45 # decimal_nat (nat (- i)) else decimal_nat (nat i))"

definition parse_digits :: "str \<Rightarrow> nat option" where
  "parse_digits ds =
     (if ds \<noteq> [] \<and> (\<forall>d \<in> set ds. 48 \<le> unat d \<and> unat d \<le> 57)
      then Some (foldl (\<lambda>acc d. 10 * acc + (unat d - 48)) 0 ds) else None)"

definition parse_i64 :: "str \<Rightarrow> int option" where
  "parse_i64 t =
     (let (neg, ds) = (case t of c # rest \<Rightarrow> if c = 45 then (True, rest)
                          else if c = 43 then (False, rest) else (False, t)
                        | [] \<Rightarrow> (False, [])) in
      case parse_digits ds of
        None \<Rightarrow> None
      | Some n \<Rightarrow> let i = (if neg then - int n else int n) in
          if - (2 ^ 63) \<le> i \<and> i < 2 ^ 63 then Some i else None)"

subsection \<open>The built-in encodings\<close>

definition SIGN_BIT :: u64 where "SIGN_BIT = 0x8000000000000000"

definition int64_decode :: "bytes \<Rightarrow> int result" where
  "int64_decode key = and_then (need_len key 8) (\<lambda>_. Ok (to_signed 64 (le_nat key)))"

definition int64_compare :: "bytes \<Rightarrow> bytes \<Rightarrow> ordering result" where
  "int64_compare a b =
     and_then (int64_decode a) (\<lambda>x. and_then (int64_decode b) (\<lambda>y. Ok (cmp x y)))"

definition int64_digest :: "bytes \<Rightarrow> u64 result" where
  "int64_digest key = and_then (int64_decode key) (\<lambda>i. Ok (word_of_int i XOR SIGN_BIT))"

definition int64_decode_key_from_digest :: "u64 \<Rightarrow> bytes \<Rightarrow> bytes result" where
  "int64_decode_key_from_digest d out = Ok (i64_to_le (sint (d XOR SIGN_BIT)))"

definition int64_format_key :: "bytes \<Rightarrow> str" where
  "int64_format_key key =
     (case int64_decode key of Inr i \<Rightarrow> decimal_int i | Inl _ \<Rightarrow> str_of ''<invalid i64 key>'')"

definition int64_parse_key :: "str \<Rightarrow> bytes result" where
  "int64_parse_key t = and_then (ok_or (parse_i64 (trim t)) invalid) (\<lambda>i. Ok (i64_to_le i))"

definition Int64Encoding :: KeyEncoding where
  "Int64Encoding = \<lparr>enc_id = str_of ''i64'', compare = int64_compare, digest = int64_digest,
     is_digest_exact = True, accepts_digest = default_accepts_digest int64_digest,
     decode_key_from_digest = int64_decode_key_from_digest, fixed_key_len = Some 8,
     max_rebuilt_key_len = Some 8, is_byte_lexicographic = False,
     validate_key = default_validate_key (Some 8), format_key = int64_format_key,
     parse_key = int64_parse_key\<rparr>"

fun ascii_digest_loop :: "nat \<Rightarrow> bytes \<Rightarrow> u64 \<Rightarrow> u64" where
  "ascii_digest_loop i [] acc = acc"
| "ascii_digest_loop i (b # bs) acc =
     ascii_digest_loop (i + 1) bs (acc OR push_bit (56 - i * 8) (ucast b))"

definition ascii_digest :: "bytes \<Rightarrow> u64" where
  "ascii_digest key = ascii_digest_loop 0 (take 8 key) 0"

definition ascii_format_byte :: "byte \<Rightarrow> str" where
  "ascii_format_byte b =
     (if b = 0x5C then [0x5C, 0x5C] else if 0x20 \<le> b \<and> b \<le> 0x7E then [b]
      else [0x5C, 0x78] @ hex_byte b)"

definition ascii_format_key :: "bytes \<Rightarrow> str" where
  "ascii_format_key key = concat (map ascii_format_byte key)"

fun ascii_parse_key :: "str \<Rightarrow> bytes result" where
  "ascii_parse_key [] = Ok []"
| "ascii_parse_key (c # rest) =
     (if c \<noteq> 0x5C then and_then (ascii_parse_key rest) (\<lambda>out. Ok (c # out))
      else case rest of
        [] \<Rightarrow> Err invalid
      | e # tl1 \<Rightarrow>
          if e = 0x5C then and_then (ascii_parse_key tl1) (\<lambda>out. Ok (0x5C # out))
          else if e = 0x78 then
            (case tl1 of
               h # l # tl2 \<Rightarrow>
                 and_then (hex_digit h) (\<lambda>hi. and_then (hex_digit l) (\<lambda>lo.
                 and_then (ascii_parse_key tl2) (\<lambda>out. Ok ((push_bit 4 hi OR lo) # out))))
             | _ \<Rightarrow> Err invalid)
          else Err invalid)"

definition AsciiEncoding :: KeyEncoding where
  "AsciiEncoding = \<lparr>enc_id = str_of ''ascii'',
     compare = (\<lambda>a b. Ok (cmp_bytes a b)), digest = (\<lambda>key. Ok (ascii_digest key)),
     is_digest_exact = False,
     accepts_digest = default_accepts_digest (\<lambda>key. Ok (ascii_digest key)),
     decode_key_from_digest = default_decode_key_from_digest, fixed_key_len = None,
     max_rebuilt_key_len = None, is_byte_lexicographic = True,
     validate_key = default_validate_key None, format_key = ascii_format_key,
     parse_key = ascii_parse_key\<rparr>"

definition from_rfc4122 :: "bytes \<Rightarrow> bytes" where
  "from_rfc4122 b =
     rev (take 4 b) @ rev (take 2 (drop 4 b)) @ rev (take 2 (drop 6 b)) @ drop 8 b"

definition to_rfc4122 :: "bytes \<Rightarrow> bytes" where
  "to_rfc4122 b = from_rfc4122 b"

definition uuid_fields :: "bytes \<Rightarrow> (nat \<times> nat \<times> nat) result" where
  "uuid_fields key =
     and_then (need_len key 16) (\<lambda>_.
     Ok (le_nat (slice key 0 4), le_nat (slice key 4 2), le_nat (slice key 6 2)))"

definition uuid_compare :: "bytes \<Rightarrow> bytes \<Rightarrow> ordering result" where
  "uuid_compare a b =
     and_then (uuid_fields a) (\<lambda>(aa, ab, ac). and_then (uuid_fields b) (\<lambda>(ba, bb, bc).
     Ok (ord_then (ord_then (ord_then (cmp aa ba) (cmp ab bb)) (cmp ac bc))
           (cmp_bytes (drop 8 a) (drop 8 b)))))"

definition uuid_digest :: "bytes \<Rightarrow> u64 result" where
  "uuid_digest key =
     and_then (uuid_fields key) (\<lambda>(a, b, c).
     Ok (push_bit 32 (word_of_nat a) OR push_bit 16 (word_of_nat b) OR word_of_nat c))"

definition uuid_format_key :: "bytes \<Rightarrow> str" where
  "uuid_format_key key =
     (if length key \<noteq> 16 then str_of ''<invalid uuid key>''
      else let r = to_rfc4122 key; hex = \<lambda>bs. concat (map hex_byte bs) in
        hex (take 4 r) @ [0x2D] @ hex (slice r 4 2) @ [0x2D] @ hex (slice r 6 2) @ [0x2D]
        @ hex (slice r 8 2) @ [0x2D] @ hex (drop 10 r))"

definition uuid_parse_key :: "str \<Rightarrow> bytes result" where
  "uuid_parse_key t =
     (let trimmed = trim t in
      if 0x2D \<notin> set trimmed then parse_hex_key trimmed
      else let digits = filter (\<lambda>c. c \<noteq> 0x2D) trimmed in
        if length digits \<noteq> 32 then Err invalid
        else and_then (parse_hex_key digits) (\<lambda>rfc. Ok (from_rfc4122 rfc)))"

definition Uuidv7Encoding :: KeyEncoding where
  "Uuidv7Encoding = \<lparr>enc_id = str_of ''uuidv7'', compare = uuid_compare,
     digest = uuid_digest, is_digest_exact = False,
     accepts_digest = default_accepts_digest uuid_digest,
     decode_key_from_digest = default_decode_key_from_digest, fixed_key_len = Some 16,
     max_rebuilt_key_len = None, is_byte_lexicographic = False,
     validate_key = default_validate_key (Some 16), format_key = uuid_format_key,
     parse_key = uuid_parse_key\<rparr>"

definition UlidEncoding :: KeyEncoding where
  "UlidEncoding = \<lparr>enc_id = str_of ''ulid'',
     compare = (\<lambda>a b. Ok (cmp_bytes a b)), digest = (\<lambda>key. Ok (ascii_digest key)),
     is_digest_exact = False,
     accepts_digest = default_accepts_digest (\<lambda>key. Ok (ascii_digest key)),
     decode_key_from_digest = default_decode_key_from_digest, fixed_key_len = Some 16,
     max_rebuilt_key_len = None, is_byte_lexicographic = True,
     validate_key = default_validate_key (Some 16), format_key = default_format_key,
     parse_key = parse_hex_key\<rparr>"

subsection \<open>Composite keys of non-unique indexes\<close>

definition RID_LEN :: nat where "RID_LEN = 4"

definition dup_encode :: "bytes \<Rightarrow> int \<Rightarrow> bytes" where
  "dup_encode source_key rid = source_key @ i32_to_le rid"

definition dup_split :: "bytes \<Rightarrow> (bytes \<times> int) result" where
  "dup_split key =
     (if length key < RID_LEN then Err corrupt
      else let n = length key - RID_LEN; rid = to_signed 32 (le_nat (drop n key)) in
        if rid < 0 then Err corrupt else Ok (take n key, rid))"

definition dup_compare :: "KeyEncoding \<Rightarrow> bytes \<Rightarrow> bytes \<Rightarrow> ordering result" where
  "dup_compare source a b =
     and_then (dup_split a) (\<lambda>(a_key, a_rid). and_then (dup_split b) (\<lambda>(b_key, b_rid).
     and_then (compare source a_key b_key) (\<lambda>c. Ok (ord_then c (cmp a_rid b_rid)))))"

definition dup_digest :: "KeyEncoding \<Rightarrow> bytes \<Rightarrow> u64 result" where
  "dup_digest source key = and_then (dup_split key) (\<lambda>(source_key, _). digest source source_key)"

definition dup_accepts_digest :: "KeyEncoding \<Rightarrow> bytes \<Rightarrow> u64 \<Rightarrow> bool result" where
  "dup_accepts_digest source key stored =
     and_then (dup_digest source key) (\<lambda>d.
     if d = stored then Ok True else and_then (digest source key) (\<lambda>e. Ok (e = stored)))"

definition dup_decode_key_from_digest :: "KeyEncoding \<Rightarrow> u64 \<Rightarrow> bytes \<Rightarrow> bytes result" where
  "dup_decode_key_from_digest source d out =
     and_then (decode_key_from_digest source d out) (\<lambda>out'. Ok (out' @ i32_to_le 0))"

definition dup_format_key :: "KeyEncoding \<Rightarrow> bytes \<Rightarrow> str" where
  "dup_format_key source key =
     (case dup_split key of
        Inr (source_key, rid) \<Rightarrow> format_key source source_key @ [0x2D] @ decimal_int rid
      | Inl _ \<Rightarrow> str_of ''<invalid duplicate key>'')"

definition DuplicateKeyEncoding :: "KeyEncoding \<Rightarrow> KeyEncoding" where
  "DuplicateKeyEncoding source = \<lparr>enc_id = enc_id source, compare = dup_compare source,
     digest = dup_digest source, is_digest_exact = False,
     accepts_digest = dup_accepts_digest source,
     decode_key_from_digest = dup_decode_key_from_digest source,
     fixed_key_len = map_option (\<lambda>n. n + RID_LEN) (fixed_key_len source),
     max_rebuilt_key_len = map_option (\<lambda>n. n + RID_LEN) (max_rebuilt_key_len source),
     is_byte_lexicographic = False,
     validate_key = default_validate_key (map_option (\<lambda>n. n + RID_LEN) (fixed_key_len source)),
     format_key = dup_format_key source, parse_key = parse_hex_key\<rparr>"

subsection \<open>The registry\<close>

text \<open>The registry's \<open>HashMap\<close> is a finite map from ids to encodings.\<close>

record EncodingRegistry =
  custom :: "str \<Rightarrow> KeyEncoding option"

definition builtin :: "str \<Rightarrow> KeyEncoding option" where
  "builtin id' =
     (if id' = str_of ''i64'' then Some Int64Encoding
      else if id' = str_of ''ascii'' then Some AsciiEncoding
      else if id' = str_of ''uuidv7'' then Some Uuidv7Encoding
      else if id' = str_of ''ulid'' then Some UlidEncoding
      else None)"

definition registry_new :: EncodingRegistry where
  "registry_new = \<lparr>custom = (\<lambda>_. None)\<rparr>"

definition register :: "EncodingRegistry \<Rightarrow> KeyEncoding \<Rightarrow> EncodingRegistry result" where
  "register reg e =
     (if builtin (enc_id e) \<noteq> None then Err invalid
      else Ok (reg\<lparr>custom := (custom reg)(enc_id e \<mapsto> e)\<rparr>))"

definition resolve :: "EncodingRegistry \<Rightarrow> str \<Rightarrow> KeyEncoding result" where
  "resolve reg id' =
     (case builtin id' of
        Some e \<Rightarrow> Ok e
      | None \<Rightarrow> ok_or (custom reg id') (error_new UnknownEncoding))"

subsection \<open>The contract of an encoding\<close>

text \<open>
  The module's documented contract, for the keys an encoding calls well formed: \<open>compare\<close>
  is a total order whose \<open>Equal\<close> is equality of bytes, and the digest never falls as the
  key grows.
\<close>

locale lawful_encoding =
  fixes E :: KeyEncoding and valid :: "bytes \<Rightarrow> bool"
  assumes compare_total: "valid a \<Longrightarrow> valid b \<Longrightarrow> \<exists>r. compare E a b = Ok r"
    and compare_Equal: "valid a \<Longrightarrow> valid b \<Longrightarrow> compare E a b = Ok Equal \<longleftrightarrow> a = b"
    and compare_swap: "valid a \<Longrightarrow> valid b \<Longrightarrow> compare E a b = Ok r \<Longrightarrow>
      compare E b a = Ok (ord_reverse r)"
    and compare_trans: "valid a \<Longrightarrow> valid b \<Longrightarrow> valid c \<Longrightarrow> compare E a b = Ok Less \<Longrightarrow>
      compare E b c = Ok Less \<Longrightarrow> compare E a c = Ok Less"
    and digest_total: "valid a \<Longrightarrow> \<exists>d. digest E a = Ok d"
    and digest_mono: "valid a \<Longrightarrow> valid b \<Longrightarrow> compare E a b = Ok Less \<Longrightarrow>
      digest E a = Ok d \<Longrightarrow> digest E b = Ok e \<Longrightarrow> d \<le> e"
begin

definition key_less :: "bytes \<Rightarrow> bytes \<Rightarrow> bool" where
  "key_less a b \<longleftrightarrow> compare E a b = Ok Less"

definition key_le :: "bytes \<Rightarrow> bytes \<Rightarrow> bool" where
  "key_le a b \<longleftrightarrow> compare E a b = Ok Less \<or> a = b"

lemma compare_cases:
  assumes "valid a" "valid b"
  shows "compare E a b = Ok Less \<and> compare E b a = Ok Greater \<or>
         compare E a b = Ok Greater \<and> compare E b a = Ok Less \<or> a = b \<and> compare E a b = Ok Equal"
proof -
  obtain c where c: "compare E a b = Ok c" using compare_total assms by blast
  show ?thesis using c compare_swap [OF assms c] compare_Equal [OF assms] by (cases c) auto
qed

lemma compare_less_iff_greater:
  "valid a \<Longrightarrow> valid b \<Longrightarrow> compare E a b = Ok Less \<longleftrightarrow> compare E b a = Ok Greater"
  using compare_cases [of a b] compare_Equal [of a b] by auto

lemma digest_less_imp:
  assumes "valid a" "valid b" "digest E a = Ok d" "digest E b = Ok e" "d < e"
  shows "compare E a b = Ok Less"
  using compare_cases [OF assms(1,2)] digest_mono [OF assms(2,1) _ assms(4,3)] assms(3-5)
  by auto

end

subsection \<open>Integer keys\<close>

lemma bit_SIGN_BIT: "bit SIGN_BIT n \<longleftrightarrow> n = 63"
proof -
  have S: "SIGN_BIT = 2 ^ 63" by (simp add: SIGN_BIT_def)
  show ?thesis unfolding S bit_exp_iff by auto
qed

lemma xor_sign_bit: "w XOR SIGN_BIT = w + SIGN_BIT"
proof -
  have add: "x + SIGN_BIT = x XOR SIGN_BIT" if "\<not> bit x 63" for x :: u64
    using that by (intro disjunctive_add_eq_xor) (auto intro!: bit_eqI simp: bit_and_iff bit_SIGN_BIT)
  show ?thesis
  proof (cases "bit w 63")
    case True
    then have "\<not> bit (w XOR SIGN_BIT) 63" by (simp add: bit_xor_iff bit_SIGN_BIT)
    from add [OF this] have "(w XOR SIGN_BIT) + SIGN_BIT = w" by (simp add: xor.assoc)
    moreover have "(w XOR SIGN_BIT) = (w XOR SIGN_BIT) + SIGN_BIT + SIGN_BIT"
      by (simp add: add.assoc) (simp add: SIGN_BIT_def)
    ultimately show ?thesis by simp
  qed (simp add: add)
qed

lemma unat_word_of_int_u64: "0 \<le> j \<Longrightarrow> j < 2 ^ 64 \<Longrightarrow> unat (word_of_int j :: u64) = nat j"
  by (simp add: unsigned_of_int take_bit_int_eq_self)

lemma int64_decode_Ok: "int64_decode k = Ok i \<longleftrightarrow> length k = 8 \<and> i = to_signed 64 (le_nat k)"
  by (auto simp: int64_decode_def need_len_def)

lemma le_nat_8: "length k = 8 \<Longrightarrow> le_nat k < 2 ^ 64"
  using le_nat_less [of k] by simp

lemma int64_digest_value:
  assumes "length k = 8"
  shows "int64_digest k = Ok (word_of_int (to_signed 64 (le_nat k) + 2 ^ 63))"
    "unat (word_of_int (to_signed 64 (le_nat k) + 2 ^ 63) :: u64) = nat (to_signed 64 (le_nat k) + 2 ^ 63)"
proof -
  have "int64_decode k = Ok (to_signed 64 (le_nat k))" using assms by (simp add: int64_decode_Ok)
  then show "int64_digest k = Ok (word_of_int (to_signed 64 (le_nat k) + 2 ^ 63))"
    by (simp add: int64_digest_def xor_sign_bit) (simp add: SIGN_BIT_def)
  have "0 \<le> to_signed 64 (le_nat k) + 2 ^ 63" "to_signed 64 (le_nat k) + 2 ^ 63 < 2 ^ 64"
    using to_signed_range [OF le_nat_8 [OF assms]] by auto
  then show "unat (word_of_int (to_signed 64 (le_nat k) + 2 ^ 63) :: u64) = nat (to_signed 64 (le_nat k) + 2 ^ 63)"
    by (rule unat_word_of_int_u64)
qed

lemma le_nat_inject: "length a = length b \<Longrightarrow> le_nat a = le_nat b \<longleftrightarrow> a = b"
  by (metis le_bytes_le_nat)

lemma to_signed_inject:
  assumes "n < 2 ^ w" "m < 2 ^ w" shows "to_signed w n = to_signed w m \<longleftrightarrow> n = m"
proof
  assume eq: "to_signed w n = to_signed w m"
  then have "n < 2 ^ (w - 1) \<longleftrightarrow> m < 2 ^ (w - 1)"
    using to_signed_nonneg_iff [OF assms(1)] to_signed_nonneg_iff [OF assms(2)] by metis
  with eq show "n = m" by (auto simp: to_signed_def split: if_splits)
qed simp

lemma int64_compare_valid:
  "length a = 8 \<Longrightarrow> length b = 8 \<Longrightarrow>
   int64_compare a b = Ok (cmp (to_signed 64 (le_nat a)) (to_signed 64 (le_nat b)))"
  by (simp add: int64_compare_def int64_decode_def need_len_def)

lemma word_le_nat: "(a :: u64) \<le> b \<longleftrightarrow> unat a \<le> unat b"
  by (simp add: word_le_nat_alt)

lemma int64_signed_inject:
  "length a = 8 \<Longrightarrow> length b = 8 \<Longrightarrow> to_signed 64 (le_nat a) = to_signed 64 (le_nat b) \<longleftrightarrow> a = b"
  using le_nat_8 [of a] le_nat_8 [of b] by (simp add: to_signed_inject le_nat_inject)

interpretation int64: lawful_encoding Int64Encoding "\<lambda>k. length k = 8"
proof (unfold_locales, goal_cases)
  case (6 a b d e)
  then show ?case
    using int64_digest_value [of a] int64_digest_value [of b]
    by (auto simp: Int64Encoding_def int64_compare_valid word_le_nat)
qed (auto simp: Int64Encoding_def int64_compare_valid int64_signed_inject cmp_reverse [symmetric]
    dest: int64_digest_value(1))

lemma int64_digest_exact:
  assumes "length k = 8" "int64_digest k = Ok d"
  shows "int64_decode_key_from_digest d out = Ok k"
proof -
  let ?i = "to_signed 64 (le_nat k)"
  have d: "d = word_of_int (?i + 2 ^ 63)" using int64_digest_value(1) [OF assms(1)] assms(2) by simp
  have "d XOR SIGN_BIT = word_of_int ?i"
    unfolding d xor_sign_bit by (simp add: SIGN_BIT_def)
  moreover have "sint (word_of_int ?i :: u64) = ?i"
    using to_signed_range [OF le_nat_8 [OF assms(1)]]
    by (simp add: signed_of_int signed_take_bit_int_eq_self)
  moreover have "i64_to_le ?i = k"
    using le_to_le_inverse(3) [OF assms(1)] le_nat_8 [OF assms(1)] by (simp add: as_i64_def)
  ultimately show ?thesis by (simp add: int64_decode_key_from_digest_def)
qed

subsection \<open>Byte string keys\<close>

text \<open>The digest as a number: the first \<open>n\<close> bytes in big endian order, zero padded.\<close>

fun be_prefix :: "nat \<Rightarrow> bytes \<Rightarrow> nat" where
  "be_prefix 0 bs = 0"
| "be_prefix (Suc n) [] = 0"
| "be_prefix (Suc n) (b # bs) = unat b * 256 ^ n + be_prefix n bs"

lemma be_prefix_Nil [simp]: "be_prefix n [] = 0"
  by (cases n) auto

lemma be_prefix_take: "be_prefix n (take n bs) = be_prefix n bs"
  by (induction n bs rule: be_prefix.induct) auto

lemma be_prefix_less: "be_prefix n bs < 256 ^ n"
proof (induction n bs rule: be_prefix.induct)
  case (3 n b bs)
  have "unat b * 256 ^ n + be_prefix n bs < (unat b + 1) * 256 ^ n" using 3 by simp
  also have "\<dots> \<le> 256 * 256 ^ n" using unat_byte_less [of b] by (intro mult_right_mono) auto
  finally show ?case by simp
qed auto

lemma be_prefix_mono: "cmp_bytes a b = Less \<Longrightarrow> be_prefix n a \<le> be_prefix n b"
proof (induction n arbitrary: a b)
  case (Suc n)
  show ?case
  proof (cases a)
    case a: (Cons x xs)
    with Suc.prems obtain y ys where b: "b = y # ys" by (cases b) auto
    from Suc.prems a b consider "x < y" | "x = y" "cmp_bytes xs ys = Less"
      by (auto simp: ord_then_iff)
    then show ?thesis
    proof cases
      case 1
      then have "unat x + 1 \<le> unat y" by (simp add: word_less_nat_alt)
      then have "(unat x + 1) * 256 ^ n \<le> unat y * 256 ^ n" by (rule mult_right_mono) simp
      with be_prefix_less [of n xs] show ?thesis by (simp add: a b)
    next
      case 2
      with Suc.IH show ?thesis by (simp add: a b)
    qed
  qed simp
qed simp

lemma or_disjoint_add:
  fixes acc :: u64
  assumes "\<forall>j<m + 8. \<not> bit acc j" "m + 8 \<le> 64"
  shows "acc OR push_bit m (ucast (b :: byte)) = acc + word_of_nat (unat b * 2 ^ m)"
proof -
  have "acc + push_bit m (ucast b) = acc OR push_bit m (ucast b)"
    using assms by (intro disjunctive_add_eq_or bit_eqI) (auto simp: bit_and_iff bit_push_bit_iff bit_ucast_iff dest: bit_imp_le_length)
  moreover have "push_bit m (ucast b) = (word_of_nat (unat b * 2 ^ m) :: u64)"
    by (simp add: push_bit_eq_mult)
  ultimately show ?thesis by simp
qed

lemma ascii_digest_loop_value:
  "i + length bs \<le> 8 \<Longrightarrow> \<forall>j<64 - 8 * i. \<not> bit acc j \<Longrightarrow>
   ascii_digest_loop i bs acc = acc + word_of_nat (be_prefix (8 - i) bs)"
proof (induction i bs acc rule: ascii_digest_loop.induct)
  case (2 i b bs acc)
  define m where "m = 56 - i * 8"
  have i: "i < 8" using "2.prems"(1) by simp
  then have m: "m + 8 = 64 - 8 * i" "8 * (7 - i) = m" "8 - i = Suc (7 - i)" by (auto simp: m_def)
  have acc': "acc OR push_bit m (ucast b) = acc + word_of_nat (unat b * 2 ^ m)"
    using "2.prems"(2) m(1) by (intro or_disjoint_add) auto
  have "\<forall>j<64 - 8 * (i + 1). \<not> bit (acc OR push_bit m (ucast b)) j"
    using "2.prems"(2) i by (auto simp: bit_or_iff bit_push_bit_iff m_def)
  then have "ascii_digest_loop (i + 1) bs (acc OR push_bit m (ucast b))
      = (acc OR push_bit m (ucast b)) + word_of_nat (be_prefix (7 - i) bs)"
    using "2.IH" "2.prems"(1) by (simp add: m_def)
  moreover have "(2::nat) ^ m = 256 ^ (7 - i)" unfolding m(2) [symmetric] by (simp add: power_mult)
  ultimately show ?case using m(3) by (simp add: acc' m_def [symmetric])
qed simp

lemma unat_word_of_nat_u64: "n < 2 ^ 64 \<Longrightarrow> unat (word_of_nat n :: u64) = n"
  by (simp add: unsigned_of_nat take_bit_nat_eq_self)

lemma ascii_digest_value: "unat (ascii_digest key) = be_prefix 8 key"
proof -
  have "ascii_digest key = word_of_nat (be_prefix 8 key)"
    using ascii_digest_loop_value [of 0 "take 8 key" 0] by (simp add: ascii_digest_def be_prefix_take)
  then show ?thesis using be_prefix_less [of 8 key] by (simp add: unat_word_of_nat_u64)
qed

lemma ascii_digest_mono: "cmp_bytes a b = Less \<Longrightarrow> ascii_digest a \<le> ascii_digest b"
  by (simp add: word_le_nat ascii_digest_value be_prefix_mono)

interpretation ascii: lawful_encoding AsciiEncoding "\<lambda>_. True"
  by unfold_locales
    (auto simp: AsciiEncoding_def cmp_bytes_reverse [symmetric] intro: cmp_bytes_trans ascii_digest_mono)

interpretation ulid: lawful_encoding UlidEncoding "\<lambda>_. True"
  by unfold_locales
    (auto simp: UlidEncoding_def cmp_bytes_reverse [symmetric] intro: cmp_bytes_trans ascii_digest_mono)

subsection \<open>UUID keys\<close>

lemma bit_nat_less: "n < 2 ^ k \<Longrightarrow> bit (n::nat) j \<Longrightarrow> j < k"
proof (rule ccontr)
  assume n: "n < 2 ^ k" "bit n j" "\<not> j < k"
  have "(2::nat) ^ k \<le> 2 ^ j" using n(3) by (intro power_increasing) auto
  with n(1) have "n < 2 ^ j" by (rule order.strict_trans2)
  then have "n div 2 ^ j = 0" by (rule div_less)
  with n(2) show False by (simp add: bit_iff_odd)
qed

lemma uuid_digest_value:
  assumes "a < 2 ^ 32" "b < 2 ^ 16" "c < 2 ^ 16"
  shows "unat (push_bit 32 (word_of_nat a) OR push_bit 16 (word_of_nat b) OR word_of_nat c :: u64)
    = a * 2 ^ 32 + b * 2 ^ 16 + c"
proof -
  let ?a = "push_bit 32 (word_of_nat a) :: u64" and ?b = "push_bit 16 (word_of_nat b) :: u64"
  have bc: "?b + word_of_nat c = ?b OR word_of_nat c"
    using assms by (intro disjunctive_add_eq_or bit_eqI)
      (auto simp: bit_and_iff bit_push_bit_iff bit_of_nat_iff dest: bit_nat_less [of _ 16, simplified] bit_nat_less [of _ 32, simplified])
  have "?a + (?b OR word_of_nat c) = ?a OR (?b OR word_of_nat c)"
    using assms by (intro disjunctive_add_eq_or bit_eqI)
      (auto simp: bit_and_iff bit_or_iff bit_push_bit_iff bit_of_nat_iff dest: bit_nat_less [of _ 16, simplified] bit_nat_less [of _ 32, simplified])
  then have "?a OR ?b OR word_of_nat c = ?a + (?b + word_of_nat c)" by (simp add: bc or.assoc)
  also have "\<dots> = word_of_nat (a * 2 ^ 32 + b * 2 ^ 16 + c)"
    by (simp add: push_bit_eq_mult mult.commute add.assoc)
  finally have "?a OR ?b OR word_of_nat c = word_of_nat (a * 2 ^ 32 + b * 2 ^ 16 + c)" .
  moreover have "a * 2 ^ 32 + b * 2 ^ 16 + c < 2 ^ 64" using assms by simp
  ultimately show ?thesis using unat_word_of_nat_u64 by metis
qed

definition uuid_tuple :: "bytes \<Rightarrow> nat \<times> nat \<times> nat" where
  "uuid_tuple k = (le_nat (slice k 0 4), le_nat (slice k 4 2), le_nat (slice k 6 2))"

lemma uuid_fields_valid: "length k = 16 \<Longrightarrow> uuid_fields k = Ok (uuid_tuple k)"
  by (simp add: uuid_fields_def need_len_def uuid_tuple_def)

lemma uuid_tuple_bounds:
  assumes "length k = 16" "uuid_tuple k = (x, y, z)"
  shows "x < 2 ^ 32" "y < 2 ^ 16" "z < 2 ^ 16"
  using assms le_nat_less [of "slice k 0 4"] le_nat_less [of "slice k 4 2"] le_nat_less [of "slice k 6 2"]
  by (auto simp: uuid_tuple_def)

lemma uuid_tuple_inject:
  assumes "length a = 16" "length b = 16" "uuid_tuple a = uuid_tuple b" "drop 8 a = drop 8 b"
  shows "a = b"
proof -
  have s: "slice a 0 4 = slice b 0 4" "slice a 4 2 = slice b 4 2" "slice a 6 2 = slice b 6 2"
    using assms le_nat_inject by (auto simp: uuid_tuple_def)
  have "take 8 k = slice k 0 4 @ slice k 4 2 @ slice k 6 2" for k :: bytes
    using take_add_slice [of 0 4 k] take_add_slice [of 4 2 k] take_add_slice [of 6 2 k] by simp
  then have "take 8 a = take 8 b" using s by simp
  with assms(4) show ?thesis by (metis append_take_drop_id)
qed


lemma uuid_compare_valid:
  assumes "length a = 16" "length b = 16" "uuid_tuple a = (x, y, z)" "uuid_tuple b = (x', y', z')"
  shows "uuid_compare a b = Ok (ord_then (ord_then (ord_then (cmp x x') (cmp y y')) (cmp z z'))
           (cmp_bytes (drop 8 a) (drop 8 b)))"
  using assms by (simp add: uuid_compare_def uuid_fields_valid)

lemma uuid_digest_valid:
  assumes "length k = 16" "uuid_tuple k = (x, y, z)"
  shows "\<exists>d. uuid_digest k = Ok d \<and> unat d = x * 2 ^ 32 + y * 2 ^ 16 + z"
  using assms uuid_digest_value [OF uuid_tuple_bounds [OF assms]]
  by (simp add: uuid_digest_def uuid_fields_valid)

lemma field_order:
  fixes x y z x' y' z' :: nat
  assumes "x < x' \<or> x = x' \<and> (y < y' \<or> y = y' \<and> z \<le> z')" "y < 2 ^ 16" "z < 2 ^ 16"
  shows "x * 2 ^ 32 + y * 2 ^ 16 + z \<le> x' * 2 ^ 32 + y' * 2 ^ 16 + z'"
  using assms by auto

interpretation uuid: lawful_encoding Uuidv7Encoding "\<lambda>k. length k = 16"
proof (unfold_locales, goal_cases)
  case (1 a b)
  then show ?case by (cases "uuid_tuple a"; cases "uuid_tuple b")
      (simp add: Uuidv7Encoding_def uuid_compare_valid)
next
  case (2 a b)
  then show ?case using uuid_tuple_inject [of a b] by (cases "uuid_tuple a"; cases "uuid_tuple b")
      (auto simp: Uuidv7Encoding_def uuid_compare_valid ord_then_iff)
next
  case (3 a b r)
  then show ?case by (cases "uuid_tuple a"; cases "uuid_tuple b")
      (auto simp: Uuidv7Encoding_def uuid_compare_valid ord_reverse_then cmp_reverse [symmetric]
        cmp_bytes_reverse [symmetric])
next
  case (4 a b c)
  then show ?case by (cases "uuid_tuple a"; cases "uuid_tuple b"; cases "uuid_tuple c")
      (auto simp: Uuidv7Encoding_def uuid_compare_valid ord_then_iff intro: cmp_bytes_trans)
next
  case (5 a)
  then show ?case using uuid_digest_valid [of a] by (cases "uuid_tuple a") (auto simp: Uuidv7Encoding_def)
next
  case (6 a b d e)
  obtain x y z x' y' z' where t: "uuid_tuple a = (x, y, z)" "uuid_tuple b = (x', y', z')"
    by (cases "uuid_tuple a"; cases "uuid_tuple b") auto
  have "x < x' \<or> x = x' \<and> (y < y' \<or> y = y' \<and> z \<le> z')"
    using 6(1-3) t by (auto simp: Uuidv7Encoding_def uuid_compare_valid ord_then_iff)
  from field_order [OF this uuid_tuple_bounds(2,3) [OF 6(1) t(1)]]
  show ?case using 6 t uuid_digest_valid [OF 6(1) t(1)] uuid_digest_valid [OF 6(2) t(2)]
    by (auto simp: Uuidv7Encoding_def word_le_nat)
qed

subsection \<open>Composite keys\<close>

lemma le_nat_4: "length k = 4 \<Longrightarrow> le_nat k < 2 ^ 32"
  using le_nat_less [of k] by simp

lemma dup_split_iff:
  "dup_split k = Ok (s, r) \<longleftrightarrow> 0 \<le> r \<and> r < 2 ^ 31 \<and> k = dup_encode s r"
proof
  let ?t = "drop (length k - 4) k"
  assume "dup_split k = Ok (s, r)"
  then have f: "4 \<le> length k" "s = take (length k - 4) k" "r = to_signed 32 (le_nat ?t)" "0 \<le> r"
    by (auto simp: dup_split_def Let_def RID_LEN_def)
  have t: "length ?t = 4" using f(1) by simp
  have b: "le_nat ?t < 2 ^ 31"
    using to_signed_nonneg_iff [OF le_nat_4 [OF t]] f(3,4) by simp
  then have r: "r = as_i32 (le_nat ?t)" unfolding f(3) by (simp add: as_i32_small)
  have "k = s @ i32_to_le r" unfolding r le_to_le_inverse(2) [OF t] f(2) by simp
  moreover have "r < 2 ^ 31" unfolding r using b by (simp add: as_i32_small)
  ultimately show "0 \<le> r \<and> r < 2 ^ 31 \<and> k = dup_encode s r" using f(4) by (simp add: dup_encode_def)
next
  assume a: "0 \<le> r \<and> r < 2 ^ 31 \<and> k = dup_encode s r"
  then have "to_signed 32 (le_nat (i32_to_le r)) = r"
    by (simp add: le_nat_to_le to_signed_of_signed)
  with a show "dup_split k = Ok (s, r)"
    by (simp add: dup_split_def dup_encode_def RID_LEN_def Let_def)
qed

definition dup_valid :: "(bytes \<Rightarrow> bool) \<Rightarrow> bytes \<Rightarrow> bool" where
  "dup_valid v k = (case dup_split k of Inl _ \<Rightarrow> False | Inr (s, _) \<Rightarrow> v s)"

lemma dup_validE:
  assumes "dup_valid v k" obtains s r where "dup_split k = Ok (s, r)" "v s"
  using assms by (auto simp: dup_valid_def split: sum.splits)

lemma dup_compare_split:
  "dup_split a = Ok (s, r) \<Longrightarrow> dup_split b = Ok (t, q) \<Longrightarrow>
   dup_compare E a b = and_then (compare E s t) (\<lambda>c. Ok (ord_then c (cmp r q)))"
  by (simp add: dup_compare_def)

lemma dup_lawful:
  assumes "lawful_encoding E v"
  shows "lawful_encoding (DuplicateKeyEncoding E) (dup_valid v)"
proof -
  note L = lawful_encoding.compare_total [OF assms] lawful_encoding.compare_Equal [OF assms]
    lawful_encoding.compare_swap [OF assms] lawful_encoding.compare_trans [OF assms]
    lawful_encoding.digest_total [OF assms] lawful_encoding.digest_mono [OF assms]
  have sel: "compare (DuplicateKeyEncoding E) = dup_compare E"
    "digest (DuplicateKeyEncoding E) = dup_digest E" by (simp_all add: DuplicateKeyEncoding_def)
  show ?thesis
  proof ((unfold_locales; unfold sel; elim dup_validE), goal_cases)
    case (1 a b s r t q)
    then show ?case using L(1) [of s t] by (auto simp: dup_compare_split)
  next
    case (2 a b s r t q)
    then have "a = dup_encode s r" "b = dup_encode t q" using dup_split_iff by blast+
    then have "s = t \<and> r = q \<Longrightarrow> a = b" by simp
    moreover have "a = b \<Longrightarrow> s = t \<and> r = q" using 2 by simp
    ultimately have "a = b \<longleftrightarrow> s = t \<and> r = q" by blast
    with 2 show ?case using L(2) [of s t] by (auto simp: dup_compare_split ord_then_iff)
  next
    case (3 a b c s r t q)
    then obtain c' where "compare E s t = Ok c'" "c = ord_then c' (cmp r q)"
      by (auto simp: dup_compare_split)
    then show ?case using 3 L(3) [of s t c']
      by (simp add: dup_compare_split ord_reverse_then cmp_reverse [symmetric])
  next
    case (4 a b c s r t q u p)
    then show ?case using L(4) [of s t u] L(2) [of s t] L(2) [of t u] L(2) [of s u]
      by (auto simp: dup_compare_split ord_then_iff)
  next
    case (5 a s r)
    then show ?case using L(5) [of s] by (auto simp: dup_digest_def)
  next
    case (6 a b d e s r t q)
    then show ?case using L(6) [of s t d e] L(2) [of s t]
      by (auto simp: dup_compare_split dup_digest_def ord_then_iff)
  qed
qed

lemmas dup_lawful_builtin =
  dup_lawful [OF int64.lawful_encoding_axioms] dup_lawful [OF ascii.lawful_encoding_axioms]
  dup_lawful [OF uuid.lawful_encoding_axioms] dup_lawful [OF ulid.lawful_encoding_axioms]

interpretation dup_int64: lawful_encoding "DuplicateKeyEncoding Int64Encoding" "dup_valid (\<lambda>k. length k = 8)"
  by (rule dup_lawful_builtin(1))

interpretation dup_ascii: lawful_encoding "DuplicateKeyEncoding AsciiEncoding" "dup_valid (\<lambda>_. True)"
  by (rule dup_lawful_builtin(2))

subsection \<open>Textual forms\<close>

lemma less_16_cases: "(n::nat) < 16 \<longleftrightarrow> n \<in> {0, 1, 2, 3, 4, 5, 6, 7, 8, 9, 10, 11, 12, 13, 14, 15}"
  by (auto simp: numeral_eq_Suc less_Suc_eq)

lemma unat_byte_div_16 [simp]: "unat (b :: byte) div 16 < 16"
  using unat_byte_less [of b] by simp

lemma hex_digit_hex_char: "n < 16 \<Longrightarrow> hex_digit (hex_char n) = Ok (word_of_nat n)"
  unfolding less_16_cases by (elim insertE emptyE) (simp_all add: hex_digit_def hex_char_def)

lemma hex_char_range: "n < 16 \<Longrightarrow> 48 \<le> unat (hex_char n) \<and> unat (hex_char n) \<le> 102"
  unfolding less_16_cases by (elim insertE emptyE) (simp_all add: hex_char_def)

lemma nibbles: "push_bit 4 (word_of_nat (unat b div 16)) OR word_of_nat (unat b mod 16) = (b :: byte)"
proof -
  let ?hi = "push_bit 4 (word_of_nat (unat b div 16)) :: byte" and ?lo = "word_of_nat (unat b mod 16) :: byte"
  have "?hi + ?lo = ?hi OR ?lo"
    by (intro disjunctive_add_eq_or bit_eqI)
      (auto simp: bit_and_iff bit_push_bit_iff bit_of_nat_iff dest: bit_nat_less [of _ 4, simplified, rotated])
  moreover have "?hi + ?lo = word_of_nat (unat b div 16 * 16 + unat b mod 16)"
    by (simp only: push_bit_eq_mult of_nat_add of_nat_mult) simp
  ultimately have "?hi OR ?lo = word_of_nat (unat b div 16 * 16 + unat b mod 16)" by metis
  then show ?thesis by (simp only: div_mult_mod_eq) simp
qed

lemma parse_hex_pairs_append:
  "parse_hex_pairs (hex_byte b @ t) = and_then (parse_hex_pairs t) (\<lambda>out. Ok (b # out))"
  by (simp add: hex_byte_def hex_digit_hex_char nibbles)

lemma parse_hex_pairs_format: "parse_hex_pairs (concat (map hex_byte k)) = Ok k"
  by (induction k) (simp_all add: parse_hex_pairs_append)

lemma length_hex: "length (concat (map hex_byte k)) = 2 * length k"
  by (induction k) (simp_all add: hex_byte_def)

lemma parse_hex_key_format: "parse_hex_key (concat (map hex_byte k)) = Ok k"
  by (simp add: parse_hex_key_def length_hex parse_hex_pairs_format)

lemma set_hex: "c \<in> set (concat (map hex_byte k)) \<Longrightarrow> 48 \<le> unat c \<and> unat c \<le> 102"
  by (induction k) (auto simp: hex_byte_def hex_char_range)

lemma ascii_parse_append:
  "ascii_parse_key (ascii_format_byte b @ t) = and_then (ascii_parse_key t) (\<lambda>out. Ok (b # out))"
  by (auto simp: ascii_format_byte_def hex_byte_def hex_digit_hex_char nibbles)

lemma ascii_parse_format: "ascii_parse_key (ascii_format_key k) = Ok k"
  by (induction k) (simp_all add: ascii_format_key_def ascii_parse_append)


lemma white_prefix_None:
  "(\<And>w. w \<in> set ws \<Longrightarrow> w \<noteq> [] \<and> hd w \<noteq> hd t) \<Longrightarrow> white_prefix ws t = None"
proof -
  assume a: "\<And>w. w \<in> set ws \<Longrightarrow> w \<noteq> [] \<and> hd w \<noteq> hd t"
  have "take (length w) t \<noteq> w" if "w \<in> set ws" for w
    using a [OF that] by (cases w; cases t) auto
  then show ?thesis by (auto simp: white_prefix_def find_None_iff)
qed

lemma white_space_heads:
  assumes "33 \<le> unat c" "unat c \<le> 126"
  shows "\<forall>w \<in> set white_space. w \<noteq> [] \<and> hd w \<noteq> c"
    "\<forall>w \<in> set (map rev white_space). w \<noteq> [] \<and> hd w \<noteq> c"
  using assms by (auto simp: white_space_def)

lemma trim_id:
  assumes "t \<noteq> []" "33 \<le> unat (hd t)" "unat (hd t) \<le> 126" "33 \<le> unat (last t)" "unat (last t) \<le> 126"
  shows "trim t = t"
proof -
  have "trim_start white_space t = t"
    using white_space_heads(1) [OF assms(2,3)]
    by (subst trim_start.simps) (simp add: white_prefix_None)
  moreover have "trim_start (map rev white_space) (rev t) = rev t"
    using white_space_heads(2) [OF assms(4,5)] assms(1)
      white_prefix_None [of "map rev white_space" "rev t"]
    by (subst trim_start.simps) (simp only: hd_rev, simp)
  ultimately show ?thesis by (simp add: trim_def)
qed

lemma decimal_nat_props:
  "decimal_nat n \<noteq> [] \<and> (\<forall>d \<in> set (decimal_nat n). 48 \<le> unat d \<and> unat d \<le> 57)
   \<and> foldl (\<lambda>acc d. 10 * acc + (unat d - 48)) 0 (decimal_nat n) = n"
proof (induction n rule: decimal_nat.induct)
  case (1 n)
  have u: "unat (word_of_nat (48 + m) :: byte) = 48 + m" if "m < 10" for m
    unfolding unat_word_of_nat_byte using that by simp
  show ?case
  proof (cases "n < 10")
    case True
    with u [of n] show ?thesis by (subst (1 2 3) decimal_nat.simps) simp
  next
    case False
    with 1 u [of "n mod 10"] show ?thesis by (subst (1 2 3) decimal_nat.simps) (auto simp: Let_def)
  qed
qed

lemma parse_digits_decimal: "parse_digits (decimal_nat n) = Some n"
  using decimal_nat_props [of n] by (simp add: parse_digits_def)

lemma decimal_nat_hd: "48 \<le> unat (hd (decimal_nat n)) \<and> unat (hd (decimal_nat n)) \<le> 57"
  "48 \<le> unat (last (decimal_nat n)) \<and> unat (last (decimal_nat n)) \<le> 57"
  using decimal_nat_props [of n] by auto

lemma parse_i64_decimal:
  assumes "- (2 ^ 63) \<le> i" "i < 2 ^ 63"
  shows "parse_i64 (trim (decimal_int i)) = Some i"
proof -
  note d = decimal_nat_props decimal_nat_hd
  show ?thesis
  proof (cases "i < 0")
    case True
    have "trim (45 # decimal_nat (nat (- i))) = 45 # decimal_nat (nat (- i))"
      using decimal_nat_hd [of "nat (- i)"] d(1) [of "nat (- i)", THEN conjunct1]
      by (intro trim_id) auto
    with True assms show ?thesis by (simp add: decimal_int_def parse_i64_def parse_digits_decimal)
  next
    case False
    have "trim (decimal_nat (nat i)) = decimal_nat (nat i)"
      using decimal_nat_hd [of "nat i"] d(1) [of "nat i", THEN conjunct1]
      by (intro trim_id) auto
    moreover obtain c cs where c: "decimal_nat (nat i) = c # cs"
      using d(1) [of "nat i"] by (cases "decimal_nat (nat i)") auto
    moreover have "c \<noteq> 45" "c \<noteq> 43" using d(2) [of "nat i"] c by auto
    ultimately show ?thesis using False assms parse_digits_decimal [of "nat i"]
      by (simp add: decimal_int_def parse_i64_def)
  qed
qed

lemma int64_parse_format:
  assumes "length k = 8" shows "int64_parse_key (int64_format_key k) = Ok k"
proof -
  let ?i = "to_signed 64 (le_nat k)"
  have "parse_i64 (trim (decimal_int ?i)) = Some ?i"
    using to_signed_range [OF le_nat_8 [OF assms]] by (intro parse_i64_decimal) auto
  moreover have "i64_to_le ?i = k"
    using le_to_le_inverse(3) [OF assms] le_nat_8 [OF assms] by (simp add: as_i64_def)
  ultimately show ?thesis using assms
    by (simp add: int64_parse_key_def int64_format_key_def int64_decode_def need_len_def)
qed


lemma from_rfc4122_involution: "8 \<le> length b \<Longrightarrow> from_rfc4122 (from_rfc4122 b) = b"
proof -
  assume l: "8 \<le> length b"
  have "rev (take 4 b) @ rev (take 2 (drop 4 b)) @ rev (take 2 (drop 6 b)) @ drop 8 b = from_rfc4122 b"
    by (simp add: from_rfc4122_def)
  then have "from_rfc4122 (from_rfc4122 b) = take 4 b @ slice b 4 2 @ slice b 6 2 @ drop 8 b"
    using l by (simp add: from_rfc4122_def slice_def)
  moreover have "take 4 b @ slice b 4 2 @ slice b 6 2 = take 8 b"
    using take_add_slice [of 4 2 b] take_add_slice [of 6 2 b] by simp
  ultimately show ?thesis by (metis append.assoc append_take_drop_id)
qed

lemma length_from_rfc4122 [simp]: "8 \<le> length b \<Longrightarrow> length (from_rfc4122 b) = length b"
  by (simp add: from_rfc4122_def)

lemma uuid_parse_format:
  assumes "length k = 16" shows "uuid_parse_key (uuid_format_key k) = Ok k"
proof -
  let ?hex = "\<lambda>bs. concat (map hex_byte bs)"
  define r where "r = from_rfc4122 k"
  have r: "length r = 16" using assms by (simp add: r_def)
  define t where "t = ?hex (take 4 r) @ [0x2D] @ ?hex (slice r 4 2) @ [0x2D] @ ?hex (slice r 6 2)
    @ [0x2D] @ ?hex (slice r 8 2) @ [0x2D] @ ?hex (drop 10 r)"
  have f: "uuid_format_key k = t" using assms by (simp add: uuid_format_key_def t_def r_def to_rfc4122_def Let_def)
  have c: "c \<noteq> 0x2D" if "c \<in> set (?hex bs)" for c bs using set_hex [OF that] by auto
  have "filter (\<lambda>c. c \<noteq> 0x2D) (?hex bs) = ?hex bs" for bs using c by (auto intro: filter_True)
  then have "filter (\<lambda>c. c \<noteq> 0x2D) t
      = ?hex (take 4 r @ slice r 4 2 @ slice r 6 2 @ slice r 8 2 @ drop 10 r)"
    by (simp add: t_def del: filter_concat)
  also have "take 4 r @ slice r 4 2 @ slice r 6 2 @ slice r 8 2 @ drop 10 r = take 10 r @ drop 10 r"
    using take_add_slice [of 4 2 r] take_add_slice [of 6 2 r] take_add_slice [of 8 2 r] by simp
  also have "\<dots> = r" by simp
  finally have d: "filter (\<lambda>c. c \<noteq> 0x2D) t = ?hex r" .
  have "0 < length (?hex (take 4 r))" "0 < length (?hex (drop 10 r))"
    by (simp_all only: length_hex) (simp_all add: r)
  then have ne: "?hex (take 4 r) \<noteq> []" "?hex (drop 10 r) \<noteq> []"
    by (simp_all only: length_greater_0_conv not_False_eq_True)
  have h: "48 \<le> unat (hd t)" "unat (hd t) \<le> 102" "48 \<le> unat (last t)" "unat (last t) \<le> 102"
    using ne set_hex [OF hd_in_set [OF ne(1)]] set_hex [OF last_in_set [OF ne(2)]]
    by (auto simp: t_def hd_append)
  have "trim t = t" using h ne by (intro trim_id) (auto simp: t_def)
  then have "uuid_parse_key t = and_then (parse_hex_key (?hex r)) (\<lambda>rfc. Ok (from_rfc4122 rfc))"
    using length_hex [of r] r d by (simp add: uuid_parse_key_def Let_def) (simp add: t_def)
  then show ?thesis using assms
    by (simp add: f parse_hex_key_format r_def from_rfc4122_involution)
qed

subsection \<open>Properties\<close>

lemma lawful_subset:
  assumes "lawful_encoding E v" "\<And>k. w k \<Longrightarrow> v k" shows "lawful_encoding E w"
proof -
  note L = assms(2) lawful_encoding.compare_total [OF assms(1)] lawful_encoding.compare_Equal [OF assms(1)]
    lawful_encoding.compare_swap [OF assms(1)] lawful_encoding.compare_trans [OF assms(1)]
    lawful_encoding.digest_total [OF assms(1)] lawful_encoding.digest_mono [OF assms(1)]
  show ?thesis
  proof (unfold_locales, goal_cases)
    case (1 a b) then show ?case by (intro L)
  next
    case (2 a b) then show ?case by (intro L)
  next
    case (3 a b r) then show ?case using L(4) [OF L(1) L(1)] by simp
  next
    case (4 a b c) then show ?case using L(5) [OF L(1) L(1) L(1), of a b c] by simp
  next
    case (5 a) then show ?case by (intro L)
  next
    case (6 a b d e) then show ?case using L(7) [OF L(1) L(1), of a b d e] by simp
  qed
qed

lemma builtin_cases:
  assumes "builtin i = Some E"
  obtains "E = Int64Encoding" | "E = AsciiEncoding" | "E = Uuidv7Encoding" | "E = UlidEncoding"
  using assms by (auto simp: builtin_def split: if_splits)

lemma validate_builtin:
  "validate_key Int64Encoding k = Ok () \<longleftrightarrow> length k = 8"
  "validate_key AsciiEncoding k = Ok ()"
  "validate_key Uuidv7Encoding k = Ok () \<longleftrightarrow> length k = 16"
  "validate_key UlidEncoding k = Ok () \<longleftrightarrow> length k = 16"
  by (simp_all add: Int64Encoding_def AsciiEncoding_def Uuidv7Encoding_def UlidEncoding_def
      default_validate_key_def)

lemma builtin_lawful:
  assumes "builtin i = Some E" shows "lawful_encoding E (\<lambda>k. validate_key E k = Ok ())"
  using assms
proof (cases rule: builtin_cases)
  case 1
  then show ?thesis by (simp add: lawful_subset [OF int64.lawful_encoding_axioms] validate_builtin)
next
  case 2
  then show ?thesis by (simp add: lawful_subset [OF ascii.lawful_encoding_axioms])
next
  case 3
  then show ?thesis by (simp add: lawful_subset [OF uuid.lawful_encoding_axioms] validate_builtin)
next
  case 4
  then show ?thesis by (simp add: lawful_subset [OF ulid.lawful_encoding_axioms])
qed

text \<open>C8: for every built-in encoding and any two keys it accepts, a smaller digest implies
  a smaller key and a smaller key implies a digest that is not larger.\<close>

theorem builtin_digest_order:
  assumes "builtin i = Some E" "validate_key E a = Ok ()" "validate_key E b = Ok ()"
    "digest E a = Ok d" "digest E b = Ok e"
  shows "(d < e \<longrightarrow> compare E a b = Ok Less) \<and> (compare E a b = Ok Less \<longrightarrow> d \<le> e)"
  using lawful_encoding.digest_less_imp [OF builtin_lawful [OF assms(1)] assms(2-5)]
    lawful_encoding.digest_mono [OF builtin_lawful [OF assms(1)] assms(2,3) _ assms(4,5)] by blast

theorem builtin_digest_order_witness:
  "builtin (str_of ''ascii'') = Some AsciiEncoding
   \<and> digest AsciiEncoding [1] = Ok (ascii_digest [1]) \<and> digest AsciiEncoding [1, 0] = Ok (ascii_digest [1, 0])
   \<and> ascii_digest [1] \<le> ascii_digest [1, 0]"
  using builtin_digest_order [of "str_of ''ascii''" AsciiEncoding "[1]" "[1, 0]" "ascii_digest [1]"
      "ascii_digest [1, 0]"]
  by (simp add: builtin_def str_of_def AsciiEncoding_def default_validate_key_def cmp_def)

text \<open>C9: for every built-in encoding \<open>compare\<close> is a total order on the keys it accepts:
  it never fails there, \<open>Equal\<close> means equal bytes, swapping the arguments swaps the
  answer, and \<open>Less\<close> is transitive.\<close>

theorem builtin_total_order:
  assumes "builtin i = Some E" "validate_key E a = Ok ()" "validate_key E b = Ok ()"
    "validate_key E c = Ok ()"
  shows "is_ok (compare E a b) \<and> (compare E a b = Ok Equal \<longleftrightarrow> a = b)
    \<and> (compare E a b = Ok Less \<longleftrightarrow> compare E b a = Ok Greater)
    \<and> (compare E a b = Ok Less \<longrightarrow> compare E b c = Ok Less \<longrightarrow> compare E a c = Ok Less)"
  using lawful_encoding.compare_total [OF builtin_lawful [OF assms(1)] assms(2,3)]
    lawful_encoding.compare_Equal [OF builtin_lawful [OF assms(1)] assms(2,3)]
    lawful_encoding.compare_less_iff_greater [OF builtin_lawful [OF assms(1)] assms(2,3)]
    lawful_encoding.compare_trans [OF builtin_lawful [OF assms(1)] assms(2-4)]
  by (auto simp: is_ok_iff)

theorem builtin_total_order_witness:
  "compare AsciiEncoding [1] [3] = Ok Less"
  using builtin_total_order [of "str_of ''ascii''" AsciiEncoding "[1]" "[2]" "[3]"]
  by (simp add: builtin_def str_of_def validate_builtin) (simp add: AsciiEncoding_def cmp_def)

text \<open>C10: the composite keys of a non-unique index over a built-in encoding keep the
  contract: composite keys compare by source key and then by record id, equal only when
  both are, and the source key's digest is order preserving for them.\<close>

theorem composite_keys_ordered:
  assumes "builtin i = Some E" "validate_key E s = Ok ()" "validate_key E t = Ok ()"
    "0 \<le> r" "r < 2 ^ 31" "0 \<le> q" "q < 2 ^ 31"
  defines "D \<equiv> DuplicateKeyEncoding E"
  shows "compare D (dup_encode s r) (dup_encode t q)
      = and_then (compare E s t) (\<lambda>c. Ok (ord_then c (cmp r q)))
    \<and> digest D (dup_encode s r) = digest E s
    \<and> (compare D (dup_encode s r) (dup_encode t q) = Ok Less \<longrightarrow>
       digest D (dup_encode s r) = Ok d \<longrightarrow> digest D (dup_encode t q) = Ok e \<longrightarrow> d \<le> e)"
proof -
  have split: "dup_split (dup_encode s r) = Ok (s, r)" "dup_split (dup_encode t q) = Ok (t, q)"
    using assms by (simp_all add: dup_split_iff)
  have v: "dup_valid (\<lambda>k. validate_key E k = Ok ()) (dup_encode s r)"
    "dup_valid (\<lambda>k. validate_key E k = Ok ()) (dup_encode t q)"
    using split assms(2,3) by (simp_all add: dup_valid_def)
  have "compare D = dup_compare E" "digest D = dup_digest E"
    by (simp_all add: D_def DuplicateKeyEncoding_def)
  then show ?thesis
    using split lawful_encoding.digest_mono [OF dup_lawful [OF builtin_lawful [OF assms(1)]] v]
    by (simp add: dup_compare_split dup_digest_def D_def)
qed

theorem composite_keys_ordered_witness:
  "compare (DuplicateKeyEncoding AsciiEncoding) (dup_encode [7] 1) (dup_encode [7] 2) = Ok Less"
  using composite_keys_ordered [of "str_of ''ascii''" AsciiEncoding "[7]" "[7]" 1 2]
  by (simp add: builtin_def str_of_def validate_builtin) (simp add: AsciiEncoding_def cmp_def)

text \<open>C19: \<open>split\<close> accepts exactly the composite keys \<open>encode\<close> produces from a non-negative
  32 bit record id, and returns their two parts.\<close>

theorem dup_split_exact:
  "dup_split k = Ok (s, r) \<longleftrightarrow> 0 \<le> r \<and> r < 2 ^ 31 \<and> k = dup_encode s r"
  by (rule dup_split_iff)

text \<open>C17: the digest of an eight byte integer key determines the key: rebuilding from the
  digest returns the key's bytes, whatever the output buffer held, and equal digests
  mean equal keys.\<close>

theorem int64_digest_rebuilds:
  assumes "validate_key Int64Encoding k = Ok ()"
  shows "\<exists>d. digest Int64Encoding k = Ok d \<and> decode_key_from_digest Int64Encoding d out = Ok k"
  using int64_digest_value(1) [of k] int64_digest_exact [of k] assms
  by (auto simp: validate_builtin Int64Encoding_def default_validate_key_def)

theorem int64_digest_rebuilds_witness:
  "\<exists>d. digest Int64Encoding (replicate 8 5) = Ok d
     \<and> decode_key_from_digest Int64Encoding d [1, 2] = Ok (replicate 8 5)"
  using int64_digest_rebuilds [of "replicate 8 5" "[1, 2]"] by (simp add: validate_builtin)

text \<open>C18: a key printed by a built-in encoding reads back as the same key.\<close>

theorem builtin_text_round_trip:
  assumes "builtin i = Some E" "validate_key E k = Ok ()"
  shows "parse_key E (format_key E k) = Ok k"
  using assms(1)
proof (cases rule: builtin_cases)
  case 1
  then show ?thesis using assms(2) int64_parse_format [of k]
    by (simp add: validate_builtin) (simp add: Int64Encoding_def)
next
  case 2
  then show ?thesis by (simp add: AsciiEncoding_def ascii_parse_format)
next
  case 3
  then show ?thesis using assms(2) uuid_parse_format [of k]
    by (simp add: validate_builtin) (simp add: Uuidv7Encoding_def)
next
  case 4
  then show ?thesis by (simp add: UlidEncoding_def default_format_key_def parse_hex_key_format)
qed

theorem builtin_text_round_trip_witness:
  "parse_key UlidEncoding (format_key UlidEncoding (replicate 16 171)) = Ok (replicate 16 171)"
  using builtin_text_round_trip [of "str_of ''ulid''" UlidEncoding "replicate 16 171"]
  by (simp add: builtin_def str_of_def validate_builtin)

lemma builtin_i64: "builtin (str_of ''i64'') = Some Int64Encoding"
  by (simp add: builtin_def)

text \<open>C21: registering an encoding never changes what a built-in id resolves to, is refused
  for a built-in id, and otherwise makes exactly that id resolve to the new encoding.\<close>

theorem register_resolve:
  "(case register reg e of
      Inl err \<Rightarrow> builtin (enc_id e) \<noteq> None \<and> err_kind err = InvalidArgument
    | Inr reg' \<Rightarrow> builtin (enc_id e) = None \<and> resolve reg' (enc_id e) = Ok e
        \<and> resolve reg' j = (if j = enc_id e then Ok e else resolve reg j))
   \<and> resolve reg (str_of ''i64'') = Ok Int64Encoding"
  by (auto simp: register_def resolve_def builtin_i64 split: option.splits)

end
