(* ===== verification/Tree_Writer.thy ===== *)
theory Tree_Writer
  imports Page_Sink Node Encoding
begin

text \<open>
  Writing a B+tree bottom up (\<^verbatim>\<open>crates/drydb/src/builder/tree.rs\<close>): one level per height with
  the entries of its unfinished page, \<open>push\<close>, \<open>rotate\<close>, \<open>flush_page\<close> and \<open>finish\<close>.

  The callback \<open>on_value_ref\<close> is a parameter with a state of its own, which the operations
  thread through.  \<open>extra_bytes\<close> of the trait \<open>ExtraBytes\<close> is a parameter as well.  An index
  out of range and a failed \<open>expect\<close>, where the source panics, are the error \<open>corrupt\<close>; the
  lemmas on a writer's invariant show that neither is reached.
\<close>

definition MIN_PAGE_SIZE :: nat where "MIN_PAGE_SIZE = PAGE_PREFIX_LEN + 32"
definition MAX_LEVELS :: nat where "MAX_LEVELS = 64"

subsection \<open>State\<close>

record 'e Level =
  lv_payload :: bytes
  lv_sizes :: "(nat \<times> nat) list"
  lv_overflow :: "PageRef option list"
  lv_digests :: "u64 list"
  lv_extras :: "'e list"
  lv_first_key :: "bytes option"
  lv_prev_ordinal :: "page_ordinal option"
  lv_prev_offset :: "nat option"

definition level_new :: "'e Level" where
  "level_new = \<lparr>lv_payload = [], lv_sizes = [], lv_overflow = [], lv_digests = [], lv_extras = [],
     lv_first_key = None, lv_prev_ordinal = None, lv_prev_offset = None\<rparr>"

definition lv_entry_count :: "'e Level \<Rightarrow> nat" where
  "lv_entry_count l = length (lv_sizes l)"

definition level_reset :: "'e Level \<Rightarrow> 'e Level" where
  "level_reset l = l\<lparr>lv_payload := [], lv_sizes := [], lv_overflow := [], lv_digests := [], lv_extras := [],
     lv_first_key := None\<rparr>"

record 'e TreeWriter =
  tw_sink :: PageSink
  tw_page_size :: nat
  tw_layout :: NodeLayout
  tw_levels :: "'e Level list"
  tw_entries :: nat
  tw_pending_extra :: nat
  tw_extra_budget :: nat

definition choose_layout :: "nat \<Rightarrow> bool \<Rightarrow> KeyEncoding \<Rightarrow> bool \<Rightarrow> NodeLayout" where
  "choose_layout pg_size eytz E allow_omitted =
     (let compact = pg_size \<le> MAX_COMPACT_PAGE_SIZE in
      \<lparr>eytzinger = eytz, compact_meta = compact,
       omitted_keys = allow_omitted \<and> compact \<and> \<not> eytz \<and> is_digest_exact E\<rparr>)"

definition writer_new ::
  "PageSink \<Rightarrow> nat \<Rightarrow> bool \<Rightarrow> KeyEncoding \<Rightarrow> bool \<Rightarrow> 'e TreeWriter result" where
  "writer_new s pg_size eytz E allow_omitted =
     (if pg_size < MIN_PAGE_SIZE then Err invalid
      else Ok \<lparr>tw_sink = s, tw_page_size = pg_size,
               tw_layout = choose_layout pg_size eytz E allow_omitted,
               tw_levels = [level_new], tw_entries = 0, tw_pending_extra = 0,
               tw_extra_budget = usize_max\<rparr>)"

definition limit_pending_extra :: "'e TreeWriter \<Rightarrow> nat \<Rightarrow> 'e TreeWriter" where
  "limit_pending_extra w n = w\<lparr>tw_extra_budget := n\<rparr>"

definition digest_area :: "'e TreeWriter \<Rightarrow> nat \<Rightarrow> nat result" where
  "digest_area w n = ok_or (digest_area_size (tw_layout w) n) corrupt"

definition leaf_meta_area :: "'e TreeWriter \<Rightarrow> nat \<Rightarrow> nat result" where
  "leaf_meta_area w n = ok_or (leaf_meta_size (tw_layout w) n) corrupt"

definition internal_meta_area :: "'e TreeWriter \<Rightarrow> nat \<Rightarrow> nat result" where
  "internal_meta_area w n = ok_or (internal_meta_size (tw_layout w) n) corrupt"

definition stored_key_len :: "'e TreeWriter \<Rightarrow> nat \<Rightarrow> nat" where
  "stored_key_len w n = (if omitted_keys (tw_layout w) then 0 else n)"

definition level_at :: "'e TreeWriter \<Rightarrow> nat \<Rightarrow> 'e Level result" where
  "level_at w i = (if i < length (tw_levels w) then Ok (tw_levels w ! i) else Err corrupt)"

definition set_level :: "'e TreeWriter \<Rightarrow> nat \<Rightarrow> 'e Level \<Rightarrow> 'e TreeWriter" where
  "set_level w i l = w\<lparr>tw_levels := (tw_levels w)[i := l]\<rparr>"

definition inline_needs :: "'e TreeWriter \<Rightarrow> nat \<Rightarrow> nat \<Rightarrow> nat result" where
  "inline_needs w key_len value_len =
     and_then (level_at w 0) (\<lambda>l.
     let next_count = lv_entry_count l + 1 in
     and_then (leaf_meta_area w next_count) (\<lambda>meta.
     and_then (digest_area w next_count) (\<lambda>digest_bytes.
     Ok (PAGE_PREFIX_LEN + meta + digest_bytes + length (lv_payload l) + key_len + value_len))))"

definition internal_needs :: "'e TreeWriter \<Rightarrow> nat \<Rightarrow> nat \<Rightarrow> nat result" where
  "internal_needs w level key_len =
     and_then (level_at w level) (\<lambda>l.
     let next_count = lv_entry_count l + 1 in
     and_then (internal_meta_area w next_count) (\<lambda>meta.
     and_then (digest_area w next_count) (\<lambda>digest_bytes.
     Ok (PAGE_PREFIX_LEN + meta + digest_bytes + length (lv_payload l) + key_len + 8))))"

subsection \<open>Pages\<close>

text \<open>\<open>scatter_eytzinger\<close>: the in-order walk over the complete tree of \<open>n\<close> slots, filling each
  with the next digest.  \<open>unused\<close> is the digests not yet placed.\<close>

function fill :: "nat \<Rightarrow> nat \<Rightarrow> u64 list \<Rightarrow> u64 list \<Rightarrow> u64 list \<times> u64 list" where
  "fill n node slots unused =
     (if 0 < node \<and> node \<le> n then
        (let (slots1, unused1) = fill n (node * 2) slots unused;
             (slot, unused2) = (case unused1 of d # ds \<Rightarrow> (d, ds) | [] \<Rightarrow> (- 1, [])) in
         fill n (node * 2 + 1) (slots1[node - 1 := slot]) unused2)
      else (slots, unused))"
  by pat_completeness auto
termination by (relation "measure (\<lambda>(n, node, slots, unused). n + 1 - node)") auto

declare fill.simps [simp del]

definition scatter_eytzinger :: "u64 list \<Rightarrow> nat \<Rightarrow> u64 list" where
  "scatter_eytzinger ds slots = fst (fill slots 1 (replicate slots (- 1)) ds)"

text \<open>The byte position of each entry's payload, and the position past the last.\<close>

fun entry_offsets :: "nat \<Rightarrow> (nat \<times> nat) list \<Rightarrow> nat list" where
  "entry_offsets offset [] = []"
| "entry_offsets offset ((key_len, payload_len) # rest) =
     offset # entry_offsets (offset + key_len + payload_len) rest"

definition entries_end :: "nat \<Rightarrow> (nat \<times> nat) list \<Rightarrow> nat" where
  "entries_end offset sizes = offset + sum_list (map (\<lambda>(k, p). k + p) sizes)"

definition compact_slot :: "bool \<Rightarrow> nat \<times> PageRef option \<Rightarrow> nat" where
  "compact_slot is_leaf e =
     (let slot = fst e mod 65536 in if is_leaf \<and> snd e \<noteq> None then slot OR COMPACT_OVERFLOW_BIT else slot)"

definition compact_meta_bytes :: "NodeLayout \<Rightarrow> bool \<Rightarrow> nat \<Rightarrow> 'e Level \<Rightarrow> bytes" where
  "compact_meta_bytes lay is_leaf base l =
     (if is_leaf \<or> \<not> omitted_keys lay then
        concat (map (\<lambda>e. u16_to_le (compact_slot is_leaf e))
          (zip (entry_offsets base (lv_sizes l)) (lv_overflow l)))
        @ u16_to_le (entries_end base (lv_sizes l) mod 65536)
        @ (if is_leaf \<and> \<not> omitted_keys lay
           then concat (map (\<lambda>sz. u16_to_le (fst sz mod 65536)) (lv_sizes l)) else [])
      else [])"

definition classic_slot :: "bool \<Rightarrow> nat \<times> (nat \<times> nat) \<times> PageRef option \<Rightarrow> bytes" where
  "classic_slot is_leaf e =
     (case e of (offset, (key_len, payload_len), ovf) \<Rightarrow>
        i32_to_le (as_i32 offset) @ u16_to_le (key_len mod 65536)
        @ (if is_leaf then u16_to_le (if ovf \<noteq> None then OVERFLOW_SENTINEL else payload_len mod 65536)
           else []))"

definition classic_meta_bytes :: "bool \<Rightarrow> nat \<Rightarrow> 'e Level \<Rightarrow> bytes" where
  "classic_meta_bytes is_leaf base l =
     concat (map (classic_slot is_leaf)
       (zip (entry_offsets base (lv_sizes l)) (zip (lv_sizes l) (lv_overflow l))))"

definition digest_bytes :: "NodeLayout \<Rightarrow> u64 list \<Rightarrow> bytes" where
  "digest_bytes lay ds =
     concat (map u64_to_le (if eytzinger lay then scatter_eytzinger ds (complete_size (length ds)) else ds))"

text \<open>The bytes \<open>flush_page\<close> assembles, given where the payload starts.  It writes no right
  sibling; a later rotation patches it in.\<close>

definition page_image :: "NodeLayout \<Rightarrow> bool \<Rightarrow> nat \<Rightarrow> page_ordinal option \<Rightarrow> 'e Level \<Rightarrow> bytes" where
  "page_image lay is_leaf base rt l =
     i32_to_le (as_i32 (base + length (lv_payload l)))
     @ i32_to_le ((if is_leaf then 0 else 1) OR flag_bits lay)
     @ i32_to_le (as_i32 (lv_entry_count l))
     @ i64_to_le (ordinal_to_i64 (lv_prev_ordinal l))
     @ i64_to_le (ordinal_to_i64 rt)
     @ digest_bytes lay (lv_digests l)
     @ (if compact_meta lay then compact_meta_bytes lay is_leaf base l else classic_meta_bytes is_leaf base l)
     @ lv_payload l"

text \<open>The references handed to the callback for the entries of a written leaf.\<close>

fun hand_on ::
  "('e \<Rightarrow> PageRef \<Rightarrow> 'c \<Rightarrow> 'c result) \<Rightarrow> page_ordinal \<Rightarrow> nat \<Rightarrow> 'e list \<Rightarrow> (nat \<times> nat) list \<Rightarrow>
   PageRef option list \<Rightarrow> 'c \<Rightarrow> 'c result" where
  "hand_on cb ordinal offset (e # es) ((key_len, payload_len) # sizes) (ovf # ovfs) c =
     and_then (cb e (case ovf of
         Some r \<Rightarrow> r
       | None \<Rightarrow> \<lparr>ref_page = ordinal, ref_start = (offset + key_len) mod 2 ^ 32, ref_length = payload_len mod 2 ^ 32\<rparr>) c)
       (\<lambda>c'. hand_on cb ordinal (offset + key_len + payload_len) es sizes ovfs c')"
| "hand_on cb ordinal offset [] sizes ovfs c = Ok c"
| "hand_on cb ordinal offset (e # es) [] ovfs c = Err corrupt"
| "hand_on cb ordinal offset (e # es) (sz # sizes) [] c = Err corrupt"

definition flush_page ::
  "('e \<Rightarrow> PageRef \<Rightarrow> 'c \<Rightarrow> 'c result) \<Rightarrow> nat \<Rightarrow> page_ordinal \<Rightarrow> 'e TreeWriter \<Rightarrow> 'c \<Rightarrow>
   ('e TreeWriter \<times> 'c) result" where
  "flush_page cb level ordinal w c =
     and_then (level_at w level) (\<lambda>l.
     let is_leaf = (level = 0); n = lv_entry_count l in
     and_then (digest_area w n) (\<lambda>digests_len.
     and_then (if is_leaf then leaf_meta_area w n else internal_meta_area w n) (\<lambda>meta_len.
     let base = PAGE_PREFIX_LEN + digests_len + meta_len in
     if base + length (lv_payload l) > tw_page_size w then Err corrupt
     else and_then (sink_write_page (tw_sink w) (page_image (tw_layout w) is_leaf base None l)) (\<lambda>s.
     if is_leaf then
       and_then (hand_on cb ordinal base (lv_extras l) (lv_sizes l) (lv_overflow l) c) (\<lambda>c'.
       Ok (set_level (w\<lparr>tw_sink := s, tw_pending_extra := 0\<rparr>) level (l\<lparr>lv_extras := []\<rparr>), c'))
     else Ok (w\<lparr>tw_sink := s\<rparr>, c)))))"

definition write_blob_page :: "'e TreeWriter \<Rightarrow> bytes \<Rightarrow> (page_ordinal \<times> 'e TreeWriter) result" where
  "write_blob_page w val =
     and_then (sink_begin_page (tw_sink w)) (\<lambda>(ordinal, offset, s).
     let page = i32_to_le (as_i32 (PAGE_PREFIX_LEN + length val)) @ i32_to_le 0 @ i32_to_le 0
                @ i64_to_le (- 1) @ i64_to_le (- 1) @ val in
     and_then (sink_write_page s page) (\<lambda>s'. Ok (ordinal, w\<lparr>tw_sink := s'\<rparr>)))"

subsection \<open>Rotation\<close>

definition note_first_key :: "'e TreeWriter \<Rightarrow> nat \<Rightarrow> bytes \<Rightarrow> 'e TreeWriter" where
  "note_first_key w i key =
     (if lv_entry_count (tw_levels w ! i) = 0
      then set_level w i ((tw_levels w ! i)\<lparr>lv_first_key := Some key\<rparr>) else w)"

definition add_separator ::
  "'e TreeWriter \<Rightarrow> nat \<Rightarrow> u64 \<Rightarrow> bytes \<Rightarrow> page_ordinal \<Rightarrow> 'e TreeWriter" where
  "add_separator w parent d separator ordinal =
     (let l = tw_levels w ! parent in
      set_level w parent (l\<lparr>
        lv_digests := lv_digests l @ [d],
        lv_payload := lv_payload l @ (if omitted_keys (tw_layout w) then [] else separator)
                      @ i64_to_le (as_i64 ordinal),
        lv_sizes := lv_sizes l @ [(stored_key_len w (length separator), 8)],
        lv_overflow := lv_overflow l @ [None]\<rparr>))"

definition settle_level :: "'e TreeWriter \<Rightarrow> nat \<Rightarrow> page_ordinal \<Rightarrow> nat \<Rightarrow> 'e TreeWriter" where
  "settle_level w i ordinal offset =
     set_level w i ((level_reset (tw_levels w ! i))
       \<lparr>lv_prev_ordinal := Some ordinal, lv_prev_offset := Some offset\<rparr>)"

definition patch_sibling :: "'e TreeWriter \<Rightarrow> nat \<Rightarrow> page_ordinal \<Rightarrow> 'e TreeWriter" where
  "patch_sibling w level ordinal =
     (case lv_prev_offset (tw_levels w ! level) of
        Some offset \<Rightarrow> w\<lparr>tw_sink := sink_patch_at (tw_sink w) (offset + RIGHT_SIBLING_OFFSET)
                                     (i64_to_le (as_i64 ordinal))\<rparr>
      | None \<Rightarrow> w)"

definition make_parent :: "'e TreeWriter \<Rightarrow> nat \<Rightarrow> 'e TreeWriter result" where
  "make_parent w parent =
     (if parent \<ge> length (tw_levels w) then
        (if length (tw_levels w) \<ge> MAX_LEVELS then Err corrupt
         else Ok (w\<lparr>tw_levels := tw_levels w @ [level_new]\<rparr>))
      else Ok w)"

text \<open>The part of \<open>rotate\<close> before the separator is added: the page is written and linked.\<close>

definition write_level ::
  "('e \<Rightarrow> PageRef \<Rightarrow> 'c \<Rightarrow> 'c result) \<Rightarrow> nat \<Rightarrow> 'e TreeWriter \<Rightarrow> 'c \<Rightarrow>
   (page_ordinal \<times> nat \<times> 'e TreeWriter \<times> 'c) result" where
  "write_level cb level w c =
     and_then (sink_begin_page (tw_sink w)) (\<lambda>(ordinal, offset, s).
     and_then (flush_page cb level ordinal (w\<lparr>tw_sink := s\<rparr>) c) (\<lambda>(w', c').
     Ok (ordinal, offset, patch_sibling w' level ordinal, c')))"

lemma flush_page_levels:
  "flush_page cb level ordinal w c = Ok (w', c') \<Longrightarrow>
   length (tw_levels w') = length (tw_levels w) \<and> level < length (tw_levels w)"
  by (auto simp: flush_page_def Let_def level_at_def set_level_def split: if_splits)

lemma write_level_levels:
  "write_level cb level w c = Ok (ordinal, offset, w', c') \<Longrightarrow>
   length (tw_levels w') = length (tw_levels w) \<and> level < length (tw_levels w)"
  by (auto simp: write_level_def patch_sibling_def dest!: flush_page_levels split: option.splits)

lemma make_parent_levels:
  "make_parent w parent = Ok w' \<Longrightarrow> parent \<le> length (tw_levels w) \<Longrightarrow>
   parent < length (tw_levels w') \<and> length (tw_levels w') \<le> max MAX_LEVELS (length (tw_levels w))"
  by (auto simp: make_parent_def split: if_splits)

lemma note_first_key_levels [simp]: "length (tw_levels (note_first_key w i key)) = length (tw_levels w)"
  by (simp add: note_first_key_def set_level_def)

function rotate ::
  "KeyEncoding \<Rightarrow> ('e \<Rightarrow> PageRef \<Rightarrow> 'c \<Rightarrow> 'c result) \<Rightarrow> nat \<Rightarrow> bool \<Rightarrow> 'e TreeWriter \<Rightarrow> 'c \<Rightarrow>
   ('e TreeWriter \<times> 'c) result" where
  "rotate E cb level promote w c =
     and_then (write_level cb level w c) (\<lambda>(ordinal, offset, w2, c2).
     if \<not> promote then Ok (settle_level w2 level ordinal offset, c2)
     else
     and_then (ok_or (lv_first_key (tw_levels w2 ! level)) corrupt) (\<lambda>separator.
     let parent = level + 1 in
     and_then (make_parent w2 parent) (\<lambda>w3.
     let w4 = note_first_key w3 parent separator;
         key_len = stored_key_len w4 (length separator) in
     and_then (internal_needs w4 parent key_len) (\<lambda>needs.
     and_then (if needs > tw_page_size w4
               then and_then (rotate E cb parent True w4 c2)
                      (\<lambda>(w5, c5). Ok (note_first_key w5 parent separator, c5))
               else Ok (w4, c2)) (\<lambda>(w6, c6).
     and_then (digest E separator) (\<lambda>d.
     Ok (settle_level (add_separator w6 parent d separator ordinal) level ordinal offset, c6)))))))"
  by pat_completeness auto
termination
proof (relation "measure (\<lambda>(E, cb, level, promote, w, c). max MAX_LEVELS (length (tw_levels w)) - level)", goal_cases)
  case 1
  show ?case by simp
next
  case (2 E cb level promote w c r ordinal rest offset rest2 w2 c2 separator parent w3 w4 key_len needs)
  note l = write_level_levels [of cb level w c ordinal offset w2 c2]
  show ?case using 2 l make_parent_levels [of w2 "level + 1" w3] by auto
qed

declare rotate.simps [simp del]

subsection \<open>Pushing an entry\<close>

text \<open>Room is made for an entry by rotating the leaf, when not even a reference to an overflow
  page fits it; the result says whether the value has to overflow.\<close>

definition make_room ::
  "KeyEncoding \<Rightarrow> ('e \<Rightarrow> PageRef \<Rightarrow> 'c \<Rightarrow> 'c result) \<Rightarrow> bytes \<Rightarrow> nat \<Rightarrow> 'e TreeWriter \<Rightarrow> 'c \<Rightarrow>
   (bool \<times> 'e TreeWriter \<times> 'c) result" where
  "make_room E cb key value_len w c =
     (let key_len = stored_key_len w (length key) in
      and_then (inline_needs w key_len value_len) (\<lambda>needs.
      if needs > tw_page_size w then
        and_then (inline_needs w key_len 8) (\<lambda>overflow_needs.
        and_then (if overflow_needs > tw_page_size w \<and> lv_entry_count (tw_levels w ! 0) > 0
                  then and_then (rotate E cb 0 True w c) (\<lambda>(w', c'). Ok (note_first_key w' 0 key, c'))
                  else Ok (w, c)) (\<lambda>(w', c').
        and_then (inline_needs w' key_len value_len) (\<lambda>needs'.
        Ok (needs' > tw_page_size w', w', c'))))
      else Ok (False, w, c)))"

definition add_entry ::
  "'e TreeWriter \<Rightarrow> u64 \<Rightarrow> bytes \<Rightarrow> bytes \<Rightarrow> page_ordinal option \<Rightarrow> 'e \<Rightarrow> 'e TreeWriter" where
  "add_entry w d key val blob extra =
     (let l = tw_levels w ! 0;
          key_len = stored_key_len w (length key);
          stored_key = (if omitted_keys (tw_layout w) then [] else key);
          (stored, ovf) = (case blob of
              Some ordinal \<Rightarrow>
                (i64_to_le (as_i64 ordinal),
                 Some \<lparr>ref_page = ordinal, ref_start = PAGE_PREFIX_LEN, ref_length = length val\<rparr>)
            | None \<Rightarrow> (val, None)) in
      set_level w 0 (l\<lparr>
        lv_digests := lv_digests l @ [d],
        lv_payload := lv_payload l @ stored_key @ stored,
        lv_sizes := lv_sizes l @ [(key_len, length stored)],
        lv_overflow := lv_overflow l @ [ovf],
        lv_extras := lv_extras l @ [extra]\<rparr>))"

definition push ::
  "KeyEncoding \<Rightarrow> ('e \<Rightarrow> nat) \<Rightarrow> ('e \<Rightarrow> PageRef \<Rightarrow> 'c \<Rightarrow> 'c result) \<Rightarrow> bytes \<Rightarrow> bytes \<Rightarrow> 'e \<Rightarrow>
   'e TreeWriter \<Rightarrow> 'c \<Rightarrow> ('e TreeWriter \<times> 'c) result" where
  "push E extra_bytes cb key val extra w c =
     (if length key > 65535 then Err (error_new ValueTooLarge)
      else if length val > 2147483647 then Err (error_new ValueTooLarge)
      else
      let key_len = stored_key_len w (length key) in
      and_then (leaf_meta_area w 1) (\<lambda>meta_one.
      and_then (digest_area w 1) (\<lambda>digest_one.
      if PAGE_PREFIX_LEN + meta_one + digest_one + key_len + 8 > tw_page_size w
      then Err (error_new ValueTooLarge)
      else
      and_then (level_at w 0) (\<lambda>_.
      and_then (make_room E cb key (length val) (note_first_key w 0 key) c) (\<lambda>(too_large, w1, c1).
      let overflow = too_large \<or> length val \<ge> OVERFLOW_SENTINEL in
      and_then (digest E key) (\<lambda>d.
      and_then (if overflow
                then and_then (write_blob_page w1 val) (\<lambda>(ordinal, w'). Ok (Some ordinal, w'))
                else Ok (None, w1)) (\<lambda>(blob, w2).
      let w3 = (add_entry w2 d key val blob extra)
                 \<lparr>tw_pending_extra := tw_pending_extra w2 + extra_bytes extra,
                  tw_entries := tw_entries w2 + 1\<rparr> in
      if tw_pending_extra w3 > tw_extra_budget w3 \<and> lv_entry_count (tw_levels w3 ! 0) > 0
      then rotate E cb 0 True w3 c1
      else Ok (w3, c1))))))))"

subsection \<open>Finishing\<close>

lemma settle_level_levels [simp]: "length (tw_levels (settle_level w i ordinal offset)) = length (tw_levels w)"
  by (simp add: settle_level_def set_level_def)

lemma add_separator_levels [simp]: "length (tw_levels (add_separator w i d k ordinal)) = length (tw_levels w)"
  by (simp add: add_separator_def set_level_def Let_def)

text \<open>The ways a promoting rotation succeeds, as an induction principle: the page is written,
  the parent level exists, and the separator fits the parent or the parent rotates first.\<close>

lemma rotate_keep:
  "rotate E cb level False w c = Ok (w', c') \<longleftrightarrow> (\<exists>ordinal offset w2.
     write_level cb level w c = Ok (ordinal, offset, w2, c') \<and> w' = settle_level w2 level ordinal offset)"
  by (subst rotate.simps) auto

lemma rotate_promoteE:
  assumes "rotate E cb level True w c = Ok (w', c')"
  obtains ordinal offset w2 c2 separator w3 needs w6 d where
    "write_level cb level w c = Ok (ordinal, offset, w2, c2)"
    "lv_first_key (tw_levels w2 ! level) = Some separator"
    "make_parent w2 (level + 1) = Ok w3"
    "internal_needs (note_first_key w3 (level + 1) separator) (level + 1)
       (stored_key_len (note_first_key w3 (level + 1) separator) (length separator)) = Ok needs"
    "if needs > tw_page_size (note_first_key w3 (level + 1) separator)
     then \<exists>w5. rotate E cb (level + 1) True (note_first_key w3 (level + 1) separator) c2 = Ok (w5, c')
            \<and> w6 = note_first_key w5 (level + 1) separator
     else w6 = note_first_key w3 (level + 1) separator \<and> c' = c2"
    "digest E separator = Ok d"
    "w' = settle_level (add_separator w6 (level + 1) d separator ordinal) level ordinal offset"
proof -
  from assms obtain ordinal offset w2 c2 where 1: "write_level cb level w c = Ok (ordinal, offset, w2, c2)"
    by (subst (asm) rotate.simps) auto
  note eq = assms [unfolded rotate.simps [of E cb level True], unfolded 1, simplified]
  from eq obtain separator w3 where 2: "lv_first_key (tw_levels w2 ! level) = Some separator"
    "make_parent w2 (level + 1) = Ok w3" by auto
  let ?w4 = "note_first_key w3 (level + 1) separator"
  note eq2 = eq [unfolded 2 [simplified], simplified]
  from eq2 obtain needs where 3: "internal_needs ?w4 (level + 1) (stored_key_len ?w4 (length separator)) = Ok needs"
    by (auto simp: 2 [simplified] Let_def)
  show thesis using that [OF 1 2 3] eq2 by (auto simp: 2 [simplified] 3 [simplified] Let_def split: if_splits)
qed

lemma rotate_induct [consumes 1, case_names fits full]:
  assumes "rotate E cb level True w c = Ok (w', c')"
    and fits: "\<And>level w c w' c' ordinal offset w2 separator w3 needs d.
      write_level cb level w c = Ok (ordinal, offset, w2, c') \<Longrightarrow>
      lv_first_key (tw_levels w2 ! level) = Some separator \<Longrightarrow>
      make_parent w2 (level + 1) = Ok w3 \<Longrightarrow>
      internal_needs (note_first_key w3 (level + 1) separator) (level + 1)
        (stored_key_len (note_first_key w3 (level + 1) separator) (length separator)) = Ok needs \<Longrightarrow>
      needs \<le> tw_page_size (note_first_key w3 (level + 1) separator) \<Longrightarrow>
      digest E separator = Ok d \<Longrightarrow>
      w' = settle_level (add_separator (note_first_key w3 (level + 1) separator) (level + 1) d separator ordinal)
        level ordinal offset \<Longrightarrow> P level w c w' c'"
    and full: "\<And>level w c w' c' ordinal offset w2 c2 separator w3 needs w5 d.
      write_level cb level w c = Ok (ordinal, offset, w2, c2) \<Longrightarrow>
      lv_first_key (tw_levels w2 ! level) = Some separator \<Longrightarrow>
      make_parent w2 (level + 1) = Ok w3 \<Longrightarrow>
      internal_needs (note_first_key w3 (level + 1) separator) (level + 1)
        (stored_key_len (note_first_key w3 (level + 1) separator) (length separator)) = Ok needs \<Longrightarrow>
      tw_page_size (note_first_key w3 (level + 1) separator) < needs \<Longrightarrow>
      rotate E cb (level + 1) True (note_first_key w3 (level + 1) separator) c2 = Ok (w5, c') \<Longrightarrow>
      P (level + 1) (note_first_key w3 (level + 1) separator) c2 w5 c' \<Longrightarrow>
      digest E separator = Ok d \<Longrightarrow>
      w' = settle_level (add_separator (note_first_key w5 (level + 1) separator) (level + 1) d separator ordinal)
        level ordinal offset \<Longrightarrow> P level w c w' c'"
  shows "P level w c w' c'"
  using assms(1)
proof (induction "max MAX_LEVELS (length (tw_levels w)) - level" arbitrary: level w c w' c' rule: less_induct)
  case less
  from less.prems show ?case
  proof (cases rule: rotate_promoteE)
    case (1 ordinal offset w2 c2 separator w3 needs w6 d)
    show ?thesis
    proof (cases "needs > tw_page_size (note_first_key w3 (level + 1) separator)")
      case True
      then obtain w5 where w5: "rotate E cb (level + 1) True (note_first_key w3 (level + 1) separator) c2 = Ok (w5, c')"
        "w6 = note_first_key w5 (level + 1) separator" using 1(5) by auto
      have "max MAX_LEVELS (length (tw_levels (note_first_key w3 (level + 1) separator))) - (level + 1)
          < max MAX_LEVELS (length (tw_levels w)) - level"
        using write_level_levels [OF 1(1)] make_parent_levels [OF 1(3)] by auto
      from full [OF 1(1-4) True w5(1) less.hyps [OF this w5(1)] 1(6)] 1(7) w5(2) show ?thesis by blast
    next
      case False
      then have "w6 = note_first_key w3 (level + 1) separator" "c' = c2" using 1(5) by auto
      with fits [OF 1(1) [folded this(2)] 1(2-4) _ 1(6)] 1(7) False show ?thesis by simp
    qed
  qed
qed

text \<open>Rotating may add a level but none past the limit.\<close>

lemma make_parent_grows: "make_parent w parent = Ok w' \<Longrightarrow> length (tw_levels w) \<le> length (tw_levels w')"
  by (auto simp: make_parent_def split: if_splits)

lemma rotate_levels:
  assumes "rotate E cb level promote w c = Ok (w', c')"
  shows "length (tw_levels w') \<le> max MAX_LEVELS (length (tw_levels w)) \<and> length (tw_levels w) \<le> length (tw_levels w')"
proof (cases promote)
  case True
  with assms have "rotate E cb level True w c = Ok (w', c')" by simp
  then show ?thesis
  proof (induction rule: rotate_induct)
    case fits
    then show ?case using write_level_levels [OF fits(1)] make_parent_levels [OF fits(3)] make_parent_grows [OF fits(3)]
      by auto
  next
    case full
    then show ?case using write_level_levels [OF full(1)] make_parent_levels [OF full(3)] make_parent_grows [OF full(3)]
      by auto
  qed
qed (use assms in \<open>auto simp: rotate_keep dest: write_level_levels\<close>)

function finish_pass ::
  "KeyEncoding \<Rightarrow> ('e \<Rightarrow> PageRef \<Rightarrow> 'c \<Rightarrow> 'c result) \<Rightarrow> nat \<Rightarrow> bool \<Rightarrow> 'e TreeWriter \<Rightarrow> 'c \<Rightarrow>
   (bool \<times> 'e TreeWriter \<times> 'c) result" where
  "finish_pass E cb level flushed w c =
     (if level + 1 < length (tw_levels w) then
        (if lv_entry_count (tw_levels w ! level) > 0 then
           and_then (rotate E cb level True w c) (\<lambda>(w', c'). finish_pass E cb (level + 1) True w' c')
         else finish_pass E cb (level + 1) flushed w c)
      else Ok (flushed, w, c))"
  by pat_completeness auto
termination
  by (relation "measure (\<lambda>(E, cb, level, flushed, w, c). max MAX_LEVELS (length (tw_levels w)) - level)")
    (auto dest: rotate_levels)

declare finish_pass.simps [simp del]

text \<open>The passes are repeated until one writes nothing; not ending is \<open>None\<close>.\<close>

partial_function (option) finish_passes ::
  "KeyEncoding \<Rightarrow> ('e \<Rightarrow> PageRef \<Rightarrow> 'c \<Rightarrow> 'c result) \<Rightarrow> 'e TreeWriter \<Rightarrow> 'c \<Rightarrow>
   ('e TreeWriter \<times> 'c) result option" where
  "finish_passes E cb w c =
     (case finish_pass E cb 0 False w c of
        Inl e \<Rightarrow> Some (Err e)
      | Inr (flushed, w', c') \<Rightarrow> if flushed then finish_passes E cb w' c' else Some (Ok (w', c')))"

declare finish_passes.simps [code]

definition finish ::
  "KeyEncoding \<Rightarrow> ('e \<Rightarrow> PageRef \<Rightarrow> 'c \<Rightarrow> 'c result) \<Rightarrow> 'e TreeWriter \<Rightarrow> 'c \<Rightarrow>
   (page_ordinal \<times> 'e TreeWriter \<times> 'c) result option" where
  "finish E cb w c =
     (case finish_passes E cb w c of
        None \<Rightarrow> None
      | Some r \<Rightarrow> Some (
          and_then r (\<lambda>(w1, c1).
          let top = length (tw_levels w1) - 1 in
          and_then (level_at w1 top) (\<lambda>l.
          and_then (if lv_entry_count l > 0 \<or> lv_prev_ordinal l = None
                    then rotate E cb top False w1 c1 else Ok (w1, c1)) (\<lambda>(w2, c2).
          and_then (level_at w2 top) (\<lambda>l2.
          and_then (ok_or (lv_prev_ordinal l2) corrupt) (\<lambda>r. Ok (r, w2, c2))))))))"

subsection \<open>Keys that can be written\<close>

definition unwrap_or_max :: "nat option \<Rightarrow> nat" where
  "unwrap_or_max x = (case x of Some n \<Rightarrow> n | None \<Rightarrow> usize_max)"

definition check_key_fits :: "nat \<Rightarrow> NodeLayout \<Rightarrow> nat \<Rightarrow> unit result" where
  "check_key_fits pg_size lay key_len =
     (let stored = (if omitted_keys lay then 0 else key_len);
          digest_one = unwrap_or_max (digest_area_size lay 1);
          digest_two = unwrap_or_max (digest_area_size lay 2);
          leaf_one = unwrap_or_max (leaf_meta_size lay 1);
          internal_two = unwrap_or_max (internal_meta_size lay 2);
          leaf = saturating_add (saturating_add (saturating_add (saturating_add PAGE_PREFIX_LEN leaf_one)
                   digest_one) stored) 8;
          two_separators = saturating_add (saturating_add (saturating_add PAGE_PREFIX_LEN internal_two)
                   digest_two) (saturating_mul 2 (saturating_add stored 8)) in
      if leaf > pg_size then Err (error_new ValueTooLarge)
      else if two_separators > pg_size then Err (error_new ValueTooLarge)
      else Ok ())"

subsection \<open>Eytzinger order\<close>

lemma div_power_Suc: "(j :: nat) div 2 ^ Suc d = j div 2 ^ d div 2"
  by (metis div_mult2_eq power_Suc2)

lemma in_nodes_below: "j \<in> set (in_nodes n i) \<Longrightarrow> \<exists>d. j div 2 ^ d = i"
proof (induction n i rule: in_nodes.induct)
  case (1 n i)
  show ?case
  proof (cases "0 < i \<and> i \<le> n")
    case True
    with 1(3) have "j \<in> set (in_nodes n (2 * i)) \<or> j = i \<or> j \<in> set (in_nodes n (2 * i + 1))"
      by (subst (asm) in_nodes.simps) auto
    then show ?thesis
    proof (elim disjE)
      assume "j \<in> set (in_nodes n (2 * i))"
      from 1(1) [OF True this] obtain d where "j div 2 ^ d = 2 * i" by blast
      then have "j div 2 ^ Suc d = i" unfolding div_power_Suc by simp
      then show ?thesis by blast
    next
      assume "j \<in> set (in_nodes n (2 * i + 1))"
      from 1(2) [OF True this] obtain d where "j div 2 ^ d = 2 * i + 1" by blast
      then have "j div 2 ^ Suc d = i" unfolding div_power_Suc by simp
      then show ?thesis by blast
    qed (auto intro: exI [of _ 0])
  next
    case False
    with 1(3) show ?thesis by (subst (asm) in_nodes.simps) simp
  qed
qed

lemma div_power_le: "0 < d \<Longrightarrow> (m :: nat) div 2 ^ d \<le> m div 2"
  by (cases d) (auto simp: div_mult2_eq intro: div_le_dividend)

lemma div_power_apart:
  assumes "(j :: nat) div 2 ^ d = a" "j div 2 ^ e = b" "b \<noteq> a" "a div 2 < b" "b div 2 < a"
  shows False
proof (cases "d \<le> e")
  case True
  then have "b = a div 2 ^ (e - d)" using assms(1,2) by (metis div_mult2_eq le_add_diff_inverse power_add)
  with assms(3,4) div_power_le [of "e - d" a] show False by (cases "e - d") auto
next
  case False
  then have "a = b div 2 ^ (d - e)" using assms(1,2) by (metis div_mult2_eq le_add_diff_inverse nat_le_linear power_add)
  with assms(3,5) div_power_le [of "d - e" b] show False by (cases "d - e") auto
qed

lemma in_nodes_apart:
  assumes "0 < i"
  shows "set (in_nodes n (2 * i)) \<inter> set (in_nodes n (2 * i + 1)) = {}"
    "i \<notin> set (in_nodes n (2 * i))" "i \<notin> set (in_nodes n (2 * i + 1))"
proof -
  show "set (in_nodes n (2 * i)) \<inter> set (in_nodes n (2 * i + 1)) = {}"
    using in_nodes_below [of _ n "2 * i"] in_nodes_below [of _ n "2 * i + 1"] div_power_apart [of _ _ "2 * i" _ "2 * i + 1"]
      assms by fastforce
  have "i div 2 ^ d \<noteq> 2 * i" "i div 2 ^ d \<noteq> 2 * i + 1" for d
    using assms div_le_dividend [of i "2 ^ d"] by linarith+
  then show "i \<notin> set (in_nodes n (2 * i))" "i \<notin> set (in_nodes n (2 * i + 1))"
    using in_nodes_below [of i n] by blast+
qed

text \<open>The first \<open>k\<close> digests, with the filler where there are fewer.\<close>

definition pad :: "nat \<Rightarrow> u64 list \<Rightarrow> u64 list" where
  "pad k ds = take k (ds @ replicate k (- 1))"

lemma length_pad [simp]: "length (pad k ds) = k"
  by (simp add: pad_def)

lemma nth_pad: "i < k \<Longrightarrow> pad k ds ! i = (if i < length ds then ds ! i else - 1)"
  by (simp add: pad_def nth_append)

lemma pad_split: "pad (a + Suc b) ds = pad a ds @ [case drop a ds of d # _ \<Rightarrow> d | [] \<Rightarrow> - 1] @ pad b (drop (Suc a) ds)"
proof (rule nth_equalityI)
  show "length (pad (a + Suc b) ds) = length (pad a ds @ [case drop a ds of d # _ \<Rightarrow> d | [] \<Rightarrow> - 1] @ pad b (drop (Suc a) ds))"
    by simp
  fix i
  assume "i < length (pad (a + Suc b) ds)"
  then have i: "i < a + Suc b" by simp
  have hd: "(case drop a ds of d # _ \<Rightarrow> d | [] \<Rightarrow> - 1) = (if a < length ds then ds ! a else - 1)"
    by (simp add: Cons_nth_drop_Suc [symmetric] split: list.split)
  show "pad (a + Suc b) ds ! i = (pad a ds @ [case drop a ds of d # _ \<Rightarrow> d | [] \<Rightarrow> - 1] @ pad b (drop (Suc a) ds)) ! i"
  proof (cases "i \<le> a")
    case True
    with i show ?thesis unfolding hd by (cases "i = a") (auto simp: nth_append nth_pad)
  next
    case False
    then obtain x where "i = Suc (a + x)" by (metis less_imp_Suc_add not_le)
    with i show ?thesis unfolding hd by (auto simp: nth_append nth_pad)
  qed
qed

lemma fill_spec:
  assumes "length slots = n"
  shows "case fill n node slots unused of (slots', unused') \<Rightarrow>
    length slots' = n \<and> unused' = drop (length (in_nodes n node)) unused
    \<and> (\<forall>i. 0 < i \<longrightarrow> i \<notin> set (in_nodes n node) \<longrightarrow> slots' ! (i - 1) = slots ! (i - 1))
    \<and> map (\<lambda>i. slots' ! (i - 1)) (in_nodes n node) = pad (length (in_nodes n node)) unused"
  using assms
proof (induction n node slots unused rule: fill.induct)
  case (1 n node slots unused)
  show ?case
  proof (cases "0 < node \<and> node \<le> n")
    case True
    let ?L = "in_nodes n (node * 2)" and ?R = "in_nodes n (node * 2 + 1)"
    obtain s1 u1 where f1: "fill n (node * 2) slots unused = (s1, u1)" by fastforce
    note i1 = 1(1) [OF True 1(3), unfolded f1, simplified]
    define slot where "slot = (case u1 of d # _ \<Rightarrow> d | [] \<Rightarrow> - 1)"
    define u2 where "u2 = drop 1 u1"
    have u1: "(case u1 of d # ds \<Rightarrow> (d, ds) | [] \<Rightarrow> (- 1, [])) = (slot, u2)"
      by (simp add: slot_def u2_def split: list.split)
    obtain s3 u3 where f3: "fill n (node * 2 + 1) (s1[node - 1 := slot]) u2 = (s3, u3)" by fastforce
    have len: "length (s1[node - 1 := slot]) = n" using i1 by simp
    note i3 = 1(2) [OF True f1 [symmetric] refl u1 [symmetric] refl len, unfolded f3, simplified]
    have nodes: "in_nodes n node = ?L @ [node] @ ?R" using True by (subst in_nodes.simps) (simp add: mult.commute)
    note apart = in_nodes_apart [of node n, unfolded mult.commute [of 2]]
    have pos: "0 < j" "j \<le> n" if "j \<in> set ?L \<union> set ?R" for j
      using that set_in_nodes [of n "node * 2"] set_in_nodes [of n "node * 2 + 1"] by auto
    have L: "map (\<lambda>i. s3 ! (i - 1)) ?L = pad (length ?L) unused"
    proof -
      have "s3 ! (j - 1) = s1 ! (j - 1)" if j: "j \<in> set ?L" for j
      proof -
        have "j \<notin> set ?R" "j \<noteq> node" "0 < j" using j apart True pos [of j] by auto
        moreover from this have "j - 1 \<noteq> node - 1" using True by linarith
        ultimately show ?thesis using i3 by simp
      qed
      then have "map (\<lambda>i. s3 ! (i - 1)) ?L = map (\<lambda>i. s1 ! (i - 1)) ?L" by simp
      with i1 show ?thesis by simp
    qed
    have "node - 1 < length s1" using True i1 by auto
    then have M: "s3 ! (node - 1) = slot" using i3 apart(3) True by simp
    have other: "s3 ! (i - 1) = slots ! (i - 1)" if "0 < i" "i \<notin> set (in_nodes n node)" for i
      using that i1 i3 True unfolding nodes by (auto simp: nth_list_update)
    have "fill n node slots unused = (s3, u3)"
      using True by (subst fill.simps) (simp add: f1 u1 f3 [simplified])
    moreover have "u3 = drop (length (in_nodes n node)) unused"
      using i1 i3 by (simp add: nodes u2_def add.commute)
    moreover have "map (\<lambda>i. s3 ! (i - 1)) (in_nodes n node) = pad (length (in_nodes n node)) unused"
    proof -
      have "map (\<lambda>i. s3 ! (i - 1)) ?R = pad (length ?R) (drop (Suc (length ?L)) unused)"
        using i1 i3 by (simp add: u2_def)
      moreover have "slot = (case drop (length ?L) unused of d # _ \<Rightarrow> d | [] \<Rightarrow> - 1)"
        using i1 by (simp add: slot_def)
      ultimately show ?thesis using L M pad_split [of "length ?L" "length ?R" unused] by (simp add: nodes)
    qed
    ultimately show ?thesis using i3 other by simp
  next
    case False
    then have "in_nodes n node = []" by (subst in_nodes.simps) simp
    moreover have "fill n node slots unused = (slots, unused)" using False by (subst fill.simps) auto
    ultimately show ?thesis using 1(3) by (simp add: pad_def)
  qed
qed

text \<open>Scattered digests, read in the order a search meets them, are the sorted digests and
  then the filler.\<close>

lemma scatter_in_order:
  assumes "Suc n = 2 ^ k" "length ds \<le> n"
  shows "map (\<lambda>i. scatter_eytzinger ds n ! (i - 1)) (in_nodes n 1) = ds @ replicate (n - length ds) (- 1)"
    "length (scatter_eytzinger ds n) = n"
proof -
  have len: "length (in_nodes n 1) = n" using length_in_nodes [OF assms(1) at_height_root] assms(1) by simp
  from fill_spec [of "replicate n (- 1)" n 1 ds]
  show "map (\<lambda>i. scatter_eytzinger ds n ! (i - 1)) (in_nodes n 1) = ds @ replicate (n - length ds) (- 1)"
    "length (scatter_eytzinger ds n) = n"
    using assms(2) unfolding len by (auto simp: scatter_eytzinger_def pad_def split: prod.splits)
qed

subsection \<open>Reading back a written page\<close>

lemma read_has_at:
  "has_at buf pos (u16_to_le n) \<Longrightarrow> n < 65536 \<Longrightarrow> read_u16 buf pos = Ok n"
  "has_at buf pos (i32_to_le i) \<Longrightarrow> - (2 ^ 31) \<le> i \<Longrightarrow> i < 2 ^ 31 \<Longrightarrow> read_i32 buf pos = Ok i"
  "has_at buf pos (i64_to_le j) \<Longrightarrow> - (2 ^ 63) \<le> j \<Longrightarrow> j < 2 ^ 63 \<Longrightarrow> read_i64 buf pos = Ok j"
  "has_at buf pos (u64_to_le d) \<Longrightarrow> read_u64 buf pos = Ok d"
  using to_signed_of_signed [of 32 i] to_signed_of_signed [of 64 j]
  by (auto simp: has_at_def read_Ok_iff le_nat_to_le)

text \<open>The parts of a page, from the level it is made of.\<close>

definition image_wf :: "NodeLayout \<Rightarrow> bool \<Rightarrow> nat \<Rightarrow> 'e Level \<Rightarrow> bool" where
  "image_wf lay is_leaf base l \<longleftrightarrow>
     (let n = lv_entry_count l; len = base + length (lv_payload l) in
      (omitted_keys lay \<longrightarrow> compact_meta lay \<and> \<not> eytzinger lay)
      \<and> n \<le> usize_max \<and> length (lv_overflow l) = n \<and> length (lv_digests l) = n
      \<and> (\<exists>da ma. digest_area_size lay n = Some da
           \<and> meta_size (if is_leaf then Leaf else Internal) lay n = Some ma
           \<and> base = PAGE_PREFIX_LEN + da + ma)
      \<and> len < 2 ^ 31 \<and> (compact_meta lay \<longrightarrow> len \<le> MAX_COMPACT_PAGE_SIZE)
      \<and> sum_list (map (\<lambda>(k, p). k + p) (lv_sizes l)) = length (lv_payload l)
      \<and> (case lv_prev_ordinal l of None \<Rightarrow> True | Some p \<Rightarrow> p < 2 ^ 63))"

lemma length_concat_const: "(\<And>x. x \<in> set xs \<Longrightarrow> length (f x) = k) \<Longrightarrow> length (concat (map f xs)) = k * length xs"
  by (induction xs) auto

lemma length_entry_offsets [simp]: "length (entry_offsets base sizes) = length sizes"
  by (induction base sizes rule: entry_offsets.induct) auto

lemma length_digest_slots:
  assumes "length ds \<le> usize_max"
  shows "length (if eytzinger lay then scatter_eytzinger ds (complete_size (length ds)) else ds)
    = digest_slots lay (length ds)"
proof (cases "eytzinger lay")
  case True
  obtain k where k: "complete_size (length ds) = 2 ^ k - 1" using assms by (rule complete_size_least)
  then have "Suc (complete_size (length ds)) = 2 ^ k" by simp
  from scatter_in_order(2) [OF this complete_size_ge [OF assms]] True show ?thesis by (simp add: digest_slots_def)
qed (simp add: digest_slots_def)

lemma length_digest_bytes:
  assumes "length ds \<le> usize_max" "digest_area_size lay (length ds) = Some da"
  shows "length (digest_bytes lay ds) = da"
proof -
  have "length (digest_bytes lay ds) = 8 * digest_slots lay (length ds)"
    unfolding digest_bytes_def length_digest_slots [OF assms(1), symmetric] by (rule length_concat_const) simp
  with assms(2) show ?thesis by (simp add: digest_area_size_def)
qed

lemma length_compact_meta_bytes:
  assumes "length (lv_overflow l) = lv_entry_count l" "compact_meta lay"
    and "meta_size (if is_leaf then Leaf else Internal) lay (lv_entry_count l) = Some ma"
  shows "length (compact_meta_bytes lay is_leaf base l) = ma"
proof -
  let ?n = "lv_entry_count l"
  have "length (concat (map (\<lambda>e. u16_to_le (compact_slot is_leaf e))
          (zip (entry_offsets base (lv_sizes l)) (lv_overflow l)))) = 2 * ?n"
    "length (concat (map (\<lambda>sz. u16_to_le (fst sz mod 65536)) (lv_sizes l))) = 2 * ?n"
    by (subst length_concat_const [where k = 2]; use assms(1) in \<open>auto simp: lv_entry_count_def\<close>)+
  then show ?thesis using assms(2,3) unfolding compact_meta_bytes_def length_append
    by (auto simp: meta_size_def leaf_meta_size_def internal_meta_size_def bind_eq_Some_conv split: if_splits)
qed

lemma length_classic_slot [simp]: "length (classic_slot is_leaf e) = (if is_leaf then 8 else 6)"
  by (simp add: classic_slot_def split: prod.splits)

lemma length_classic_meta_bytes:
  assumes "length (lv_overflow l) = lv_entry_count l" "\<not> compact_meta lay"
    and "meta_size (if is_leaf then Leaf else Internal) lay (lv_entry_count l) = Some ma"
  shows "length (classic_meta_bytes is_leaf base l) = ma"
proof -
  have "length (classic_meta_bytes is_leaf base l) = (if is_leaf then 8 else 6) * lv_entry_count l"
    unfolding classic_meta_bytes_def
    by (subst length_concat_const [where k = "if is_leaf then 8 else 6"])
      (use assms(1) in \<open>auto simp: lv_entry_count_def\<close>)
  with assms(2,3) show ?thesis
    by (auto simp: meta_size_def leaf_meta_size_def internal_meta_size_def split: if_splits)
qed

lemma image_kind_bits:
  "parse_kind ((if is_leaf then 0 else 1) OR flag_bits lay) = Ok (if is_leaf then Leaf else Internal)"
  "parse_layout ((if is_leaf then 0 else 1) OR flag_bits lay) = lay"
  "((if is_leaf then 0 else 1) OR flag_bits lay) AND FLAG_LEGACY_KEY_DIGESTS = 0"
  "((if is_leaf then 0 else 1) OR flag_bits lay) AND NOT (KIND_MASK OR KNOWN_FLAGS) = 0"
  "- (2 ^ 31) \<le> ((if is_leaf then 0 else 1) OR flag_bits lay)" "((if is_leaf then 0 else 1) OR flag_bits lay) < 2 ^ 31"
  by (cases lay; cases is_leaf; simp add: flag_bits_def flag_defs parse_kind_def parse_layout_def Let_def)+


lemma has_at_self: "length bs \<le> usize_max \<Longrightarrow> has_at bs 0 bs"
  by (simp add: has_at_def fits_def slice_def)

lemma entries_le_payload:
  assumes "digest_area_size lay n = Some da" "n \<le> usize_max" shows "n \<le> da"
  using assms complete_size_ge [of n] by (auto simp: digest_area_size_def digest_slots_def split: if_splits)

lemma image_parts:
  assumes "image_wf lay is_leaf base l"
  obtains da ma where "digest_area_size lay (lv_entry_count l) = Some da"
    "meta_size (if is_leaf then Leaf else Internal) lay (lv_entry_count l) = Some ma"
    "base = PAGE_PREFIX_LEN + da + ma" "length (digest_bytes lay (lv_digests l)) = da"
    "length (if compact_meta lay then compact_meta_bytes lay is_leaf base l else classic_meta_bytes is_leaf base l) = ma"
    "lv_entry_count l < 2 ^ 31" "length (page_image lay is_leaf base rt l) = base + length (lv_payload l)"
proof -
  obtain da ma where d: "digest_area_size lay (lv_entry_count l) = Some da"
    "meta_size (if is_leaf then Leaf else Internal) lay (lv_entry_count l) = Some ma"
    "base = PAGE_PREFIX_LEN + da + ma"
    using assms by (auto simp: image_wf_def Let_def)
  have n: "lv_entry_count l < 2 ^ 31"
    using assms d(3) entries_le_payload [OF d(1)] by (auto simp: image_wf_def Let_def)
  then have g: "length (digest_bytes lay (lv_digests l)) = da"
    using assms d(1) by (intro length_digest_bytes) (auto simp: image_wf_def Let_def usize_max_def)
  have m: "length (if compact_meta lay then compact_meta_bytes lay is_leaf base l else classic_meta_bytes is_leaf base l) = ma"
    using assms d(2) length_compact_meta_bytes [of l lay is_leaf ma base] length_classic_meta_bytes [of l lay is_leaf ma base]
    by (auto simp: image_wf_def Let_def)
  have "length (page_image lay is_leaf base rt l) = base + length (lv_payload l)"
    unfolding page_image_def length_append m g by (simp add: d(3) PAGE_PREFIX_LEN_def)
  with that [OF d g m n] show thesis by blast
qed

definition image_view :: "NodeLayout \<Rightarrow> bool \<Rightarrow> nat \<Rightarrow> page_ordinal option \<Rightarrow> 'e Level \<Rightarrow> PageView" where
  "image_view lay is_leaf base rt l = \<lparr>pv_bytes = page_image lay is_leaf base rt l,
     pv_header = \<lparr>kind = (if is_leaf then Leaf else Internal), layout = lay, entry_count = lv_entry_count l,
       left_sibling = lv_prev_ordinal l, right_sibling = rt\<rparr>,
     meta_base = DIGEST_BASE + length (digest_bytes lay (lv_digests l)), payload_base = base\<rparr>"

lemma ordinal_to_i64_back:
  assumes "case p of None \<Rightarrow> True | Some n \<Rightarrow> n < 2 ^ 63"
  shows "ordinal_from_i64 (ordinal_to_i64 p) = Ok p" "- (2 ^ 63) \<le> ordinal_to_i64 p" "ordinal_to_i64 p < 2 ^ 63"
  using assms by (auto simp: ordinal_to_i64_def ordinal_from_i64_Ok_iff as_i64_small split: option.splits)

abbreviation ordinal_ok :: "page_ordinal option \<Rightarrow> bool" where
  "ordinal_ok p \<equiv> case p of None \<Rightarrow> True | Some n \<Rightarrow> n < 2 ^ 63"

lemma page_image_parses:
  assumes "image_wf lay is_leaf base l" and rt: "ordinal_ok rt"
  shows "page_parse (page_image lay is_leaf base rt l) = Ok (image_view lay is_leaf base rt l)"
proof -
  let ?img = "page_image lay is_leaf base rt l" and ?n = "lv_entry_count l" and ?len = "base + length (lv_payload l)"
  let ?bits = "(if is_leaf then 0 else 1) OR flag_bits lay"
  obtain da ma where p: "digest_area_size lay ?n = Some da"
    "meta_size (if is_leaf then Leaf else Internal) lay ?n = Some ma"
    "base = PAGE_PREFIX_LEN + da + ma" "length (digest_bytes lay (lv_digests l)) = da"
    "length (if compact_meta lay then compact_meta_bytes lay is_leaf base l else classic_meta_bytes is_leaf base l) = ma"
    "?n < 2 ^ 31" "length ?img = ?len"
    using image_parts [OF assms(1)] .
  have len: "?len < 2 ^ 31" using assms by (simp add: image_wf_def Let_def)
  have "has_at ?img 0 ?img" using p(7) len by (intro has_at_self) (simp add: usize_max_def)
  then have f: "has_at ?img 0 (i32_to_le (int ?len))" "has_at ?img 4 (i32_to_le ?bits)"
    "has_at ?img 8 (i32_to_le (int ?n))" "has_at ?img 12 (i64_to_le (ordinal_to_i64 (lv_prev_ordinal l)))"
    "has_at ?img 20 (i64_to_le (ordinal_to_i64 rt))"
    using len p(6) by (simp_all add: page_image_def at_append as_i32_small)
  have prev: "case lv_prev_ordinal l of None \<Rightarrow> True | Some q \<Rightarrow> q < 2 ^ 63"
    using assms by (simp add: image_wf_def Let_def)
  note r = read_has_at(2) [OF f(1)] read_has_at(2) [OF f(2) image_kind_bits(5,6)] read_has_at(2) [OF f(3)]
    read_has_at(3) [OF f(4) ordinal_to_i64_back(2,3) [OF prev]] read_has_at(3) [OF f(5) ordinal_to_i64_back(2,3) [OF rt]]
  have "and_then (read_i32 ?img 0) checked_len = Ok ?len" "and_then (read_i32 ?img 8) checked_len = Ok ?n"
    "and_then (read_i64 ?img 12) ordinal_from_i64 = Ok (lv_prev_ordinal l)"
    "and_then (read_i64 ?img 20) ordinal_from_i64 = Ok rt"
    using r len p(6) ordinal_to_i64_back(1) [OF prev] ordinal_to_i64_back(1) [OF rt] by auto
  moreover have "\<not> (omitted_keys lay \<and> \<not> compact_meta lay)" "\<not> (omitted_keys lay \<and> eytzinger lay)"
    "\<not> (compact_meta lay \<and> MAX_COMPACT_PAGE_SIZE < ?len)" using assms by (auto simp: image_wf_def Let_def)
  moreover have "28 + da \<le> usize_max" "28 + da + ma \<le> usize_max" "28 + da \<le> ?len" "28 + da + ma \<le> ?len" "28 \<le> ?len"
    using len p(3) by (auto simp: usize_max_def PAGE_PREFIX_LEN_def)
  ultimately show ?thesis
    using r(2) p(1-4,7) image_kind_bits(1-4)
    by (simp add: page_parse_def image_view_def Let_def format_consts checked_add_def del: and_then_Ok_iff)
qed

subsubsection \<open>Entries\<close>

lemma has_at_concat:
  assumes "has_at buf pos (concat (map f xs))" "\<And>x. x \<in> set xs \<Longrightarrow> length (f x) = k" "i < length xs"
  shows "has_at buf (pos + k * i) (f (xs ! i))"
proof -
  have "concat (map f xs) = concat (map f (take i xs)) @ f (xs ! i) @ concat (map f (drop (Suc i) xs))"
    using assms(3) by (metis concat.simps(2) concat_append id_take_nth_drop list.map(2) map_append)
  moreover have "length (concat (map f (take i xs))) = k * i"
    using assms(2,3) by (subst length_concat_const [where k = k]) (auto dest: in_set_takeD)
  ultimately show ?thesis using assms(1) by (simp add: at_append)
qed

definition entry_start :: "'e Level \<Rightarrow> nat \<Rightarrow> nat" where
  "entry_start l i = sum_list (map (\<lambda>(k, p). k + p) (take i (lv_sizes l)))"

definition entry_key_len :: "'e Level \<Rightarrow> nat \<Rightarrow> nat" where
  "entry_key_len l i = fst (lv_sizes l ! i)"

definition entry_val_len :: "'e Level \<Rightarrow> nat \<Rightarrow> nat" where
  "entry_val_len l i = snd (lv_sizes l ! i)"

text \<open>The stored key and value bytes of an entry.\<close>

definition stored_key :: "'e Level \<Rightarrow> nat \<Rightarrow> bytes" where
  "stored_key l i = slice (lv_payload l) (entry_start l i) (entry_key_len l i)"

definition stored_val :: "'e Level \<Rightarrow> nat \<Rightarrow> bytes" where
  "stored_val l i = slice (lv_payload l) (entry_start l i + entry_key_len l i) (entry_val_len l i)"

lemma entry_start_Suc:
  "i < lv_entry_count l \<Longrightarrow> entry_start l (Suc i) = entry_start l i + entry_key_len l i + entry_val_len l i"
  by (simp add: entry_start_def entry_key_len_def entry_val_len_def lv_entry_count_def take_Suc_conv_app_nth
      split: prod.splits)

lemma entry_start_mono: "i \<le> j \<Longrightarrow> j \<le> lv_entry_count l \<Longrightarrow> entry_start l i \<le> entry_start l j"
  by (induction j rule: dec_induct) (auto simp: entry_start_Suc)

lemma entry_start_0 [simp]: "entry_start l 0 = 0"
  by (simp add: entry_start_def)

lemma nth_entry_offsets: "i < length sizes \<Longrightarrow>
   entry_offsets base sizes ! i = base + sum_list (map (\<lambda>(k, p). k + p) (take i sizes))"
proof (induction base sizes arbitrary: i rule: entry_offsets.induct)
  case (2 offset key_len payload_len rest)
  then show ?case by (cases i) auto
qed simp

lemma entry_start_end:
  "image_wf lay is_leaf base l \<Longrightarrow> entry_start l (lv_entry_count l) = length (lv_payload l)"
  by (simp add: image_wf_def Let_def entry_start_def lv_entry_count_def)

lemma entry_start_le:
  assumes "image_wf lay is_leaf base l" "i < lv_entry_count l"
  shows "entry_start l i + entry_key_len l i + entry_val_len l i \<le> length (lv_payload l)"
  using entry_start_mono [of "Suc i" "lv_entry_count l" l] entry_start_Suc [OF assms(2)] entry_start_end [OF assms(1)] assms(2)
  by simp

text \<open>Where the parts of a page lie in it.\<close>

lemma image_at:
  fixes rt :: "page_ordinal option"
  assumes "image_wf lay is_leaf base l"
  defines "img \<equiv> page_image lay is_leaf base rt l"
    and "mb \<equiv> DIGEST_BASE + length (digest_bytes lay (lv_digests l))"
  shows "has_at img DIGEST_BASE (digest_bytes lay (lv_digests l))"
    "has_at img mb (if compact_meta lay then compact_meta_bytes lay is_leaf base l else classic_meta_bytes is_leaf base l)"
    "has_at img base (lv_payload l)"
proof -
  obtain da ma where p: "base = PAGE_PREFIX_LEN + da + ma" "length (digest_bytes lay (lv_digests l)) = da"
    "length (if compact_meta lay then compact_meta_bytes lay is_leaf base l else classic_meta_bytes is_leaf base l) = ma"
    "length img = base + length (lv_payload l)"
    using image_parts [OF assms(1)] unfolding img_def by metis
  have "length img < 2 ^ 31" using assms(1) p(4) by (simp add: image_wf_def Let_def)
  then have "has_at img 0 img" by (intro has_at_self) (simp add: usize_max_def)
  then have "has_at img 28 (digest_bytes lay (lv_digests l)
     @ (if compact_meta lay then compact_meta_bytes lay is_leaf base l else classic_meta_bytes is_leaf base l)
     @ lv_payload l)"
    unfolding img_def page_image_def at_append by simp
  then show "has_at img DIGEST_BASE (digest_bytes lay (lv_digests l))"
    "has_at img mb (if compact_meta lay then compact_meta_bytes lay is_leaf base l else classic_meta_bytes is_leaf base l)"
    "has_at img base (lv_payload l)"
    using p unfolding at_append mb_def by (simp_all add: DIGEST_BASE_def PAGE_PREFIX_LEN_def)
qed

lemma has_at_slice: "has_at buf pos bs \<Longrightarrow> a + n \<le> length bs \<Longrightarrow> slice buf (pos + a) n = slice bs a n"
  unfolding has_at_def by (metis slice_slice)

lemma has_at_fits: "has_at buf pos bs \<Longrightarrow> a + n \<le> length bs \<Longrightarrow> fits buf (pos + a) n"
  by (simp add: has_at_def fits_def)

lemma image_stored:
  fixes rt :: "page_ordinal option"
  assumes "image_wf lay is_leaf base l" "i < lv_entry_count l"
  defines "img \<equiv> page_image lay is_leaf base rt l" and "off \<equiv> base + entry_start l i"
  shows "read_slice img off (entry_key_len l i) = Ok (stored_key l i)"
    "read_slice img (off + entry_key_len l i) (entry_val_len l i) = Ok (stored_val l i)"
    "off + entry_key_len l i + entry_val_len l i \<le> length img"
proof -
  note pl = image_at(3) [OF assms(1), where rt = rt, folded img_def]
  note le = entry_start_le [OF assms(1,2)]
  have le': "entry_start l i + entry_key_len l i \<le> length (lv_payload l)" using le by simp
  show "read_slice img off (entry_key_len l i) = Ok (stored_key l i)"
    "read_slice img (off + entry_key_len l i) (entry_val_len l i) = Ok (stored_val l i)"
    using has_at_slice [OF pl le'] has_at_fits [OF pl le'] has_at_slice [OF pl le] has_at_fits [OF pl le]
    by (simp_all add: read_slice_Ok_iff stored_key_def stored_val_def off_def add.assoc)
  show "off + entry_key_len l i + entry_val_len l i \<le> length img"
    using le pl by (simp add: off_def has_at_def fits_def)
qed

text \<open>What the entries of a level must satisfy to be readable.\<close>

definition entries_wf :: "NodeLayout \<Rightarrow> bool \<Rightarrow> 'e Level \<Rightarrow> bool" where
  "entries_wf lay is_leaf l \<longleftrightarrow> (\<forall>i < lv_entry_count l.
     entry_key_len l i < 65536 \<and> (omitted_keys lay \<longrightarrow> entry_key_len l i = 0)
     \<and> (if is_leaf \<and> lv_overflow l ! i = None then entry_val_len l i < OVERFLOW_SENTINEL
        else entry_val_len l i = 8 \<and> (\<exists>p < 2 ^ 63. stored_val l i = i64_to_le (int p))))"

lemma compact_slot_offset:
  assumes "n \<le> MAX_COMPACT_PAGE_SIZE"
  shows "compact_slot is_leaf (n, ovf) AND COMPACT_OFFSET_MASK = n" "compact_slot is_leaf (n, ovf) < 65536"
    "compact_slot is_leaf (n, ovf) AND COMPACT_OVERFLOW_BIT \<noteq> 0 \<longleftrightarrow> is_leaf \<and> ovf \<noteq> None"
    "\<not> is_leaf \<Longrightarrow> compact_slot is_leaf (n, ovf) = n"
proof -
  have n: "n < 2 ^ 15" "n < 2 ^ 16" using assms by (simp_all add: MAX_COMPACT_PAGE_SIZE_def)
  have mask: "COMPACT_OFFSET_MASK = mask 15" "COMPACT_OVERFLOW_BIT = 2 ^ 15"
    by (simp_all add: COMPACT_OFFSET_MASK_def COMPACT_OVERFLOW_BIT_def mask_eq_exp_minus_1)
  have tb: "take_bit 15 n = n" "take_bit 16 n = n" using n by (simp_all add: take_bit_nat_eq_self)
  have bit: "\<not> bit n 15" using tb(1) by (metis bit_take_bit_iff less_irrefl)
  have e: "take_bit 15 (2 ^ 15 :: nat) = 0" "take_bit 16 (2 ^ 15 :: nat) = 2 ^ 15" by (simp_all add: take_bit_eq_mod)
  have "take_bit 16 (n OR 2 ^ 15) = n OR 2 ^ 15" unfolding take_bit_or tb e ..
  then have less: "n OR 2 ^ 15 < 2 ^ 16" using take_bit_nat_less_exp by metis
  have low: "(n OR 2 ^ 15) AND mask 15 = n" "n AND mask 15 = n"
    unfolding take_bit_eq_mask [symmetric] take_bit_or tb e by simp_all
  have high: "(n OR 2 ^ 15) AND 2 ^ 15 \<noteq> 0" "n AND 2 ^ 15 = 0"
    using bit unfolding and_exp_eq_0_iff_not_bit by (simp_all add: bit_or_iff bit_exp_iff bit_Suc_0_iff)
  have md: "n mod 65536 = n" using n by simp
  show "compact_slot is_leaf (n, ovf) AND COMPACT_OFFSET_MASK = n" "compact_slot is_leaf (n, ovf) < 65536"
    "compact_slot is_leaf (n, ovf) AND COMPACT_OVERFLOW_BIT \<noteq> 0 \<longleftrightarrow> is_leaf \<and> ovf \<noteq> None"
    "\<not> is_leaf \<Longrightarrow> compact_slot is_leaf (n, ovf) = n"
    using low high less n unfolding compact_slot_def Let_def mask fst_conv snd_conv md by (auto simp del: mask_numeral)
qed

text \<open>The slot of an entry in the compact metadata, and the one past it.\<close>

lemma compact_slots_at:
  fixes rt :: "page_ordinal option"
  assumes wf: "image_wf lay is_leaf base l" and c: "compact_meta lay" and k: "is_leaf \<or> \<not> omitted_keys lay"
    and i: "i < lv_entry_count l"
  defines "img \<equiv> page_image lay is_leaf base rt l"
    and "mb \<equiv> DIGEST_BASE + length (digest_bytes lay (lv_digests l))"
  shows "read_u16 img (mb + i * 2) = Ok (compact_slot is_leaf (base + entry_start l i, lv_overflow l ! i))"
    "\<exists>x. read_u16 img (mb + (i + 1) * 2) = Ok x \<and> x AND COMPACT_OFFSET_MASK = base + entry_start l (Suc i)
       \<and> (\<not> is_leaf \<longrightarrow> x = base + entry_start l (Suc i))"
    "is_leaf \<Longrightarrow> \<not> omitted_keys lay \<Longrightarrow> entry_key_len l i < 65536 \<Longrightarrow>
       read_u16 img (mb + (lv_entry_count l + 1) * 2 + i * 2) = Ok (entry_key_len l i)"
proof -
  let ?n = "lv_entry_count l"
  let ?es = "zip (entry_offsets base (lv_sizes l)) (lv_overflow l)"
  have lens: "length (lv_sizes l) = ?n" "length (lv_overflow l) = ?n"
    using wf by (simp_all add: lv_entry_count_def image_wf_def Let_def)
  then have les: "length ?es = ?n" by simp
  have es: "?es ! j = (base + entry_start l j, lv_overflow l ! j)" if "j < ?n" for j
    using that lens by (simp add: nth_entry_offsets entry_start_def)
  have small: "base + entry_start l j \<le> MAX_COMPACT_PAGE_SIZE" if "j \<le> ?n" for j
    using wf c entry_start_mono [of j ?n l] entry_start_end [OF wf] that by (simp add: image_wf_def Let_def)
  note m = image_at(2) [OF wf, where rt = rt, folded img_def mb_def, unfolded compact_meta_bytes_def if_P [OF c] if_P [OF k] at_append]
  have slot: "read_u16 img (mb + j * 2) = Ok (compact_slot is_leaf (base + entry_start l j, lv_overflow l ! j))"
    if "j < ?n" for j
    using has_at_concat [OF conjunct1 [OF m], of 2 j] that lens es [OF that] compact_slot_offset(2) [OF small [of j]]
    by (intro read_has_at(1)) (simp_all add: mult.commute)
  have slots_len: "length (concat (map (\<lambda>e. u16_to_le (compact_slot is_leaf e)) ?es)) = 2 * ?n"
    by (subst length_concat_const [where k = 2]) (simp_all add: lens)
  have last: "read_u16 img (mb + ?n * 2) = Ok (base + entry_start l ?n)"
  proof (rule read_has_at(1))
    have "entries_end base (lv_sizes l) = base + entry_start l ?n"
      using lens by (simp add: entries_end_def entry_start_def)
    then show "has_at img (mb + ?n * 2) (u16_to_le (base + entry_start l ?n))" "base + entry_start l ?n < 65536"
      using m small [of ?n] by (simp_all add: slots_len mult.commute MAX_COMPACT_PAGE_SIZE_def)
  qed
  show "read_u16 img (mb + i * 2) = Ok (compact_slot is_leaf (base + entry_start l i, lv_overflow l ! i))"
    by (rule slot [OF i])
  show "\<exists>x. read_u16 img (mb + (i + 1) * 2) = Ok x \<and> x AND COMPACT_OFFSET_MASK = base + entry_start l (Suc i)
       \<and> (\<not> is_leaf \<longrightarrow> x = base + entry_start l (Suc i))"
  proof (cases "Suc i < ?n")
    case True
    then show ?thesis using slot [OF True] compact_slot_offset [OF small, of "Suc i"] by simp
  next
    case False
    then have n: "Suc i = ?n" using i by simp
    show ?thesis using last compact_slot_offset(1) [OF small, of ?n False None]
        compact_slot_offset(4) [OF small, of ?n False None] unfolding n [symmetric] by simp
  qed
  show "read_u16 img (mb + (?n + 1) * 2 + i * 2) = Ok (entry_key_len l i)"
    if "is_leaf" "\<not> omitted_keys lay" "entry_key_len l i < 65536"
  proof (rule read_has_at(1))
    have "has_at img (mb + (?n + 1) * 2) (concat (map (\<lambda>sz. u16_to_le (fst sz mod 65536)) (lv_sizes l)))"
      using m [unfolded slots_len] that by (simp add: mult.commute)
    from has_at_concat [OF this, of 2 i] show "has_at img (mb + (?n + 1) * 2 + i * 2) (u16_to_le (entry_key_len l i))"
      using i lens that(3) by (simp add: entry_key_len_def mult.commute)
  qed (rule that(3))
qed

lemma classic_slot_at:
  fixes rt :: "page_ordinal option"
  assumes wf: "image_wf lay is_leaf base l" and c: "\<not> compact_meta lay" and i: "i < lv_entry_count l"
  defines "img \<equiv> page_image lay is_leaf base rt l"
    and "mb \<equiv> DIGEST_BASE + length (digest_bytes lay (lv_digests l))"
    and "k \<equiv> (if is_leaf then 8 else 6)"
  shows "has_at img (mb + i * k) (classic_slot is_leaf (base + entry_start l i,
    (entry_key_len l i, entry_val_len l i), lv_overflow l ! i))"
proof -
  have lens: "length (lv_sizes l) = lv_entry_count l" "length (lv_overflow l) = lv_entry_count l"
    using wf by (simp_all add: lv_entry_count_def image_wf_def Let_def)
  note m = image_at(2) [OF wf, where rt = rt, folded img_def mb_def, unfolded if_not_P [OF c] classic_meta_bytes_def]
  from has_at_concat [OF m, of k i] show ?thesis
    using i lens by (simp add: k_def mult.commute nth_entry_offsets entry_start_def entry_key_len_def entry_val_len_def)
qed

lemma image_leaf_meta:
  assumes wf: "image_wf lay True base l" "entries_wf lay True l" and i: "i < lv_entry_count l"
  shows "Node.leaf_meta (image_view lay True base rt l) i = Ok (base + entry_start l i, entry_key_len l i,
    if lv_overflow l ! i \<noteq> None then OVERFLOW_SENTINEL else entry_val_len l i)"
proof (cases "compact_meta lay")
  case True
  note s = compact_slots_at [OF wf(1) True _ i, where rt = rt]
  obtain x where x: "read_u16 (page_image lay True base rt l)
      (DIGEST_BASE + length (digest_bytes lay (lv_digests l)) + (i + 1) * 2) = Ok x"
    "x AND COMPACT_OFFSET_MASK = base + entry_start l (Suc i)" using s(2) by auto
  have small: "base + entry_start l i \<le> MAX_COMPACT_PAGE_SIZE"
    using wf(1) True entry_start_le [OF wf(1) i] by (simp add: image_wf_def Let_def)
  have e: "entry_key_len l i < 65536" "omitted_keys lay \<Longrightarrow> entry_key_len l i = 0"
    using wf(2) i by (auto simp: entries_wf_def)
  show ?thesis using True s(1,3) x e compact_slot_offset [OF small, of True "lv_overflow l ! i"]
    by (auto simp: Node.leaf_meta_def image_view_def Let_def entry_start_Suc [OF i])
next
  case False
  note s = classic_slot_at [OF wf(1) False i, where rt = rt, simplified, unfolded classic_slot_def, simplified]
  have off: "base + entry_start l i < 2 ^ 31"
    using wf(1) entry_start_le [OF wf(1) i] by (simp add: image_wf_def Let_def)
  have e: "entry_key_len l i < 65536"
    "lv_overflow l ! i = None \<Longrightarrow> entry_val_len l i < OVERFLOW_SENTINEL"
    using wf(2) i by (auto simp: entries_wf_def)
  let ?img = "page_image lay True base rt l" and ?p = "DIGEST_BASE + length (digest_bytes lay (lv_digests l)) + i * 8"
  have "has_at ?img ?p (i32_to_le (int (base + entry_start l i)))" "has_at ?img (?p + 4) (u16_to_le (entry_key_len l i))"
    "has_at ?img (?p + 6) (u16_to_le (if lv_overflow l ! i \<noteq> None then OVERFLOW_SENTINEL else entry_val_len l i))"
    using s e off by (auto simp: at_append as_i32_small OVERFLOW_SENTINEL_def ac_simps)
  then have "read_i32 ?img ?p = Ok (int (base + entry_start l i))" "read_u16 ?img (?p + 4) = Ok (entry_key_len l i)"
    "read_u16 ?img (?p + 6) = Ok (if lv_overflow l ! i \<noteq> None then OVERFLOW_SENTINEL else entry_val_len l i)"
    using off e by (auto intro!: read_has_at simp: OVERFLOW_SENTINEL_def)
  then show ?thesis using False by (simp add: Node.leaf_meta_def image_view_def checked_len_def)
qed

lemma entry_start_const:
  assumes "\<And>j. j < lv_entry_count l \<Longrightarrow> entry_key_len l j + entry_val_len l j = k" "i \<le> lv_entry_count l"
  shows "entry_start l i = k * i"
  using assms(2)
proof (induction i)
  case (Suc i)
  then show ?case using assms(1) [of i] by (simp add: entry_start_Suc)
qed simp

lemma image_internal_meta:
  assumes wf: "image_wf lay False base l" "entries_wf lay False l" and i: "i < lv_entry_count l"
  shows "Node.internal_meta (image_view lay False base rt l) i = Ok (base + entry_start l i, entry_key_len l i)"
proof (cases "compact_meta lay")
  case c: True
  have v: "entry_val_len l j = 8" "omitted_keys lay \<Longrightarrow> entry_key_len l j = 0" if "j < lv_entry_count l" for j
    using wf(2) that by (auto simp: entries_wf_def)
  show ?thesis
  proof (cases "omitted_keys lay")
    case True
    have "entry_start l i = 8 * i" using v True i by (intro entry_start_const) auto
    moreover obtain da where "base = PAGE_PREFIX_LEN + da + 0" "length (digest_bytes lay (lv_digests l)) = da"
    proof (rule image_parts [OF wf(1)])
      fix da ma
      assume "meta_size (if False then Leaf else Internal) lay (lv_entry_count l) = Some ma"
        "base = PAGE_PREFIX_LEN + da + ma" "length (digest_bytes lay (lv_digests l)) = da"
      then show thesis using that c True by (simp add: meta_size_def internal_meta_size_def)
    qed
    ultimately show ?thesis using c True v [OF i]
      by (simp add: Node.internal_meta_def image_view_def DIGEST_BASE_def PAGE_PREFIX_LEN_def)
  next
    case False
    note s = compact_slots_at [OF wf(1) c _ i, where rt = rt]
    have small: "base + entry_start l i \<le> MAX_COMPACT_PAGE_SIZE"
      using wf(1) c entry_start_le [OF wf(1) i] by (simp add: image_wf_def Let_def)
    show ?thesis using c False s(1,2) v(1) [OF i] compact_slot_offset(4) [OF small, of False]
      by (auto simp: Node.internal_meta_def image_view_def entry_start_Suc [OF i])
  qed
next
  case False
  note s = classic_slot_at [OF wf(1) False i, where rt = rt, simplified, unfolded classic_slot_def, simplified]
  have off: "base + entry_start l i < 2 ^ 31"
    using wf(1) entry_start_le [OF wf(1) i] by (simp add: image_wf_def Let_def)
  have e: "entry_key_len l i < 65536" using wf(2) i by (auto simp: entries_wf_def)
  let ?img = "page_image lay False base rt l" and ?p = "DIGEST_BASE + length (digest_bytes lay (lv_digests l)) + i * 6"
  have "has_at ?img ?p (i32_to_le (int (base + entry_start l i)))" "has_at ?img (?p + 4) (u16_to_le (entry_key_len l i))"
    using s e off by (auto simp: at_append as_i32_small ac_simps)
  then have "read_i32 ?img ?p = Ok (int (base + entry_start l i))" "read_u16 ?img (?p + 4) = Ok (entry_key_len l i)"
    using off e by (auto intro!: read_has_at)
  then show ?thesis using False by (simp add: Node.internal_meta_def image_view_def checked_len_def)
qed

text \<open>A written leaf gives back each entry: its key bytes, and its value or the page that holds
  it.\<close>

lemma image_payload_range:
  assumes "image_wf lay is_leaf base l" "i < lv_entry_count l"
  shows "payload_range (image_view lay is_leaf base rt l) (base + entry_start l i) (entry_key_len l i + entry_val_len l i) = Ok ()"
proof -
  have "length (page_image lay is_leaf base rt l) < 2 ^ 31"
    using image_parts [OF assms(1)] assms(1) unfolding image_wf_def Let_def by metis
  then show ?thesis using image_stored(3) [OF assms, where rt = rt]
    by (simp add: payload_range_Ok_iff image_view_def usize_max_def add.assoc)
qed

lemma read_i64_stored:
  assumes "read_slice buf pos 8 = Ok (i64_to_le (int p))" "p < 2 ^ 63" shows "read_i64 buf pos = Ok (int p)"
proof (rule read_has_at(3))
  show "has_at buf pos (i64_to_le (int p))"
    using assms(1) unfolding read_slice_Ok_iff has_at_def length_to_le by metis
qed (use assms(2) in auto)

lemma image_leaf_entry:
  fixes rt :: "page_ordinal option"
  assumes wf: "image_wf lay True base l" "entries_wf lay True l" and i: "i < lv_entry_count l"
  defines "v \<equiv> image_view lay True base rt l"
  shows "\<exists>e. leaf_entry v i = Ok e \<and> leaf_key v e = Ok (stored_key l i) \<and>
    (if lv_overflow l ! i = None
     then \<exists>off. le_value e = Inline off (entry_val_len l i)
       \<and> off = base + entry_start l i + entry_key_len l i \<and> inline_value v off (entry_val_len l i) = Ok (stored_val l i)
     else \<exists>p < 2 ^ 63. le_value e = Overflow p \<and> stored_val l i = i64_to_le (int p))"
proof -
  note meta = image_leaf_meta [OF wf i, where rt = rt, folded v_def]
  note st = image_stored [OF wf(1) i, where rt = rt]
  note rng = image_payload_range [OF wf(1) i, where rt = rt, folded v_def]
  have v: "pv_kind v = Leaf" "check_index v i = Ok ()" "pv_layout v = lay" "pv_bytes v = page_image lay True base rt l"
    using i by (simp_all add: v_def image_view_def check_index_def)
  have omit: "omitted_keys lay \<Longrightarrow> entry_key_len l i = 0" using wf(2) i by (auto simp: entries_wf_def)
  show ?thesis
  proof (cases "lv_overflow l ! i")
    case None
    then have "entry_val_len l i \<noteq> OVERFLOW_SENTINEL" using wf(2) i by (auto simp: entries_wf_def)
    then show ?thesis using None meta v rng omit st by (auto simp: leaf_entry_def leaf_key_def inline_value_def)
  next
    case (Some r)
    then have "if True \<and> lv_overflow l ! i = None then entry_val_len l i < OVERFLOW_SENTINEL
        else entry_val_len l i = 8 \<and> (\<exists>p < 2 ^ 63. stored_val l i = i64_to_le (int p))"
      using wf(2) i unfolding entries_wf_def by blast
    then obtain p where p: "p < 2 ^ 63" "stored_val l i = i64_to_le (int p)" "entry_val_len l i = 8"
      using Some by auto
    from read_i64_stored [OF st(2) [unfolded p(2,3)] p(1)]
    show ?thesis using Some meta v rng omit st p
      by (auto simp: leaf_entry_def leaf_key_def ordinal_from_i64_def)
  qed
qed

lemma image_internal_entry:
  fixes rt :: "page_ordinal option"
  assumes wf: "image_wf lay False base l" "entries_wf lay False l" and i: "i < lv_entry_count l"
  defines "v \<equiv> image_view lay False base rt l"
  shows "\<exists>e. internal_entry v i = Ok e \<and> internal_key v e = Ok (stored_key l i)
    \<and> ie_child e < 2 ^ 63 \<and> stored_val l i = i64_to_le (int (ie_child e))"
proof -
  note meta = image_internal_meta [OF wf i, where rt = rt, folded v_def]
  note st = image_stored [OF wf(1) i, where rt = rt]
  note rng = image_payload_range [OF wf(1) i, where rt = rt, folded v_def]
  have v: "pv_kind v = Internal" "check_index v i = Ok ()" "pv_layout v = lay" "pv_bytes v = page_image lay False base rt l"
    using i by (simp_all add: v_def image_view_def check_index_def)
  obtain p where p: "p < 2 ^ 63" "stored_val l i = i64_to_le (int p)" "entry_val_len l i = 8"
    "omitted_keys lay \<Longrightarrow> entry_key_len l i = 0"
    using wf(2) i unfolding entries_wf_def by auto
  from read_i64_stored [OF st(2) [unfolded p(2,3)] p(1)]
  show ?thesis using meta v rng st p
    by (auto simp: internal_entry_def internal_key_def ordinal_from_i64_def)
qed


subsubsection \<open>Digests\<close>

lemma image_digests:
  assumes wf: "image_wf lay is_leaf base l" and rt: "ordinal_ok rt"
  shows "digests (image_view lay is_leaf base rt l)
    = (if eytzinger lay then scatter_eytzinger (lv_digests l) (complete_size (lv_entry_count l)) else lv_digests l)"
    (is "digests ?v = ?ds")
proof (rule nth_equalityI)
  have n: "length (lv_digests l) = lv_entry_count l" using wf by (simp add: image_wf_def Let_def)
  have "view_wf ?v" using page_parse_wf [OF page_image_parses [OF wf rt]] by simp
  then have "digest_slot_count ?v = digest_slots lay (lv_entry_count l)"
    using digest_slot_count_wf by (force simp: image_view_def)
  moreover have "length ?ds = digest_slots lay (lv_entry_count l)"
    using wf by (intro length_digest_slots [of "lv_digests l" lay, unfolded n]) (simp add: image_wf_def Let_def)
  ultimately show "length (digests ?v) = length ?ds" by simp
  fix i
  assume "i < length (digests ?v)"
  then have i: "i < length ?ds" using \<open>length (digests ?v) = length ?ds\<close> by simp
  have "has_at (page_image lay is_leaf base rt l) DIGEST_BASE (concat (map u64_to_le ?ds))"
    using image_at(1) [OF wf] unfolding digest_bytes_def n .
  from has_at_concat [OF this _ i, of 8]
  have "has_at (page_image lay is_leaf base rt l) (DIGEST_BASE + i * 8) (u64_to_le (?ds ! i))" by (simp add: mult.commute)
  from read_has_at(4) [OF this] show "digests ?v ! i = ?ds ! i"
    using \<open>i < length (digests ?v)\<close> by (simp add: digests_def read_Ok_iff image_view_def)
qed

lemma image_inorder_digests:
  assumes wf: "image_wf lay is_leaf base l" and rt: "ordinal_ok rt"
  shows "\<exists>k. inorder_digests (image_view lay is_leaf base rt l) = lv_digests l @ replicate k (- 1)"
proof (cases "eytzinger lay")
  case True
  have n: "length (lv_digests l) = lv_entry_count l" "lv_entry_count l \<le> usize_max"
    using wf by (simp_all add: image_wf_def Let_def)
  obtain k where "complete_size (lv_entry_count l) = 2 ^ k - 1" using n(2) by (rule complete_size_least)
  then have k: "Suc (complete_size (lv_entry_count l)) = 2 ^ k" by simp
  have "length (lv_digests l) \<le> complete_size (lv_entry_count l)" using complete_size_ge [OF n(2)] n(1) by simp
  note s = scatter_in_order [OF k this]
  have "digest_slot_count (image_view lay is_leaf base rt l) = complete_size (lv_entry_count l)"
    using arg_cong [OF image_digests [OF wf rt], of length] True s(2) by simp
  then show ?thesis using True image_digests [OF wf rt] s(1) by (auto simp: inorder_digests_def image_view_def)
next
  case False
  then show ?thesis using image_digests [OF wf rt] by (auto simp: inorder_digests_def image_view_def)
qed

lemma image_validates:
  assumes wf: "image_wf lay is_leaf base l" "entries_wf lay is_leaf l"
  shows "page_validate (image_view lay is_leaf base rt l) = Ok ()"
proof -
  let ?v = "image_view lay is_leaf base rt l"
  have v: "pv_kind ?v = (if is_leaf then Leaf else Internal)" "pv_entry_count ?v = lv_entry_count l" "pv_layout ?v = lay"
    by (simp_all add: image_view_def)
  have entries: "is_leaf \<Longrightarrow> i < lv_entry_count l \<Longrightarrow> \<exists>e. leaf_entry ?v i = Ok e"
    "\<not> is_leaf \<Longrightarrow> i < lv_entry_count l \<Longrightarrow> \<exists>e. internal_entry ?v i = Ok e" for i
    using image_leaf_entry [of lay base l i rt] image_internal_entry [of lay base l i rt] wf by (cases is_leaf; auto)+
  have "and_then (ok_or (checked_mul (complete_size (lv_entry_count l)) 8) corrupt) (\<lambda>len.
      and_then (ok_or (checked_add DIGEST_BASE len) corrupt) (\<lambda>stop.
      if stop > length (pv_bytes ?v) then Err corrupt else Ok ())) = Ok ()" if "eytzinger lay"
  proof (rule image_parts [OF wf(1)])
    fix da ma
    assume p: "digest_area_size lay (lv_entry_count l) = Some da" "base = PAGE_PREFIX_LEN + da + ma"
      "length (page_image lay is_leaf base rt l) = base + length (lv_payload l)"
    moreover have "base + length (lv_payload l) < 2 ^ 31" using wf(1) by (simp add: image_wf_def Let_def)
    ultimately show ?thesis using that
      by (simp add: digest_area_size_def digest_slots_def checked_mul_def checked_add_def image_view_def
          usize_max_def DIGEST_BASE_def PAGE_PREFIX_LEN_def split: if_splits)
  qed
  then show ?thesis unfolding page_validate_def v using entries
    by (auto simp: for_each_Ok_iff split: if_splits)
qed

end
