(* ===== verification/Tree_Build.thy ===== *)
theory Tree_Build
  imports Tree_Writer
begin

text \<open>
  What the tree writer of Tree_Writer builds.  The file is described by abstract pages: an
  overflow page with its value, or a node with its height, right sibling and entries.  The
  invariant says, level by level, that the buffers encode the pending entries, that the
  nodes written at a height are chained to their neighbours, and that a level's entries,
  written and pending, are the separators of the level below.  Pushing, rotating and
  finishing keep it; a finished tree has one node at the top and holds exactly the entries
  pushed, in order.
\<close>

subsection \<open>Abstract pages\<close>

datatype item = Stored bytes | Spilled page_ordinal bytes | Child page_ordinal

type_synonym entry = "bytes \<times> item"

fun item_bytes :: "item \<Rightarrow> bytes" where
  "item_bytes (Stored v) = v"
| "item_bytes (Spilled p v) = i64_to_le (as_i64 p)"
| "item_bytes (Child p) = i64_to_le (as_i64 p)"

fun item_ref :: "item \<Rightarrow> PageRef option" where
  "item_ref (Spilled p v) = Some \<lparr>ref_page = p, ref_start = PAGE_PREFIX_LEN, ref_length = length v\<rparr>"
| "item_ref (Stored v) = None"
| "item_ref (Child p) = None"

definition key_bytes :: "NodeLayout \<Rightarrow> bytes \<Rightarrow> bytes" where
  "key_bytes lay k = (if omitted_keys lay then [] else k)"

definition entry_size :: "NodeLayout \<Rightarrow> entry \<Rightarrow> nat \<times> nat" where
  "entry_size lay e = (length (key_bytes lay (fst e)), length (item_bytes (snd e)))"

definition entry_bytes :: "NodeLayout \<Rightarrow> entry \<Rightarrow> bytes" where
  "entry_bytes lay e = key_bytes lay (fst e) @ item_bytes (snd e)"

text \<open>The level's buffers are the encoding of a list of entries.\<close>

definition holds :: "KeyEncoding \<Rightarrow> NodeLayout \<Rightarrow> 'e Level \<Rightarrow> entry list \<Rightarrow> bool" where
  "holds E lay l ents \<longleftrightarrow> lv_sizes l = map (entry_size lay) ents
     \<and> lv_payload l = concat (map (entry_bytes lay) ents)
     \<and> lv_overflow l = map (\<lambda>e. item_ref (snd e)) ents
     \<and> map Ok (lv_digests l) = map (\<lambda>e. digest E (fst e)) ents
     \<and> (ents \<noteq> [] \<longrightarrow> lv_first_key l = Some (fst (hd ents)))"

definition base_of :: "NodeLayout \<Rightarrow> bool \<Rightarrow> nat \<Rightarrow> nat" where
  "base_of lay is_leaf n = PAGE_PREFIX_LEN + the (digest_area_size lay n)
     + the (meta_size (if is_leaf then Leaf else Internal) lay n)"

text \<open>A page of the file: of an earlier tree, an overflow page, or a node with its height, right
  sibling, the level it was written from and the entries it holds.\<close>

datatype 'e gpage = Other bytes | BlobPage bytes
  | NodePage (node_height: nat) (node_right: "page_ordinal option") (node_level: "'e Level") (node_entries: "entry list")

definition blob_image :: "bytes \<Rightarrow> bytes" where
  "blob_image val = i32_to_le (as_i32 (PAGE_PREFIX_LEN + length val)) @ i32_to_le 0 @ i32_to_le 0
                @ i64_to_le (- 1) @ i64_to_le (- 1) @ val"

fun gbytes :: "NodeLayout \<Rightarrow> 'e gpage \<Rightarrow> bytes" where
  "gbytes lay (Other bs) = bs"
| "gbytes lay (BlobPage val) = blob_image val"
| "gbytes lay (NodePage h rt l ents) = page_image lay (h = 0) (base_of lay (h = 0) (lv_entry_count l)) rt l"

definition at_height :: "nat \<Rightarrow> 'e gpage \<Rightarrow> bool" where
  "at_height h g = (case g of NodePage h' rt l ents \<Rightarrow> h' = h | _ \<Rightarrow> False)"

definition nodes :: "'e gpage list \<Rightarrow> nat \<Rightarrow> nat list" where
  "nodes gs h = filter (\<lambda>i. at_height h (gs ! i)) [0..<length gs]"

definition content :: "'e gpage list \<Rightarrow> nat \<Rightarrow> entry list" where
  "content gs h = concat (map (\<lambda>p. node_entries (gs ! p)) (nodes gs h))"

definition separators :: "'e gpage list \<Rightarrow> nat \<Rightarrow> entry list" where
  "separators gs h = map (\<lambda>p. (fst (hd (node_entries (gs ! p))), Child p)) (nodes gs h)"

subsubsection \<open>Sizes\<close>

lemma areas_defined:
  assumes "n < 2 ^ 32"
  shows "\<exists>a. digest_area_size lay n = Some a \<and> 8 * n \<le> a" "\<exists>m. meta_size k lay n = Some m"
proof -
  have n: "n \<le> usize_max" using assms by (simp add: usize_max_def)
  obtain j where j: "complete_size n = 2 ^ j - 1" "n \<le> 2 ^ j - 1" "j = 0 \<or> 2 ^ (j - 1) - 1 < n"
    using complete_size_least [OF n] .
  have "complete_size n \<le> 2 * n"
  proof (cases j)
    case (Suc i)
    then have "2 ^ i \<le> n" using j(3) by simp
    then show ?thesis using j(1) Suc by simp
  qed (use j in simp)
  then show "\<exists>a. digest_area_size lay n = Some a \<and> 8 * n \<le> a"
    using assms complete_size_ge [OF n] by (simp add: digest_area_size_def digest_slots_def checked_mul_def usize_max_def)
  show "\<exists>m. meta_size k lay n = Some m" using assms
    by (cases k) (auto simp: meta_size_def leaf_meta_size_def internal_meta_size_def checked_mul_def checked_add_def usize_max_def)
qed

lemma base_of_ge: "n < 2 ^ 32 \<Longrightarrow> PAGE_PREFIX_LEN + 8 * n \<le> base_of lay is_leaf n"
  using areas_defined(1) [of n lay] by (auto simp: base_of_def)

lemma base_of_internal_one: "base_of lay False 1 \<le> base_of lay True 1"
  by (simp add: base_of_def meta_size_def leaf_meta_size_def internal_meta_size_def checked_add_def checked_mul_def usize_max_def)

lemma inline_needs_eq:
  assumes "tw_levels w \<noteq> []" "lv_entry_count (tw_levels w ! 0) < 2 ^ 31"
  shows "inline_needs w k v = Ok (base_of (tw_layout w) True (lv_entry_count (tw_levels w ! 0) + 1)
    + length (lv_payload (tw_levels w ! 0)) + k + v)"
proof -
  let ?n = "lv_entry_count (tw_levels w ! 0) + 1"
  have n: "?n < 2 ^ 32" using assms(2) by simp
  obtain a m where "digest_area_size (tw_layout w) ?n = Some a" "meta_size Leaf (tw_layout w) ?n = Some m"
    using areas_defined(1) [OF n] areas_defined(2) [OF n] by blast
  then show ?thesis using assms(1)
    by (simp add: inline_needs_def level_at_def leaf_meta_area_def digest_area_def base_of_def meta_size_def Let_def ok_or_def)
qed

lemma internal_needs_eq:
  assumes "h < length (tw_levels w)" "lv_entry_count (tw_levels w ! h) < 2 ^ 31"
  shows "internal_needs w h k = Ok (base_of (tw_layout w) False (lv_entry_count (tw_levels w ! h) + 1)
    + length (lv_payload (tw_levels w ! h)) + k + 8)"
proof -
  let ?n = "lv_entry_count (tw_levels w ! h) + 1"
  have n: "?n < 2 ^ 32" using assms(2) by simp
  obtain a m where "digest_area_size (tw_layout w) ?n = Some a" "meta_size Internal (tw_layout w) ?n = Some m"
    using areas_defined(1) [OF n] areas_defined(2) [OF n] by blast
  then show ?thesis using assms(1)
    by (simp add: internal_needs_def level_at_def internal_meta_area_def digest_area_def base_of_def meta_size_def Let_def ok_or_def)
qed

subsection \<open>Well-formed levels and pages\<close>

text \<open>A key that fits an empty leaf together with a reference to an overflow page.\<close>

definition key_room :: "NodeLayout \<Rightarrow> nat \<Rightarrow> bytes \<Rightarrow> bool" where
  "key_room lay psize k \<longleftrightarrow> length k < 65536 \<and> base_of lay True 1 + length (key_bytes lay k) + 8 \<le> psize"

fun item_ok :: "'e gpage list \<Rightarrow> bool \<Rightarrow> item \<Rightarrow> bool" where
  "item_ok gs is_leaf (Stored v) \<longleftrightarrow> is_leaf \<and> length v < OVERFLOW_SENTINEL"
| "item_ok gs is_leaf (Spilled p v) \<longleftrightarrow> is_leaf \<and> p < length gs \<and> gs ! p = BlobPage v \<and> length v < 2 ^ 31"
| "item_ok gs is_leaf (Child p) \<longleftrightarrow> \<not> is_leaf \<and> p < length gs"

definition level_wf :: "KeyEncoding \<Rightarrow> NodeLayout \<Rightarrow> nat \<Rightarrow> 'e gpage list \<Rightarrow> bool \<Rightarrow> 'e Level \<Rightarrow> entry list \<Rightarrow> bool" where
  "level_wf E lay psize gs is_leaf l ents \<longleftrightarrow> holds E lay l ents \<and> length ents < 2 ^ 28
     \<and> (\<forall>e \<in> set ents. key_room lay psize (fst e) \<and> item_ok gs is_leaf (snd e))
     \<and> base_of lay is_leaf (length ents) + length (lv_payload l) \<le> psize
     \<and> (is_leaf \<longrightarrow> length (lv_extras l) = length ents)
     \<and> (case lv_prev_ordinal l of None \<Rightarrow> True | Some p \<Rightarrow> p < length gs)"

text \<open>What a writer's settings satisfy.\<close>

definition settings_ok :: "NodeLayout \<Rightarrow> nat \<Rightarrow> bool" where
  "settings_ok lay psize \<longleftrightarrow> MIN_PAGE_SIZE \<le> psize \<and> psize < 2 ^ 31
     \<and> (compact_meta lay \<longrightarrow> psize \<le> MAX_COMPACT_PAGE_SIZE) \<and> (omitted_keys lay \<longrightarrow> compact_meta lay \<and> \<not> eytzinger lay)"

lemma holds_count: "holds E lay l ents \<Longrightarrow> lv_entry_count l = length ents"
  by (simp add: holds_def lv_entry_count_def)

lemma level_wf_count: "level_wf E lay psize gs is_leaf l ents \<Longrightarrow> lv_entry_count l = length ents \<and> length ents < 2 ^ 28"
  by (auto simp: level_wf_def dest: holds_count)

lemma room_count:
  assumes "n < 2 ^ 28" "base_of lay is_leaf (n + 1) + k \<le> psize" "settings_ok lay psize"
  shows "n + 1 < 2 ^ 28"
proof -
  have "PAGE_PREFIX_LEN + 8 * (n + 1) \<le> base_of lay is_leaf (n + 1)" using assms(1) by (intro base_of_ge) simp
  then have "PAGE_PREFIX_LEN + 8 * (n + 1) \<le> psize" "psize < 2 ^ 31" using assms(2,3) by (simp_all add: settings_ok_def)
  then show ?thesis by simp
qed

subsection \<open>A level's page\<close>

lemma slice_of_concat:
  assumes "i < length xs"
  shows "slice (concat xs) (length (concat (take i xs))) (length (xs ! i)) = xs ! i"
  using concat_split [OF assms] by (simp add: slice_def)

lemma sum_sizes:
  "sum_list (map (\<lambda>(k, p). k + p) (map (entry_size lay) ents)) = length (concat (map (entry_bytes lay) ents))"
  by (induction ents) (auto simp: entry_size_def entry_bytes_def)

lemma holds_stored:
  assumes "holds E lay l ents" "i < length ents"
  shows "stored_key l i = key_bytes lay (fst (ents ! i))" "stored_val l i = item_bytes (snd (ents ! i))"
    "entry_key_len l i = length (key_bytes lay (fst (ents ! i)))" "entry_val_len l i = length (item_bytes (snd (ents ! i)))"
proof -
  have sz: "lv_sizes l ! i = entry_size lay (ents ! i)" using assms by (simp add: holds_def)
  then show len: "entry_key_len l i = length (key_bytes lay (fst (ents ! i)))" "entry_val_len l i = length (item_bytes (snd (ents ! i)))"
    by (simp_all add: entry_key_len_def entry_val_len_def entry_size_def)
  have start: "entry_start l i = length (concat (take i (map (entry_bytes lay) ents)))"
    using assms(1) sum_sizes [of lay "take i ents"] by (simp add: entry_start_def holds_def take_map)
  have "slice (lv_payload l) (entry_start l i) (length (entry_bytes lay (ents ! i))) = entry_bytes lay (ents ! i)"
    using assms slice_of_concat [of i "map (entry_bytes lay) ents"] by (simp add: start holds_def)
  then have e: "slice (lv_payload l) (entry_start l i) (entry_key_len l i + entry_val_len l i)
      = key_bytes lay (fst (ents ! i)) @ item_bytes (snd (ents ! i))"
    by (simp add: len entry_bytes_def)
  show "stored_key l i = key_bytes lay (fst (ents ! i))"
    using arg_cong [OF e, of "take (entry_key_len l i)"] by (simp add: stored_key_def len slice_def)
  show "stored_val l i = item_bytes (snd (ents ! i))"
    using arg_cong [OF e, of "drop (entry_key_len l i)"] by (simp add: stored_val_def len slice_def drop_take add.commute)
qed

lemma level_image:
  assumes wf: "level_wf E lay psize gs is_leaf l ents" and ok: "settings_ok lay psize" and gs: "length gs \<le> 2 ^ 31"
  shows "image_wf lay is_leaf (base_of lay is_leaf (lv_entry_count l)) l" "entries_wf lay is_leaf l"
proof -
  have h: "holds E lay l ents" and n: "lv_entry_count l = length ents" "length ents < 2 ^ 28"
    and pl: "base_of lay is_leaf (length ents) + length (lv_payload l) \<le> psize"
    and pr: "case lv_prev_ordinal l of None \<Rightarrow> True | Some p \<Rightarrow> p < length gs"
    and es: "\<And>e. e \<in> set ents \<Longrightarrow> key_room lay psize (fst e) \<and> item_ok gs is_leaf (snd e)"
    using wf level_wf_count [OF wf] by (auto simp: level_wf_def)
  have len: "length (lv_digests l) = length ents" "length (lv_overflow l) = length ents"
    using h by (auto simp: holds_def dest: arg_cong [of _ _ length])
  have sum: "sum_list (map (\<lambda>(k, p). k + p) (lv_sizes l)) = length (lv_payload l)"
    using h sum_sizes [of lay ents] by (simp add: holds_def)
  have areas: "\<exists>da ma. digest_area_size lay (length ents) = Some da
      \<and> meta_size (if is_leaf then Leaf else Internal) lay (length ents) = Some ma
      \<and> base_of lay is_leaf (length ents) = PAGE_PREFIX_LEN + da + ma"
    using areas_defined(1) [of "length ents" lay] areas_defined(2) [of "length ents" "if is_leaf then Leaf else Internal" lay] n
    by (auto simp: base_of_def)
  show "image_wf lay is_leaf (base_of lay is_leaf (lv_entry_count l)) l"
    unfolding image_wf_def Let_def n(1)
    using ok len sum areas pl n(2) pr gs by (auto simp: settings_ok_def usize_max_def split: option.splits)
  show "entries_wf lay is_leaf l"
    unfolding entries_wf_def n(1)
  proof (intro allI impI)
    fix i
    assume i: "i < length ents"
    then have e: "key_room lay psize (fst (ents ! i))" "item_ok gs is_leaf (snd (ents ! i))" using es [of "ents ! i"] by auto
    have o: "lv_overflow l ! i = item_ref (snd (ents ! i))" using h i by (simp add: holds_def)
    have p: "\<exists>q<2 ^ 63. i64_to_le (as_i64 p) = i64_to_le (int q)" if "p < length gs" for p
      using that gs by (intro exI [of _ p]) (simp add: as_i64_small)
    show "entry_key_len l i < 65536 \<and> (omitted_keys lay \<longrightarrow> entry_key_len l i = 0)
      \<and> (if is_leaf \<and> lv_overflow l ! i = None then entry_val_len l i < OVERFLOW_SENTINEL
         else entry_val_len l i = 8 \<and> (\<exists>p<2 ^ 63. stored_val l i = i64_to_le (int p)))"
      using e gs holds_stored [OF h i] o
      by (cases "snd (ents ! i)") (auto simp: key_room_def key_bytes_def dest!: p)
  qed
qed

text \<open>The page a level was written from gives its entries back.\<close>

lemma image_digest_at:
  assumes wf: "level_wf E lay psize gs is_leaf l ents" and i: "i < length ents"
  shows "digest E (fst (ents ! i)) = Ok (lv_digests l ! i)"
proof -
  have "map Ok (lv_digests l) ! i = map (\<lambda>e. digest E (fst e)) ents ! i" "length (lv_digests l) = length ents"
    using wf by (auto simp: level_wf_def holds_def dest: arg_cong [of _ _ length])
  then show ?thesis using i by simp
qed

subsection \<open>Writing a page of a level\<close>

lemma write_at_inside: "pos + length x \<le> length p \<Longrightarrow> write_at p pos x = take pos p @ x @ drop (pos + length x) p"
  by (simp add: write_at_def)

lemma stored_page_patch:
  assumes "stored_page f page = Ok bs" "PAGE_PREFIX_LEN \<le> length page" "length x = 8"
  shows "stored_page f (write_at page RIGHT_SIBLING_OFFSET x) = Ok (write_at bs RIGHT_SIBLING_OFFSET x)"
proof (cases f)
  case None
  then show ?thesis using assms(1) by (simp add: stored_page_def)
next
  case (Some g)
  let ?a = "take 28 page" and ?b = "drop 28 page"
  have la: "length ?a = 28" using assms(2) by (simp add: PAGE_PREFIX_LEN_def)
  have "write_at page 20 x = write_at (?a @ ?b) 20 x" by simp
  also have "\<dots> = write_at ?a 20 x @ ?b" using la assms(3) by (intro write_at_append_left) simp
  finally have w: "write_at page 20 x = write_at ?a 20 x @ ?b" .
  have lw: "length (write_at ?a 20 x) = 28" using la assms(3) by (simp add: length_write_at)
  have m: "write_at (i @ drop 4 ?a @ c) 20 x = i @ drop 4 (write_at ?a 20 x) @ c" if "length i = 4" for i c
  proof -
    have "write_at (i @ drop 4 ?a @ c) (length i + 16) x = i @ write_at (drop 4 ?a) 16 x @ c"
      using la assms(3) by (intro write_at_middle) simp
    moreover have "write_at (drop 4 ?a) 16 x = drop 4 (write_at ?a 20 x)"
      using la assms(3) by (simp add: write_at_inside del: take_drop drop_drop add: drop_take)
    ultimately show ?thesis using that by simp
  qed
  obtain payload where p: "filter_encode g ?b = Ok payload" "PAGE_PREFIX_LEN + length payload \<le> 2147483647"
    "bs = i32_to_le (int (PAGE_PREFIX_LEN + length payload)) @ drop 4 ?a @ payload"
    using assms(1) Some by (auto simp: stored_page_def PAGE_PREFIX_LEN_def simp del: drop_take split: if_splits)
  have d: "drop 28 (write_at page 20 x) = ?b" "take 28 (write_at page 20 x) = write_at ?a 20 x"
    unfolding w using lw by (simp_all del: take_drop drop_drop)
  show ?thesis unfolding Some stored_page_def option.case RIGHT_SIBLING_OFFSET_def
    using p d m [of "i32_to_le (int (PAGE_PREFIX_LEN + length payload))" payload]
    by (simp add: PAGE_PREFIX_LEN_def del: take_drop drop_drop drop_take)
qed

fun set_right :: "page_ordinal option \<Rightarrow> 'e gpage \<Rightarrow> 'e gpage" where
  "set_right rt (NodePage h _ l ents) = NodePage h rt l ents"
| "set_right rt (Other bs) = Other bs"
| "set_right rt (BlobPage v) = BlobPage v"

lemma length_gbytes_node: "PAGE_PREFIX_LEN \<le> length (gbytes lay (NodePage h rt l ents))"
  by (simp add: page_image_def PAGE_PREFIX_LEN_def)

lemma gbytes_patch:
  "write_at (gbytes lay (NodePage h None l ents)) RIGHT_SIBLING_OFFSET (i64_to_le (as_i64 p))
   = gbytes lay (NodePage h (Some p) l ents)"
  by (simp add: page_image_def RIGHT_SIBLING_OFFSET_def write_at_def ordinal_to_i64_def)

text \<open>The file holds the abstract pages after \<open>front\<close>, each stored through the filter.\<close>

definition sink_state :: "PageSink \<Rightarrow> NodeLayout \<Rightarrow> bytes \<Rightarrow> 'e gpage list \<Rightarrow> bytes list \<Rightarrow> bool" where
  "sink_state s lay front gs st \<longleftrightarrow> sink_holds s front st
     \<and> list_all2 (\<lambda>g b. stored_page (sink_filter s) (gbytes lay g) = Ok b) gs st \<and> length gs \<le> 2147483647"

lemma sink_state_page:
  assumes "sink_state s lay front gs st" "sink_begin_page s = Ok (ordinal, offset, s1)"
    "sink_write_page s1 (gbytes lay g) = Ok s2"
  shows "\<exists>b. ordinal = length gs \<and> offset = stored_offsets (length front) (st @ [b]) ! length gs
    \<and> sink_state s2 lay front (gs @ [g]) (st @ [b])"
proof -
  have h: "sink_holds s front st" "length st = length gs"
    using assms(1) by (auto simp: sink_state_def dest: list_all2_lengthD)
  obtain b where b: "stored_page (sink_filter s) (gbytes lay g) = Ok b" "ordinal = length st"
    "offset = stored_offsets (length front) (st @ [b]) ! length st" "sink_holds s2 front (st @ [b])"
    "sink_filter s2 = sink_filter s"
    using sink_holds_page [OF h(1) assms(2,3)] by blast
  have "length gs < 2147483647"
    using assms(2) h by (auto simp: sink_begin_page_def directory_push_def sink_holds_def spool_holds_def split: if_splits)
  then show ?thesis using assms(1) b h by (auto simp: sink_state_def list_all2_appendI)
qed

lemma sink_state_patch:
  assumes "sink_state s lay front gs st" "p < length gs" "gs ! p = NodePage h None l ents"
  shows "\<exists>st'. sink_state (sink_patch_at s (stored_offsets (length front) st ! p + RIGHT_SIBLING_OFFSET)
      (i64_to_le (as_i64 q))) lay front (gs[p := NodePage h (Some q) l ents]) st'
    \<and> stored_offsets (length front) st' = stored_offsets (length front) st"
proof -
  have h: "sink_holds s front st" "length st = length gs"
    and st: "stored_page (sink_filter s) (gbytes lay (gs ! p)) = Ok (st ! p)"
    using assms by (auto simp: sink_state_def list_all2_conv_all_nth)
  have len: "PAGE_PREFIX_LEN \<le> length (st ! p)"
    using stored_page_prefix [OF st] length_gbytes_node assms(3) by metis
  let ?b = "write_at (st ! p) RIGHT_SIBLING_OFFSET (i64_to_le (as_i64 q))"
  have "stored_page (sink_filter s) (gbytes lay (NodePage h (Some q) l ents)) = Ok ?b"
    using stored_page_patch [OF st] length_gbytes_node gbytes_patch assms(3) by (metis length_to_le(3))
  then have "list_all2 (\<lambda>g b. stored_page (sink_filter s) (gbytes lay g) = Ok b)
      (gs[p := NodePage h (Some q) l ents]) (st[p := ?b])"
    using assms(1) by (auto simp: sink_state_def list_all2_update_cong)
  moreover have "sink_holds (sink_patch_at s (stored_offsets (length front) st ! p + RIGHT_SIBLING_OFFSET)
      (i64_to_le (as_i64 q))) front (st[p := ?b])"
    using len assms(2) h(2) by (intro sink_holds_patch [OF h(1)]) (simp_all add: RIGHT_SIBLING_OFFSET_def PAGE_PREFIX_LEN_def)
  moreover have "stored_offsets (length front) (st[p := ?b]) = stored_offsets (length front) st"
    using len by (intro stored_offsets_cong) (simp add: map_update length_write_at RIGHT_SIBLING_OFFSET_def PAGE_PREFIX_LEN_def list_update_same_conv assms(2) h(2))
  ultimately show ?thesis using assms(1) by (auto simp: sink_state_def sink_patch_at_def)
qed

subsubsection \<open>References handed on\<close>

fun value_refs :: "page_ordinal \<Rightarrow> nat \<Rightarrow> (nat \<times> nat) list \<Rightarrow> PageRef option list \<Rightarrow> PageRef list" where
  "value_refs p offset ((k, v) # sizes) (ovf # ovfs) =
     (case ovf of Some r \<Rightarrow> r
      | None \<Rightarrow> \<lparr>ref_page = p, ref_start = (offset + k) mod 2 ^ 32, ref_length = v mod 2 ^ 32\<rparr>)
     # value_refs p (offset + k + v) sizes ovfs"
| "value_refs p offset _ _ = []"

fun run_refs :: "('e \<Rightarrow> PageRef \<Rightarrow> 'c \<Rightarrow> 'c result) \<Rightarrow> ('e \<times> PageRef) list \<Rightarrow> 'c \<Rightarrow> 'c result" where
  "run_refs cb [] c = Ok c"
| "run_refs cb ((e, r) # rs) c = and_then (cb e r c) (run_refs cb rs)"

lemma run_refs_append: "run_refs cb (xs @ ys) c = and_then (run_refs cb xs c) (run_refs cb ys)"
proof (induction cb xs c rule: run_refs.induct)
  case (2 cb e r rs c)
  then show ?case by (cases "cb e r c") auto
qed simp

lemma hand_on_refs:
  "length es = length sizes \<Longrightarrow> length ovfs = length sizes \<Longrightarrow>
   hand_on cb p offset es sizes ovfs c = run_refs cb (zip es (value_refs p offset sizes ovfs)) c"
proof (induction cb p offset es sizes ovfs c rule: hand_on.induct)
  case (1 cb ordinal offset e es key_len payload_len sizes ovf ovfs c)
  then show ?case by (auto intro!: and_then_cong)
qed auto

definition node_refs :: "NodeLayout \<Rightarrow> 'e gpage list \<Rightarrow> nat \<Rightarrow> ('e \<times> PageRef) list" where
  "node_refs lay gs p = (let l = node_level (gs ! p) in
     zip (lv_extras l) (value_refs p (base_of lay True (lv_entry_count l)) (lv_sizes l) (lv_overflow l)))"

definition handed :: "NodeLayout \<Rightarrow> 'e gpage list \<Rightarrow> ('e \<times> PageRef) list" where
  "handed lay gs = concat (map (node_refs lay gs) (nodes gs 0))"

subsection \<open>Growing the file\<close>

lemma at_height_simps [simp]:
  "at_height h (NodePage j rt l ents) \<longleftrightarrow> j = h" "\<not> at_height h (Other bs)" "\<not> at_height h (BlobPage v)"
  by (auto simp: at_height_def)

lemma set_right_same [simp]:
  "at_height h (set_right rt g) = at_height h g" "node_level (set_right rt g) = node_level g"
  "node_entries (set_right rt g) = node_entries g" "set_right rt g = BlobPage v \<longleftrightarrow> g = BlobPage v"
  by (cases g; simp)+

lemma nodes_snoc: "nodes (gs @ [g]) h = nodes gs h @ (if at_height h g then [length gs] else [])"
proof -
  have "filter (\<lambda>i. at_height h ((gs @ [g]) ! i)) [0..<length gs] = filter (\<lambda>i. at_height h (gs ! i)) [0..<length gs]"
    by (rule filter_cong) (auto simp: nth_append)
  then show ?thesis by (simp add: nodes_def)
qed

lemma in_nodes_iff: "p \<in> set (nodes gs h) \<longleftrightarrow> p < length gs \<and> at_height h (gs ! p)"
  by (auto simp: nodes_def)

text \<open>Every page is kept, but that a node at one of the heights \<open>H\<close> may get a right sibling, and
  new pages belong to the tree, nodes at these heights only.\<close>

definition frame :: "nat set \<Rightarrow> 'e gpage list \<Rightarrow> 'e gpage list \<Rightarrow> bool" where
  "frame H gs gs' \<longleftrightarrow> length gs \<le> length gs'
     \<and> (\<forall>i < length gs. gs' ! i = gs ! i \<or> (\<exists>h \<in> H. at_height h (gs ! i)) \<and> (\<exists>rt. gs' ! i = set_right rt (gs ! i)))
     \<and> (\<forall>i. length gs \<le> i \<and> i < length gs' \<longrightarrow> (\<forall>h. at_height h (gs' ! i) \<longrightarrow> h \<in> H) \<and> (\<forall>b. gs' ! i \<noteq> Other b))"

lemma frame_refl: "frame H gs gs"
  by (auto simp: frame_def)

lemma frame_mono: "frame H gs gs' \<Longrightarrow> H \<subseteq> K \<Longrightarrow> frame K gs gs'"
  unfolding frame_def by (meson subsetD)

lemma at_height_unique: "at_height h g \<Longrightarrow> at_height k g \<Longrightarrow> h = k"
  by (cases g) auto

lemma frame_at:
  assumes "frame H gs gs'" "i < length gs"
  shows "i < length gs'" "at_height h (gs' ! i) = at_height h (gs ! i)" "node_level (gs' ! i) = node_level (gs ! i)"
    "node_entries (gs' ! i) = node_entries (gs ! i)" "gs' ! i = BlobPage v \<longleftrightarrow> gs ! i = BlobPage v"
    "at_height h (gs ! i) \<Longrightarrow> h \<notin> H \<Longrightarrow> gs' ! i = gs ! i" "gs' ! i = Other b \<longleftrightarrow> gs ! i = Other b"
proof -
  show "i < length gs'" using assms by (auto simp: frame_def)
  have or: "gs' ! i = gs ! i \<or> (\<exists>h \<in> H. at_height h (gs ! i)) \<and> (\<exists>rt. gs' ! i = set_right rt (gs ! i))"
    using assms by (auto simp: frame_def)
  then show "at_height h (gs' ! i) = at_height h (gs ! i)" "node_level (gs' ! i) = node_level (gs ! i)"
    "node_entries (gs' ! i) = node_entries (gs ! i)"
    by auto
  show "gs' ! i = BlobPage v \<longleftrightarrow> gs ! i = BlobPage v" using or set_right_same(4) by metis
  show "gs' ! i = Other b \<longleftrightarrow> gs ! i = Other b" using or by (cases "gs ! i") auto
  show "gs' ! i = gs ! i" if "at_height h (gs ! i)" "h \<notin> H" using or that at_height_unique by metis
qed

lemma frame_trans:
  assumes "frame H gs gs'" "frame H gs' gs''"
  shows "frame H gs gs''"
  unfolding frame_def
proof (intro conjI allI impI)
  show "length gs \<le> length gs''" using assms by (auto simp: frame_def)
  fix i
  assume i: "i < length gs"
  have "set_right rt (set_right rt' g) = set_right rt g" for rt rt' and g :: "'a gpage" by (cases g) auto
  then show "gs'' ! i = gs ! i \<or> (\<exists>h \<in> H. at_height h (gs ! i)) \<and> (\<exists>rt. gs'' ! i = set_right rt (gs ! i))"
    using assms i frame_at(1) [OF assms(1) i] unfolding frame_def by (metis set_right_same(1))
next
  fix i
  assume i: "length gs \<le> i \<and> i < length gs''"
  show "gs'' ! i \<noteq> Other b" for b
  proof (cases "i < length gs'")
    case True
    then have "gs' ! i \<noteq> Other b" using i assms(1) unfolding frame_def by blast
    then show ?thesis using frame_at(7) [OF assms(2) True] by simp
  next
    case False
    then have "length gs' \<le> i" by simp
    then show ?thesis using i assms(2) unfolding frame_def by blast
  qed
  fix h
  assume "at_height h (gs'' ! i)"
  note i = i this
  show "h \<in> H"
  proof (cases "i < length gs'")
    case True
    then show ?thesis using i frame_at(2) [OF assms(2) True] assms(1) by (auto simp: frame_def)
  next
    case False
    then have "length gs' \<le> i" by simp
    then show ?thesis using i assms(2) unfolding frame_def by blast
  qed
qed

lemma frame_nodes:
  assumes "frame H gs gs'" "h \<notin> H"
  shows "nodes gs' h = nodes gs h"
proof -
  have "[0..<length gs'] = [0..<length gs] @ [length gs..<length gs']"
    using assms(1) by (simp add: frame_def) (metis le_add_diff_inverse upt_add_eq_append zero_le)
  moreover have "filter (\<lambda>i. at_height h (gs' ! i)) [length gs..<length gs'] = []"
    using assms by (auto simp: frame_def filter_empty_conv)
  moreover have "filter (\<lambda>i. at_height h (gs' ! i)) [0..<length gs] = filter (\<lambda>i. at_height h (gs ! i)) [0..<length gs]"
    using frame_at(2) [OF assms(1)] by (intro filter_cong) auto
  ultimately show ?thesis by (simp add: nodes_def)
qed

lemma frame_content:
  assumes "frame H gs gs'" "h \<notin> H"
  shows "content gs' h = content gs h" "separators gs' h = separators gs h"
    "\<And>p. p \<in> set (nodes gs h) \<Longrightarrow> gs' ! p = gs ! p"
proof -
  show same: "gs' ! p = gs ! p" if "p \<in> set (nodes gs h)" for p
    using that frame_at(6) [OF assms(1), of p h] assms(2) by (simp add: in_nodes_iff)
  then have "map (\<lambda>p. node_entries (gs' ! p)) (nodes gs h) = map (\<lambda>p. node_entries (gs ! p)) (nodes gs h)"
    by (intro map_cong) auto
  then show "content gs' h = content gs h" unfolding content_def frame_nodes [OF assms] by (rule arg_cong)
  show "separators gs' h = separators gs h" using same frame_nodes [OF assms] by (simp add: separators_def)
qed

lemma item_ok_frame: "frame H gs gs' \<Longrightarrow> item_ok gs is_leaf it \<Longrightarrow> item_ok gs' is_leaf it"
  using frame_at(1,5) by (cases it) (auto, blast+)

lemma level_wf_frame:
  assumes "frame H gs gs'" "level_wf E lay psize gs is_leaf l ents"
  shows "level_wf E lay psize gs' is_leaf l ents"
proof -
  have "length gs \<le> length gs'" using assms(1) by (simp add: frame_def)
  then show ?thesis using assms item_ok_frame [OF assms(1)] by (auto simp: level_wf_def split: option.splits)
qed

subsection \<open>The invariant of a level\<close>

definition last_opt :: "'a list \<Rightarrow> 'a option" where
  "last_opt xs = (if xs = [] then None else Some (last xs))"

text \<open>The nodes of a height are linked to their neighbours in both directions.\<close>

definition chained :: "'e gpage list \<Rightarrow> nat \<Rightarrow> bool" where
  "chained gs h \<longleftrightarrow> (let ps = nodes gs h in \<forall>k < length ps.
     lv_prev_ordinal (node_level (gs ! (ps ! k))) = (if k = 0 then None else Some (ps ! (k - 1)))
     \<and> node_right (gs ! (ps ! k)) = (if k + 1 < length ps then Some (ps ! (k + 1)) else None))"

definition level_inv ::
  "KeyEncoding \<Rightarrow> NodeLayout \<Rightarrow> nat \<Rightarrow> 'e gpage list \<Rightarrow> nat list \<Rightarrow> 'e Level \<Rightarrow> entry list \<Rightarrow> nat \<Rightarrow> bool" where
  "level_inv E lay psize gs offs l pending h \<longleftrightarrow>
     level_wf E lay psize gs (h = 0) l pending
     \<and> lv_prev_ordinal l = last_opt (nodes gs h)
     \<and> lv_prev_offset l = map_option (\<lambda>p. offs ! p) (last_opt (nodes gs h))
     \<and> chained gs h
     \<and> (\<forall>p \<in> set (nodes gs h). level_wf E lay psize gs (h = 0) (node_level (gs ! p)) (node_entries (gs ! p)))"

lemma level_inv_frame:
  assumes "frame H gs gs'" "h \<notin> H" "\<And>p. p < length gs \<Longrightarrow> offs' ! p = offs ! p"
    "level_inv E lay psize gs offs l pending h"
  shows "level_inv E lay psize gs' offs' l pending h"
proof -
  note n = frame_nodes [OF assms(1,2)] and c = frame_content(3) [OF assms(1,2)]
  have last: "last_opt (nodes gs h) = Some p \<Longrightarrow> p < length gs" for p
    using last_in_set [of "nodes gs h"] by (auto simp: last_opt_def in_nodes_iff split: if_splits)
  have "chained gs' h" using assms(4) c nth_mem unfolding level_inv_def chained_def n Let_def by metis
  moreover have "map_option ((!) offs') (last_opt (nodes gs h)) = map_option ((!) offs) (last_opt (nodes gs h))"
    using last assms(3) by (cases "last_opt (nodes gs h)") auto
  ultimately show ?thesis using assms(4) level_wf_frame [OF assms(1)] c by (auto simp: level_inv_def n)
qed

lemma chained_snoc:
  fixes gs :: "'e gpage list" and ents :: "entry list"
  assumes "chained gs h" "lv_prev_ordinal l = last_opt (nodes gs h)"
  defines "p \<equiv> length gs"
  defines "gs' \<equiv> (case last_opt (nodes gs h) of None \<Rightarrow> gs | Some q \<Rightarrow> gs[q := set_right (Some p) (gs ! q)]) @ [NodePage h None l ents]"
  shows "chained gs' h" "frame {h} gs gs'" "nodes gs' h = nodes gs h @ [p]" "gs' ! p = NodePage h None l ents"
    "length gs' = Suc p"
proof -
  let ?ps = "nodes gs h"
  let ?g = "case last_opt ?ps of None \<Rightarrow> gs | Some q \<Rightarrow> gs[q := set_right (Some p) (gs ! q)]"
  have len: "length ?g = length gs" by (simp split: option.splits)
  have in_ps: "q < length gs \<and> at_height h (gs ! q)" if "last_opt ?ps = Some q" for q
    using that last_in_set [of ?ps] by (auto simp: last_opt_def in_nodes_iff split: if_splits)
  have g: "?g ! i = (if last_opt ?ps = Some i then set_right (Some p) (gs ! i) else gs ! i)" if "i < length gs" for i
    using that by (auto split: option.splits)
  show "length gs' = Suc p" by (simp add: gs'_def len p_def)
  show gp: "gs' ! p = NodePage h None l ents" unfolding gs'_def p_def using nth_append_length [of ?g] len p_def by metis
  have g': "gs' ! i = (if last_opt ?ps = Some i then set_right (Some p) (gs ! i) else gs ! i)" if "i < length gs" for i
    using g [OF that] that len unfolding gs'_def by (simp add: nth_append)
  show f: "frame {h} gs gs'" unfolding frame_def
  proof (intro conjI allI impI)
    show "length gs \<le> length gs'" by (simp add: gs'_def len)
    show "gs' ! i = gs ! i \<or> (\<exists>h \<in> {h}. at_height h (gs ! i)) \<and> (\<exists>rt. gs' ! i = set_right rt (gs ! i))" if "i < length gs" for i
      using g' [OF that] in_ps [of i] by auto
    show "gs' ! i \<noteq> Other b" if "length gs \<le> i \<and> i < length gs'" for i b
    proof -
      have "i = p" using that by (simp add: gs'_def len p_def)
      then show ?thesis using gp by simp
    qed
    show "k \<in> {h}" if "length gs \<le> i \<and> i < length gs'" "at_height k (gs' ! i)" for i k
    proof -
      have "i = p" using that(1) by (simp add: gs'_def len p_def)
      then show ?thesis using that(2) gp by simp
    qed
  qed
  have "nodes ?g h = ?ps"
  proof -
    have "filter (\<lambda>i. at_height h (?g ! i)) [0..<length gs] = filter (\<lambda>i. at_height h (gs ! i)) [0..<length gs]"
      using g by (intro filter_cong) auto
    then show ?thesis unfolding nodes_def [of ?g] len nodes_def [of gs, symmetric] .
  qed
  then show n: "nodes gs' h = ?ps @ [p]" unfolding gs'_def by (simp add: nodes_snoc len p_def)
  have dist: "distinct ?ps" by (simp add: nodes_def)
  show "chained gs' h" unfolding chained_def n Let_def
  proof (intro allI impI)
    fix k
    assume "k < length (?ps @ [p])"
    then consider "k < length ?ps" | "k = length ?ps" by fastforce
    then show "lv_prev_ordinal (node_level (gs' ! ((?ps @ [p]) ! k))) = (if k = 0 then None else Some ((?ps @ [p]) ! (k - 1)))
      \<and> node_right (gs' ! ((?ps @ [p]) ! k)) = (if k + 1 < length (?ps @ [p]) then Some ((?ps @ [p]) ! (k + 1)) else None)"
    proof cases
      case 1
      let ?q = "?ps ! k"
      have q: "?q < length gs" "at_height h (gs ! ?q)" using nth_mem [OF 1] by (auto simp: in_nodes_iff)
      have last: "last_opt ?ps = Some ?q \<longleftrightarrow> k + 1 = length ?ps"
        using 1 dist by (auto simp: last_opt_def last_conv_nth nth_eq_iff_index_eq)
      have c: "lv_prev_ordinal (node_level (gs ! ?q)) = (if k = 0 then None else Some (?ps ! (k - 1)))"
        "node_right (gs ! ?q) = (if k + 1 < length ?ps then Some (?ps ! (k + 1)) else None)"
        using assms(1) 1 unfolding chained_def Let_def by blast+
      have "node_right (set_right (Some p) (gs ! ?q)) = Some p" using q(2) by (cases "gs ! ?q") auto
      then show ?thesis using g' [OF q(1)] last c 1 by (auto simp: nth_append)
    next
      case 2
      then show ?thesis using gp assms(2) by (auto simp: nth_append last_opt_def last_conv_nth)
    qed
  qed
qed

lemma handed_frame:
  assumes "frame H gs gs'" "nodes gs' 0 = nodes gs 0 @ extra" "\<And>p. p \<in> set extra \<Longrightarrow> length gs \<le> p"
  shows "handed lay gs' = handed lay gs @ concat (map (node_refs lay gs') extra)"
proof -
  have "node_refs lay gs' p = node_refs lay gs p" if "p \<in> set (nodes gs 0)" for p
    using that frame_at(3) [OF assms(1)] by (simp add: node_refs_def in_nodes_iff)
  then have "map (node_refs lay gs') (nodes gs 0) = map (node_refs lay gs) (nodes gs 0)" by (intro map_cong) auto
  then show ?thesis by (simp only: handed_def assms(2) map_append concat_append)
qed

lemma length_value_refs: "length sizes = length ovfs \<Longrightarrow> length (value_refs p offset sizes ovfs) = length sizes"
  by (induction p offset sizes ovfs rule: value_refs.induct) auto

lemma fst_node_refs:
  assumes "level_wf E lay psize gs True (node_level (gs' ! p)) ents"
  shows "map fst (node_refs lay gs' p) = lv_extras (node_level (gs' ! p))"
  using assms by (simp add: node_refs_def Let_def level_wf_def holds_def length_value_refs)

text \<open>What writing a level's page does to the file and to the callback's state.\<close>

lemma write_level_spec:
  assumes st: "sink_state (tw_sink w) (tw_layout w) front gs st"
    and inv: "level_inv E (tw_layout w) (tw_page_size w) gs (stored_offsets (length front) st) (tw_levels w ! h) pending h"
    and ok: "settings_ok (tw_layout w) (tw_page_size w)"
    and wr: "write_level cb h w c = Ok (ordinal, offset, w2, c2)"
    and run: "run_refs cb (handed (tw_layout w) gs) c0 = Ok c"
  defines "l \<equiv> tw_levels w ! h" and "lay \<equiv> tw_layout w"
  defines "gs1 \<equiv> (case last_opt (nodes gs h) of None \<Rightarrow> gs | Some q \<Rightarrow> gs[q := set_right (Some (length gs)) (gs ! q)])
      @ [NodePage h None l pending]"
  shows "\<exists>st1. ordinal = length gs \<and> offset = stored_offsets (length front) st1 ! length gs
    \<and> sink_state (tw_sink w2) lay front gs1 st1
    \<and> (\<forall>p < length gs. stored_offsets (length front) st1 ! p = stored_offsets (length front) st ! p)"
    "\<exists>s x. w2 = w\<lparr>tw_sink := s, tw_pending_extra := x, tw_levels := (tw_levels w)[h := l\<lparr>lv_extras := (if h = 0 then [] else lv_extras l)\<rparr>]\<rparr>"
    "run_refs cb (handed lay gs1) c0 = Ok c2"
proof -
  note lwf = inv [unfolded level_inv_def, THEN conjunct1, folded l_def]
  note ch = chained_snoc [OF inv [unfolded level_inv_def, THEN conjunct2, THEN conjunct2, THEN conjunct2, THEN conjunct1]
      inv [unfolded level_inv_def, THEN conjunct2, THEN conjunct1], of pending, folded l_def, folded gs1_def]
  have n: "lv_entry_count l = length pending" "length pending < 2 ^ 28" using level_wf_count [OF lwf] by auto
  then have n32: "lv_entry_count l < 2 ^ 32" by simp
  obtain s1 w' where b: "sink_begin_page (tw_sink w) = Ok (ordinal, offset, s1)"
    "flush_page cb h ordinal (w\<lparr>tw_sink := s1\<rparr>) c = Ok (w', c2)" "w2 = patch_sibling w' h ordinal"
    using wr by (auto simp: write_level_def)
  obtain da ma where a: "digest_area_size lay (lv_entry_count l) = Some da"
    "meta_size (if h = 0 then Leaf else Internal) lay (lv_entry_count l) = Some ma"
    using areas_defined(1) [OF n32] areas_defined(2) [OF n32] by blast
  have base: "base_of lay (h = 0) (lv_entry_count l) = PAGE_PREFIX_LEN + da + ma" by (simp add: base_of_def a)
  have hl: "h < length (tw_levels w)" using b(2) by (auto dest: flush_page_levels)
  obtain s2 x where f: "sink_write_page s1 (gbytes lay (NodePage h None l pending)) = Ok s2"
    "w' = w\<lparr>tw_sink := s2, tw_pending_extra := x,
       tw_levels := (tw_levels w)[h := l\<lparr>lv_extras := (if h = 0 then [] else lv_extras l)\<rparr>]\<rparr>"
    "if h = 0 then hand_on cb ordinal (base_of lay True (lv_entry_count l)) (lv_extras l) (lv_sizes l) (lv_overflow l) c = Ok c2
     else c2 = c"
  proof (cases "h = 0")
    case True
    then have "tw_levels w ! 0 = l" by (simp add: l_def)
    then show ?thesis using True b(2) a base hl that
      by (auto simp: flush_page_def level_at_def digest_area_def leaf_meta_area_def meta_size_def set_level_def Let_def
          l_def [symmetric] lay_def [symmetric] split: if_splits)
  next
    case False
    have "(tw_levels w)[h := l] = tw_levels w" by (simp add: l_def)
    then show ?thesis using False b(2) a base hl that [of s2 "tw_pending_extra w" for s2]
      by (auto simp: flush_page_def level_at_def digest_area_def internal_meta_area_def meta_size_def set_level_def Let_def
          l_def [symmetric] lay_def [symmetric] split: if_splits)
  qed
  obtain bs where s: "ordinal = length gs" "offset = stored_offsets (length front) (st @ [bs]) ! length gs"
    "sink_state s2 lay front (gs @ [NodePage h None l pending]) (st @ [bs])"
    using sink_state_page [OF st [folded lay_def] b(1) f(1)] by blast
  have lst: "length st = length gs" using st by (auto simp: sink_state_def dest: list_all2_lengthD)
  have offs: "stored_offsets (length front) (st @ [bs]) ! p = stored_offsets (length front) st ! p" if "p < length gs" for p
    using that lst by (simp add: stored_offsets_snoc nth_append)
  have w'l: "tw_levels w' ! h = l\<lparr>lv_extras := (if h = 0 then [] else lv_extras l)\<rparr>" using f(2) hl by simp
  have po: "lv_prev_offset (tw_levels w' ! h) = map_option ((!) (stored_offsets (length front) st)) (last_opt (nodes gs h))"
    using inv unfolding w'l l_def level_inv_def by simp
  show "\<exists>st1. ordinal = length gs \<and> offset = stored_offsets (length front) st1 ! length gs
    \<and> sink_state (tw_sink w2) lay front gs1 st1
    \<and> (\<forall>p < length gs. stored_offsets (length front) st1 ! p = stored_offsets (length front) st ! p)"
  proof (cases "last_opt (nodes gs h)")
    case None
    then have "w2 = w'" using b(3) po by (simp add: patch_sibling_def)
    then show ?thesis using None s f(2) offs by (auto simp: gs1_def)
  next
    case (Some q)
    then have q: "q < length gs" "at_height h (gs ! q)" "q = last (nodes gs h)" "nodes gs h \<noteq> []"
      using last_in_set [of "nodes gs h"] by (auto simp: last_opt_def in_nodes_iff split: if_splits)
    have "node_right (gs ! q) = None"
      using inv q(3,4) unfolding level_inv_def chained_def Let_def by (simp add: last_conv_nth)
    then obtain lq eq where gq: "gs ! q = NodePage h None lq eq" using q(2) by (cases "gs ! q") auto
    have w2: "w2 = w'\<lparr>tw_sink := sink_patch_at s2 (stored_offsets (length front) (st @ [bs]) ! q + RIGHT_SIBLING_OFFSET) (i64_to_le (as_i64 ordinal))\<rparr>"
      using b(3) po Some offs [OF q(1)] f(2) by (simp add: patch_sibling_def)
    have "(gs @ [NodePage h None l pending])[q := NodePage h (Some ordinal) lq eq] = gs1"
      using q(1) gq Some s(1) by (simp add: gs1_def list_update_append)
    moreover have "(gs @ [NodePage h None l pending]) ! q = NodePage h None lq eq" "q < length (gs @ [NodePage h None l pending])"
      using q(1) gq by (simp_all add: nth_append)
    ultimately obtain st1 where "sink_state (tw_sink w2) lay front gs1 st1"
      "stored_offsets (length front) st1 = stored_offsets (length front) (st @ [bs])"
      using sink_state_patch [OF s(3), of q h lq eq ordinal] w2 by auto
    then show ?thesis using s(1,2) offs by (intro exI [of _ st1]) simp
  qed
  show "\<exists>s x. w2 = w\<lparr>tw_sink := s, tw_pending_extra := x, tw_levels := (tw_levels w)[h := l\<lparr>lv_extras := (if h = 0 then [] else lv_extras l)\<rparr>]\<rparr>"
  proof (intro exI)
    have updates: "v\<lparr>tw_sink := s2, tw_pending_extra := y, tw_levels := ls, tw_sink := t\<rparr>
        = v\<lparr>tw_sink := t, tw_pending_extra := y, tw_levels := ls\<rparr>" for v :: "'a TreeWriter" and y ls t by simp
    have "w2 = w'\<lparr>tw_sink := tw_sink w2\<rparr>" using b(3) by (simp add: patch_sibling_def split: option.splits)
    then show "w2 = w\<lparr>tw_sink := tw_sink w2, tw_pending_extra := x, tw_levels := (tw_levels w)[h := l\<lparr>lv_extras := (if h = 0 then [] else lv_extras l)\<rparr>]\<rparr>"
      using updates unfolding f(2) by metis
  qed
  show "run_refs cb (handed lay gs1) c0 = Ok c2"
  proof (cases "h = 0")
    case True
    have "length (lv_extras l) = length (lv_sizes l)" "length (lv_overflow l) = length (lv_sizes l)"
      using lwf True by (auto simp: level_wf_def holds_def)
    then have "run_refs cb (node_refs lay gs1 (length gs)) c = Ok c2"
      using f(3) True s(1) ch(4) hand_on_refs [of "lv_extras l" "lv_sizes l" "lv_overflow l" cb] by (simp add: node_refs_def)
    moreover have "handed lay gs1 = handed lay gs @ node_refs lay gs1 (length gs)"
      using handed_frame [OF ch(2), of "[length gs]" lay] ch(3) True by simp
    ultimately show ?thesis using run by (simp add: lay_def run_refs_append)
  next
    case False
    have "nodes gs1 0 = nodes gs 0" using frame_nodes [OF ch(2)] False by simp
    then have "handed lay gs1 = handed lay gs" using handed_frame [OF ch(2), of "[]" lay] by simp
    then show ?thesis using run f(3) False by (simp add: lay_def)
  qed
qed

subsection \<open>Rotation keeps the tree\<close>

text \<open>The entries of a level, written and pending, are the separators of the level below.\<close>

definition linked :: "'e gpage list \<Rightarrow> (nat \<Rightarrow> entry list) \<Rightarrow> nat \<Rightarrow> bool" where
  "linked gs pend j \<longleftrightarrow> content gs (Suc j) @ pend (Suc j) = separators gs j
     \<and> (\<forall>p \<in> set (nodes gs j). node_entries (gs ! p) \<noteq> [])"

text \<open>The levels from \<open>h\<close> up are consistent with the file.\<close>

definition tree_inv ::
  "KeyEncoding \<Rightarrow> bytes \<Rightarrow> 'e TreeWriter \<Rightarrow> 'e gpage list \<Rightarrow> bytes list \<Rightarrow> (nat \<Rightarrow> entry list) \<Rightarrow> nat \<Rightarrow> bool" where
  "tree_inv E front w gs st pend h \<longleftrightarrow>
     sink_state (tw_sink w) (tw_layout w) front gs st \<and> settings_ok (tw_layout w) (tw_page_size w)
     \<and> (\<forall>j. h \<le> j \<and> j < length (tw_levels w) \<longrightarrow>
          level_inv E (tw_layout w) (tw_page_size w) gs (stored_offsets (length front) st) (tw_levels w ! j) (pend j) j)
     \<and> (\<forall>j. h \<le> j \<and> length (tw_levels w) \<le> Suc j \<longrightarrow> nodes gs j = [])
     \<and> (\<forall>j. h \<le> j \<and> length (tw_levels w) \<le> j \<longrightarrow> pend j = [])
     \<and> (\<forall>j. h \<le> j \<and> Suc j < length (tw_levels w) \<longrightarrow> nodes gs j \<noteq> [])
     \<and> (\<forall>j \<ge> h. linked gs pend j)"

definition offsets_kept :: "bytes \<Rightarrow> 'e gpage list \<Rightarrow> bytes list \<Rightarrow> bytes list \<Rightarrow> bool" where
  "offsets_kept front gs st st' \<longleftrightarrow>
     (\<forall>p < length gs. stored_offsets (length front) st' ! p = stored_offsets (length front) st ! p)"

lemma base_of_empty:
  assumes "settings_ok lay psize"
  shows "base_of lay is_leaf 0 \<le> psize"
proof -
  have z: "(0 :: nat) \<le> usize_max" by simp
  obtain k where "complete_size 0 = 2 ^ k - 1" "k = 0 \<or> 2 ^ (k - 1) - 1 < (0 :: nat)" by (rule complete_size_least [OF z])
  then have "complete_size 0 = 0" by auto
  then have "base_of lay is_leaf 0 \<le> PAGE_PREFIX_LEN + 2"
    by (simp add: base_of_def digest_area_size_def digest_slots_def meta_size_def leaf_meta_size_def
        internal_meta_size_def checked_mul_def checked_add_def usize_max_def)
  then show ?thesis using assms by (simp add: settings_ok_def MIN_PAGE_SIZE_def)
qed

lemma level_inv_new:
  assumes "nodes gs h = []" "settings_ok lay psize"
  shows "level_inv E lay psize gs offs level_new [] h"
  using base_of_empty [OF assms(2)] assms(1)
  by (simp add: level_inv_def level_wf_def holds_def level_new_def last_opt_def chained_def)

lemma level_wf_first_key:
  "level_wf E lay psize gs is_leaf l [] \<Longrightarrow> level_wf E lay psize gs is_leaf (l\<lparr>lv_first_key := k\<rparr>) []"
  by (simp add: level_wf_def holds_def)

lemma level_inv_first_key:
  "level_inv E lay psize gs offs l [] h \<Longrightarrow> level_inv E lay psize gs offs (l\<lparr>lv_first_key := k\<rparr>) [] h"
  by (simp add: level_inv_def level_wf_first_key)

lemma level_inv_pending_iff:
  "level_inv E lay psize gs offs l pending h \<Longrightarrow> lv_entry_count l = length pending"
  by (auto simp: level_inv_def dest: level_wf_count)

text \<open>The state between the writing of a level's page and the adding of its separator.\<close>

lemma write_page_state:
  assumes inv: "tree_inv E front w gs st pend h" and hl: "h < length (tw_levels w)" and ne: "pend h \<noteq> []"
    and wr: "write_level cb h w c = Ok (ordinal, offset, w2, c2)"
    and run: "run_refs cb (handed (tw_layout w) gs) c0 = Ok c"
  defines "l \<equiv> (level_reset (tw_levels w2 ! h))\<lparr>lv_prev_ordinal := Some ordinal, lv_prev_offset := Some offset\<rparr>"
  obtains gs1 st1 where "ordinal = length gs" "length gs1 = Suc ordinal" "frame {h} gs gs1"
    "sink_state (tw_sink w2) (tw_layout w) front gs1 st1"
    "offsets_kept front gs st st1" "lv_first_key (tw_levels w2 ! h) = Some (fst (hd (pend h)))"
    "level_inv E (tw_layout w) (tw_page_size w) gs1 (stored_offsets (length front) st1) l [] h"
    "content gs1 h = content gs h @ pend h"
    "separators gs1 h = separators gs h @ [(fst (hd (pend h)), Child ordinal)]"
    "\<forall>p \<in> set (nodes gs1 h). node_entries (gs1 ! p) \<noteq> []"
    "length (tw_levels w2) = length (tw_levels w)" "\<And>j. j \<noteq> h \<Longrightarrow> tw_levels w2 ! j = tw_levels w ! j"
    "tw_layout w2 = tw_layout w" "tw_page_size w2 = tw_page_size w"
    "run_refs cb (handed (tw_layout w) gs1) c0 = Ok c2" "key_room (tw_layout w) (tw_page_size w) (fst (hd (pend h)))"
    "h = 0 \<Longrightarrow> map fst (handed (tw_layout w) gs1) = map fst (handed (tw_layout w) gs) @ lv_extras (tw_levels w ! 0)"
proof -
  have st: "sink_state (tw_sink w) (tw_layout w) front gs st" and ok: "settings_ok (tw_layout w) (tw_page_size w)"
    and li: "level_inv E (tw_layout w) (tw_page_size w) gs (stored_offsets (length front) st) (tw_levels w ! h) (pend h) h"
    and lk: "linked gs pend h"
    using inv hl by (auto simp: tree_inv_def)
  note ws = write_level_spec [OF st li ok wr run]
  let ?l0 = "tw_levels w ! h"
  define gs1 where "gs1 = (case last_opt (nodes gs h) of None \<Rightarrow> gs | Some q \<Rightarrow> gs[q := set_right (Some (length gs)) (gs ! q)])
      @ [NodePage h None ?l0 (pend h)]"
  obtain st1 where s1: "ordinal = length gs" "offset = stored_offsets (length front) st1 ! length gs"
    "sink_state (tw_sink w2) (tw_layout w) front gs1 st1"
    "\<forall>p<length gs. stored_offsets (length front) st1 ! p = stored_offsets (length front) st ! p"
    using ws(1) unfolding gs1_def by blast
  obtain s x where w2: "w2 = w\<lparr>tw_sink := s, tw_pending_extra := x,
      tw_levels := (tw_levels w)[h := ?l0\<lparr>lv_extras := (if h = 0 then [] else lv_extras ?l0)\<rparr>]\<rparr>"
    using ws(2) by blast
  have lwf: "level_wf E (tw_layout w) (tw_page_size w) gs (h = 0) ?l0 (pend h)"
    and chd: "chained gs h" and prev: "lv_prev_ordinal ?l0 = last_opt (nodes gs h)"
    and nds: "\<And>p. p \<in> set (nodes gs h) \<Longrightarrow>
      level_wf E (tw_layout w) (tw_page_size w) gs (h = 0) (node_level (gs ! p)) (node_entries (gs ! p))"
    using li by (auto simp: level_inv_def)
  note ch = chained_snoc [OF chd prev, of "pend h", folded gs1_def]
  have first: "lv_first_key ?l0 = Some (fst (hd (pend h)))" using lwf ne by (simp add: level_wf_def holds_def)
  have kept: "node_entries (gs1 ! p) = node_entries (gs ! p)" "node_level (gs1 ! p) = node_level (gs ! p)"
    if "p \<in> set (nodes gs h)" for p
    using that frame_at(3,4) [OF ch(2)] by (auto simp: in_nodes_iff)
  have "map (\<lambda>p. node_entries (gs1 ! p)) (nodes gs h) = map (\<lambda>p. node_entries (gs ! p)) (nodes gs h)"
    using kept by (intro map_cong) auto
  then have c: "content gs1 h = content gs h @ pend h"
    by (simp only: content_def ch(3,4) map_append concat_append) (simp add: ch(4))
  have sep: "separators gs1 h = separators gs h @ [(fst (hd (pend h)), Child ordinal)]"
    using kept s1(1) by (auto simp: separators_def ch(3,4))
  have l: "l = ?l0\<lparr>lv_payload := [], lv_sizes := [], lv_overflow := [], lv_digests := [], lv_extras := [], lv_first_key := None,
      lv_prev_ordinal := Some ordinal, lv_prev_offset := Some offset\<rparr>"
    using hl by (simp add: l_def w2 level_reset_def)
  have "level_wf E (tw_layout w) (tw_page_size w) gs1 (h = 0) l []"
  proof -
    show ?thesis using base_of_empty [OF ok] ch(5) s1(1) by (simp add: level_wf_def holds_def l)
  qed
  then have li1: "level_inv E (tw_layout w) (tw_page_size w) gs1 (stored_offsets (length front) st1) l [] h"
    using ch s1(1,2) level_wf_frame [OF ch(2)] lwf nds kept
    by (auto simp: level_inv_def l last_opt_def)
  show ?thesis
  proof (rule that [of gs1 st1])
    show "\<forall>p \<in> set (nodes gs1 h). node_entries (gs1 ! p) \<noteq> []"
      using ch(3,4) ne kept lk by (auto simp: linked_def)
    show "key_room (tw_layout w) (tw_page_size w) (fst (hd (pend h)))"
      using lwf ne by (simp add: level_wf_def)
    show "map fst (handed (tw_layout w) gs1) = map fst (handed (tw_layout w) gs) @ lv_extras (tw_levels w ! 0)" if "h = 0"
      using handed_frame [OF ch(2), of "[length gs]"] ch(3,4) that lwf
        fst_node_refs [of E "tw_layout w" "tw_page_size w" gs gs1 "length gs" "pend 0"] by simp
    show "run_refs cb (handed (tw_layout w) gs1) c0 = Ok c2" using ws(3) unfolding gs1_def .
  qed (use s1 ch c sep li1 first hl in \<open>auto simp: w2 offsets_kept_def\<close>)
qed

lemma note_first_key_fields [simp]:
  "tw_layout (note_first_key w i k) = tw_layout w" "tw_page_size (note_first_key w i k) = tw_page_size w"
  "tw_sink (note_first_key w i k) = tw_sink w" "tw_extra_budget (note_first_key w i k) = tw_extra_budget w"
  "tw_pending_extra (note_first_key w i k) = tw_pending_extra w" "tw_entries (note_first_key w i k) = tw_entries w"
  by (simp_all add: note_first_key_def set_level_def)

lemma note_first_key_at:
  "i < length (tw_levels w) \<Longrightarrow> tw_levels (note_first_key w i k) ! j =
     (if j = i \<and> lv_entry_count (tw_levels w ! i) = 0 then (tw_levels w ! i)\<lparr>lv_first_key := Some k\<rparr> else tw_levels w ! j)"
  by (simp add: note_first_key_def set_level_def)

lemma tree_inv_first_key:
  assumes "tree_inv E front w gs st pend h" "h \<le> i" "i < length (tw_levels w)"
  shows "tree_inv E front (note_first_key w i k) gs st pend h"
proof -
  have "level_inv E (tw_layout w) (tw_page_size w) gs (stored_offsets (length front) st) (tw_levels w ! i) (pend i) i"
    using assms by (simp add: tree_inv_def)
  moreover from this have "lv_entry_count (tw_levels w ! i) = 0 \<Longrightarrow> pend i = []" by (auto dest: level_inv_pending_iff)
  ultimately have "level_inv E (tw_layout w) (tw_page_size w) gs (stored_offsets (length front) st)
      (tw_levels (note_first_key w i k) ! i) (pend i) i"
    using assms(3) by (auto simp: note_first_key_at level_inv_first_key)
  then have "level_inv E (tw_layout w) (tw_page_size w) gs (stored_offsets (length front) st)
      (tw_levels (note_first_key w i k) ! j) (pend j) j" if "h \<le> j" "j < length (tw_levels w)" for j
    using that assms by (cases "j = i") (auto simp: note_first_key_at tree_inv_def)
  then show ?thesis using assms(1) by (simp add: tree_inv_def)
qed

text \<open>Above the written page, with a parent level in place.\<close>

lemma parent_state:
  assumes inv: "tree_inv E front w gs st pend h" and hl: "h < length (tw_levels w)"
    and fr: "frame {h} gs gs1" and st: "sink_state (tw_sink w2) (tw_layout w) front gs1 st1" and kept: "offsets_kept front gs st st1"
    and w2: "length (tw_levels w2) = length (tw_levels w)" "\<And>j. j \<noteq> h \<Longrightarrow> tw_levels w2 ! j = tw_levels w ! j"
      "tw_layout w2 = tw_layout w" "tw_page_size w2 = tw_page_size w"
    and mk: "make_parent w2 (Suc h) = Ok w3"
  shows "tree_inv E front w3 gs1 st1 pend (Suc h)" "Suc h < length (tw_levels w3)"
    "length (tw_levels w) \<le> length (tw_levels w3)" "\<And>j. j \<le> h \<Longrightarrow> tw_levels w3 ! j = tw_levels w2 ! j"
    "tw_layout w3 = tw_layout w" "tw_page_size w3 = tw_page_size w"
proof -
  have m: "w3 = w2 \<and> Suc h < length (tw_levels w) \<or> w3 = w2\<lparr>tw_levels := tw_levels w2 @ [level_new]\<rparr> \<and> length (tw_levels w) = Suc h"
    using mk hl w2(1) by (auto simp: make_parent_def split: if_splits)
  then show len: "Suc h < length (tw_levels w3)" "length (tw_levels w) \<le> length (tw_levels w3)"
    "\<And>j. j \<le> h \<Longrightarrow> tw_levels w3 ! j = tw_levels w2 ! j"
    "tw_layout w3 = tw_layout w" "tw_page_size w3 = tw_page_size w"
    using w2 by (auto simp: nth_append)
  let ?offs = "stored_offsets (length front)"
  have old: "level_inv E (tw_layout w) (tw_page_size w) gs (?offs st) (tw_levels w ! j) (pend j) j" if "h \<le> j" "j < length (tw_levels w)" for j
    using inv that by (simp add: tree_inv_def)
  have none: "nodes gs1 j = []" if "Suc h \<le> j" "length (tw_levels w) \<le> Suc j" for j
    using inv that frame_nodes [OF fr, of j] by (simp add: tree_inv_def)
  have nopend: "pend j = []" if "h \<le> j" "length (tw_levels w) \<le> j" for j using inv that by (simp add: tree_inv_def)
  have ok: "settings_ok (tw_layout w) (tw_page_size w)" using inv by (simp add: tree_inv_def)
  have lv: "level_inv E (tw_layout w) (tw_page_size w) gs1 (?offs st1) (tw_levels w3 ! j) (pend j) j"
    if "Suc h \<le> j" "j < length (tw_levels w3)" for j
  proof (cases "j < length (tw_levels w)")
    case True
    have "level_inv E (tw_layout w) (tw_page_size w) gs1 (?offs st1) (tw_levels w ! j) (pend j) j"
      using that True kept by (intro level_inv_frame [OF fr _ _ old]) (auto simp: offsets_kept_def)
    then show ?thesis using m that True w2 by (auto simp: nth_append)
  next
    case False
    then have "w3 = w2\<lparr>tw_levels := tw_levels w2 @ [level_new]\<rparr>" "j = Suc h" "length (tw_levels w) = Suc h"
      using m that w2(1) by auto
    then show ?thesis using w2(1) level_inv_new [OF none ok] nopend by (simp add: nth_append)
  qed
  have "linked gs1 pend j" if "Suc h \<le> j" for j
  proof -
    have "linked gs pend j" using inv that by (simp add: tree_inv_def)
    moreover have "j \<notin> {h}" "Suc j \<notin> {h}" using that by auto
    ultimately show ?thesis
      using frame_content [OF fr, of j] frame_content(1) [OF fr, of "Suc j"] frame_nodes [OF fr, of j]
      by (simp add: linked_def)
  qed
  moreover have "nodes gs1 j \<noteq> []" if "Suc h \<le> j" "Suc j < length (tw_levels w3)" for j
    using inv that m w2(1) frame_nodes [OF fr, of j] by (auto simp: tree_inv_def)
  ultimately show "tree_inv E front w3 gs1 st1 pend (Suc h)"
    unfolding tree_inv_def using st ok lv none nopend m len by auto
qed

lemma level_wf_add_separator:
  assumes wf: "level_wf E lay psize gs False l pending" and ok: "settings_ok lay psize"
    and d: "digest E sep = Ok d" and key: "key_room lay psize sep" and p: "p < length gs"
    and first: "pending = [] \<Longrightarrow> lv_first_key l = Some sep"
    and room: "base_of lay False (length pending + 1) + length (lv_payload l) + length (key_bytes lay sep) + 8 \<le> psize"
  shows "level_wf E lay psize gs False (l\<lparr>lv_digests := lv_digests l @ [d],
        lv_payload := lv_payload l @ (if omitted_keys lay then [] else sep) @ i64_to_le (as_i64 p),
        lv_sizes := lv_sizes l @ [(if omitted_keys lay then 0 else length sep, 8)],
        lv_overflow := lv_overflow l @ [None]\<rparr>) (pending @ [(sep, Child p)])"
proof -
  have "length pending + 1 < 2 ^ 28"
    using room_count [of "length pending" lay False "length (lv_payload l) + length (key_bytes lay sep) + 8" psize] wf ok room
    by (simp add: level_wf_def)
  then show ?thesis using wf d key p first room
    by (auto simp: level_wf_def holds_def entry_size_def entry_bytes_def key_bytes_def hd_append)
qed

text \<open>Adding the separator and settling the level below restores the invariant there.\<close>

lemma separator_state:
  assumes inv: "tree_inv E front w gs st pend (Suc h)" and hl: "Suc h < length (tw_levels w)" and p: "p < length gs"
    and low: "level_inv E (tw_layout w) (tw_page_size w) gs (stored_offsets (length front) st) l [] h"
    and sep: "separators gs h = content gs (Suc h) @ pend (Suc h) @ [(sep, Child p)]"
    and ne: "\<forall>p \<in> set (nodes gs h). node_entries (gs ! p) \<noteq> []"
    and d: "digest E sep = Ok d" and key: "key_room (tw_layout w) (tw_page_size w) sep"
    and first: "pend (Suc h) = [] \<Longrightarrow> lv_first_key (tw_levels w ! Suc h) = Some sep"
    and room: "base_of (tw_layout w) False (length (pend (Suc h)) + 1) + length (lv_payload (tw_levels w ! Suc h))
      + length (key_bytes (tw_layout w) sep) + 8 \<le> tw_page_size w"
  shows "tree_inv E front (set_level (add_separator w (Suc h) d sep p) h l) gs st
    (pend(h := [], Suc h := pend (Suc h) @ [(sep, Child p)])) h"
proof -
  let ?pend = "pend(h := [], Suc h := pend (Suc h) @ [(sep, Child p)])"
  let ?w = "set_level (add_separator w (Suc h) d sep p) h l"
  let ?li = "level_inv E (tw_layout w) (tw_page_size w) gs (stored_offsets (length front) st)"
  have f: "tw_sink ?w = tw_sink w" "tw_layout ?w = tw_layout w" "tw_page_size ?w = tw_page_size w"
    "length (tw_levels ?w) = length (tw_levels w)"
    by (simp_all add: set_level_def add_separator_def Let_def)
  have ok: "settings_ok (tw_layout w) (tw_page_size w)" using inv by (simp add: tree_inv_def)
  have par: "?li (tw_levels w ! Suc h) (pend (Suc h)) (Suc h)" using inv hl by (simp add: tree_inv_def)
  then have wf: "level_wf E (tw_layout w) (tw_page_size w) gs False (tw_levels w ! Suc h) (pend (Suc h))"
    by (simp add: level_inv_def)
  have "?li (tw_levels ?w ! Suc h) (?pend (Suc h)) (Suc h)"
    using level_wf_add_separator [OF wf ok d key p first room] par hl
    by (simp add: level_inv_def set_level_def add_separator_def Let_def stored_key_len_def)
  moreover have "?li (tw_levels ?w ! h) (?pend h) h" using low hl by (simp add: set_level_def add_separator_def Let_def)
  moreover have "?li (tw_levels ?w ! j) (?pend j) j" if "Suc h < j" "j < length (tw_levels w)" for j
    using inv that by (simp add: tree_inv_def set_level_def add_separator_def Let_def)
  ultimately have "?li (tw_levels ?w ! j) (?pend j) j" if "h \<le> j" "j < length (tw_levels w)" for j
    using that by (metis Suc_leI le_neq_implies_less)
  moreover have "linked gs ?pend j" if "h \<le> j" for j
  proof (cases "j = h")
    case True
    then show ?thesis using sep ne by (simp add: linked_def)
  next
    case False
    then have "linked gs pend j" using inv that by (simp add: tree_inv_def)
    then show ?thesis using False that by (simp add: linked_def)
  qed
  moreover have "nodes gs h \<noteq> []" using sep by (auto simp: separators_def)
  then have "nodes gs j \<noteq> []" if "h \<le> j" "Suc j < length (tw_levels w)" for j
    using inv that by (cases "j = h") (simp_all add: tree_inv_def)
  ultimately show ?thesis using inv hl f by (simp add: tree_inv_def)
qed

definition rotated where
  "rotated E front h w gs st pend w' gs' st' pend' \<longleftrightarrow>
     tree_inv E front w' gs' st' pend' h \<and> pend' h = [] \<and> content gs' h = content gs h @ pend h
     \<and> frame {h..} gs gs' \<and> offsets_kept front gs st st'
     \<and> (\<forall>j < h. pend' j = pend j \<and> tw_levels w' ! j = tw_levels w ! j)
     \<and> tw_layout w' = tw_layout w \<and> tw_page_size w' = tw_page_size w
     \<and> length (tw_levels w) \<le> length (tw_levels w')
     \<and> (h = 0 \<longrightarrow> map fst (handed (tw_layout w) gs') = map fst (handed (tw_layout w) gs) @ lv_extras (tw_levels w ! 0))"

text \<open>The page \<open>p\<close> of level \<open>h\<close> is written and its parent level exists, but the separator is not
  added yet; \<open>l\<close> is what the level will be reset to.\<close>

definition promoting where
  "promoting E front h w gs st pend p sep l l0 w' gs' st' pend' \<longleftrightarrow>
     tree_inv E front w' gs' st' pend' (Suc h) \<and> Suc h < length (tw_levels w') \<and> p < length gs'
     \<and> content gs' h = content gs h @ pend h \<and> frame {h..} gs gs' \<and> offsets_kept front gs st st'
     \<and> (\<forall>j < h. pend' j = pend j \<and> tw_levels w' ! j = tw_levels w ! j) \<and> tw_levels w' ! h = l0
     \<and> tw_layout w' = tw_layout w \<and> tw_page_size w' = tw_page_size w
     \<and> length (tw_levels w) \<le> length (tw_levels w')
     \<and> level_inv E (tw_layout w) (tw_page_size w) gs' (stored_offsets (length front) st') l [] h
     \<and> separators gs' h = content gs' (Suc h) @ pend' (Suc h) @ [(sep, Child p)]
     \<and> (\<forall>p \<in> set (nodes gs' h). node_entries (gs' ! p) \<noteq> [])
     \<and> key_room (tw_layout w) (tw_page_size w) sep
     \<and> (h = 0 \<longrightarrow> map fst (handed (tw_layout w) gs') = map fst (handed (tw_layout w) gs) @ lv_extras (tw_levels w ! 0))"

lemma offsets_kept_trans:
  "offsets_kept front gs st st1 \<Longrightarrow> offsets_kept front gs1 st1 st2 \<Longrightarrow> length gs \<le> length gs1 \<Longrightarrow> offsets_kept front gs st st2"
  by (simp add: offsets_kept_def)

lemma key_bytes_len: "stored_key_len w (length k) = length (key_bytes (tw_layout w) k)"
  by (simp add: stored_key_len_def key_bytes_def)

lemma tree_inv_level:
  assumes "tree_inv E front w gs st pend h" "h \<le> j" "j < length (tw_levels w)"
  shows "lv_entry_count (tw_levels w ! j) = length (pend j)" "length (pend j) < 2 ^ 28"
    "lv_payload (tw_levels w ! j) = concat (map (entry_bytes (tw_layout w)) (pend j))"
proof -
  have wf: "level_wf E (tw_layout w) (tw_page_size w) gs (j = 0) (tw_levels w ! j) (pend j)"
    using assms by (simp add: tree_inv_def level_inv_def)
  show "lv_entry_count (tw_levels w ! j) = length (pend j)" "length (pend j) < 2 ^ 28"
    using level_wf_count [OF wf] by blast+
  show "lv_payload (tw_levels w ! j) = concat (map (entry_bytes (tw_layout w)) (pend j))"
    using wf by (simp add: level_wf_def holds_def)
qed

lemma promoting_start:
  assumes inv: "tree_inv E front w gs st pend h" "pend h \<noteq> []"
    and wr: "write_level cb h w c = Ok (p, offset, w2, c2)" and mk: "make_parent w2 (h + 1) = Ok w3"
    and run: "run_refs cb (handed (tw_layout w) gs) c0 = Ok c"
    and sep: "lv_first_key (tw_levels w2 ! h) = Some sep"
  obtains gs1 st1 where
    "promoting E front h w gs st pend p sep ((level_reset (tw_levels w2 ! h))\<lparr>lv_prev_ordinal := Some p, lv_prev_offset := Some offset\<rparr>)
       (tw_levels w2 ! h) w3 gs1 st1 pend"
    "run_refs cb (handed (tw_layout w) gs1) c0 = Ok c2"
proof -
  have hl: "h < length (tw_levels w)" using write_level_levels [OF wr] by simp
  show thesis
  proof (rule write_page_state [OF inv(1) hl inv(2) wr run])
    fix gs1 st1
    assume g: "p = length gs" "length gs1 = Suc p" "frame {h} gs gs1" "sink_state (tw_sink w2) (tw_layout w) front gs1 st1"
      "offsets_kept front gs st st1" "lv_first_key (tw_levels w2 ! h) = Some (fst (hd (pend h)))"
      "level_inv E (tw_layout w) (tw_page_size w) gs1 (stored_offsets (length front) st1)
        ((level_reset (tw_levels w2 ! h))\<lparr>lv_prev_ordinal := Some p, lv_prev_offset := Some offset\<rparr>) [] h"
      "content gs1 h = content gs h @ pend h"
      "separators gs1 h = separators gs h @ [(fst (hd (pend h)), Child p)]"
      "\<forall>p \<in> set (nodes gs1 h). node_entries (gs1 ! p) \<noteq> []"
      "length (tw_levels w2) = length (tw_levels w)" "\<And>j. j \<noteq> h \<Longrightarrow> tw_levels w2 ! j = tw_levels w ! j"
      "tw_layout w2 = tw_layout w" "tw_page_size w2 = tw_page_size w"
      "run_refs cb (handed (tw_layout w) gs1) c0 = Ok c2" "key_room (tw_layout w) (tw_page_size w) (fst (hd (pend h)))"
      "h = 0 \<Longrightarrow> map fst (handed (tw_layout w) gs1) = map fst (handed (tw_layout w) gs) @ lv_extras (tw_levels w ! 0)"
    note ps = parent_state [OF inv(1) hl g(3-5) g(11-14) mk [simplified]]
    have "separators gs1 h = content gs1 (Suc h) @ pend (Suc h) @ [(fst (hd (pend h)), Child p)]"
      using inv(1) g(9) frame_content(1) [OF g(3), of "Suc h"] by (simp add: tree_inv_def linked_def)
    moreover have "frame {h..} gs gs1" using frame_mono [OF g(3)] by simp
    ultimately show thesis using that [of gs1 st1] g ps sep by (simp add: promoting_def)
  qed
qed

lemma promoting_first_key:
  assumes "promoting E front h w gs st pend p sep l l0 w' gs' st' pend'"
  shows "promoting E front h w gs st pend p sep l l0 (note_first_key w' (Suc h) k) gs' st' pend'"
  using assms tree_inv_first_key [of E front w' gs' st' pend' "Suc h" "Suc h" k]
  by (auto simp: promoting_def note_first_key_at)

lemma promoting_rotated:
  assumes pr: "promoting E front h w gs st pend p sep l l0 w1 gs1 st1 pend1"
    and ro: "rotated E front (Suc h) w1 gs1 st1 pend1 w2 gs2 st2 pend2"
  shows "promoting E front h w gs st pend p sep l l0 w2 gs2 st2 pend2"
proof -
  have r: "content gs2 (Suc h) = content gs1 (Suc h) @ pend1 (Suc h)" "pend2 (Suc h) = []" "frame {Suc h..} gs1 gs2"
    "offsets_kept front gs1 st1 st2" "tree_inv E front w2 gs2 st2 pend2 (Suc h)"
    "\<And>j. j \<le> h \<Longrightarrow> pend2 j = pend1 j \<and> tw_levels w2 ! j = tw_levels w1 ! j"
    "tw_layout w2 = tw_layout w1" "tw_page_size w2 = tw_page_size w1" "length (tw_levels w1) \<le> length (tw_levels w2)"
    using ro by (auto simp: rotated_def)
  have h: "h \<notin> {Suc h..}" by simp
  have len: "length gs1 \<le> length gs2" "length gs \<le> length gs1" using r(3) pr by (auto simp: frame_def promoting_def)
  have "level_inv E (tw_layout w) (tw_page_size w) gs2 (stored_offsets (length front) st2) l [] h"
    using level_inv_frame [OF r(3) h] r(4) pr by (auto simp: promoting_def offsets_kept_def)
  moreover have "frame {h..} gs gs2"
    using frame_trans [OF _ frame_mono [OF r(3)], of "{h..}" gs] pr by (fastforce simp: promoting_def)
  moreover have "nodes gs2 0 = nodes gs1 0" using frame_nodes [OF r(3), of 0] by simp
  then have "handed (tw_layout w) gs2 = handed (tw_layout w) gs1" using handed_frame [OF r(3), of "[]"] by simp
  ultimately show ?thesis
    using pr r len frame_content [OF r(3) h] frame_nodes [OF r(3) h] offsets_kept_trans [of front gs st st1 gs1 st2]
    by (auto simp: promoting_def)
qed

lemma promoting_end:
  assumes pr: "promoting E front h w gs st pend p sep ((level_reset l0)\<lparr>lv_prev_ordinal := Some p, lv_prev_offset := Some offset\<rparr>)
      l0 w1 gs1 st1 pend1"
    and d: "digest E sep = Ok d"
    and first: "pend1 (Suc h) = [] \<Longrightarrow> lv_first_key (tw_levels w1 ! Suc h) = Some sep"
    and room: "base_of (tw_layout w1) False (length (pend1 (Suc h)) + 1) + length (lv_payload (tw_levels w1 ! Suc h))
      + length (key_bytes (tw_layout w1) sep) + 8 \<le> tw_page_size w1"
  shows "rotated E front h w gs st pend (settle_level (add_separator w1 (Suc h) d sep p) h p offset) gs1 st1
    (pend1(h := [], Suc h := pend1 (Suc h) @ [(sep, Child p)]))"
proof -
  have q: "tree_inv E front w1 gs1 st1 pend1 (Suc h)" "Suc h < length (tw_levels w1)" "p < length gs1"
    "level_inv E (tw_layout w1) (tw_page_size w1) gs1 (stored_offsets (length front) st1)
       ((level_reset l0)\<lparr>lv_prev_ordinal := Some p, lv_prev_offset := Some offset\<rparr>) [] h"
    "separators gs1 h = content gs1 (Suc h) @ pend1 (Suc h) @ [(sep, Child p)]"
    "\<forall>p \<in> set (nodes gs1 h). node_entries (gs1 ! p) \<noteq> []" "key_room (tw_layout w1) (tw_page_size w1) sep" "tw_levels w1 ! h = l0"
    using pr by (auto simp: promoting_def)
  have eq: "settle_level (add_separator w1 (Suc h) d sep p) h p offset = set_level (add_separator w1 (Suc h) d sep p) h
      ((level_reset l0)\<lparr>lv_prev_ordinal := Some p, lv_prev_offset := Some offset\<rparr>)"
    using q(8) by (simp add: settle_level_def add_separator_def set_level_def Let_def)
  show ?thesis
    using separator_state [OF q(1-6) d q(7) first room] pr
    unfolding rotated_def promoting_def eq by (simp add: set_level_def add_separator_def Let_def)
qed


lemma rotate_spec:
  assumes "rotate E cb h True w c = Ok (w', c')" "tree_inv E front w gs st pend h" "pend h \<noteq> []"
    "run_refs cb (handed (tw_layout w) gs) c0 = Ok c"
  shows "\<exists>gs' st' pend'. rotated E front h w gs st pend w' gs' st' pend' \<and> run_refs cb (handed (tw_layout w) gs') c0 = Ok c'"
  using assms
proof (induction arbitrary: gs st pend rule: rotate_induct)
  case (fits h w c w' c' p offset w2 sep w3 needs d)
  let ?w4 = "note_first_key w3 (Suc h) sep"
  obtain gs1 st1 where p3: "promoting E front h w gs st pend p sep
      ((level_reset (tw_levels w2 ! h))\<lparr>lv_prev_ordinal := Some p, lv_prev_offset := Some offset\<rparr>) (tw_levels w2 ! h) w3 gs1 st1 pend"
    and run: "run_refs cb (handed (tw_layout w) gs1) c0 = Ok c'"
    using promoting_start [OF fits(8,9,1,3,10,2)] .
  note p4 = promoting_first_key [OF p3, of sep]
  have i4: "tree_inv E front ?w4 gs1 st1 pend (Suc h)" "Suc h < length (tw_levels ?w4)" "Suc h < length (tw_levels w3)"
    using p4 by (simp_all add: promoting_def)
  note cnt = tree_inv_level [OF i4(1) order_refl i4(2)]
  have "base_of (tw_layout ?w4) False (length (pend (Suc h)) + 1) + length (lv_payload (tw_levels ?w4 ! Suc h))
      + length (key_bytes (tw_layout ?w4) sep) + 8 \<le> tw_page_size ?w4"
    using fits(4,5) internal_needs_eq [of "Suc h" ?w4] i4(2) cnt by (simp add: key_bytes_len)
  moreover have "lv_first_key (tw_levels ?w4 ! Suc h) = Some sep" if "pend (Suc h) = []"
    using that cnt(1) i4(3) by (auto simp: note_first_key_at lv_entry_count_def split: if_splits)
  ultimately show ?case using promoting_end [OF p4 fits(6)] run fits(7) by auto
next
  case (full h w c w' c' p offset w2 c2 sep w3 needs w5 d)
  let ?w4 = "note_first_key w3 (Suc h) sep" and ?w6 = "note_first_key w5 (Suc h) sep"
  obtain gs1 st1 where p3: "promoting E front h w gs st pend p sep
      ((level_reset (tw_levels w2 ! h))\<lparr>lv_prev_ordinal := Some p, lv_prev_offset := Some offset\<rparr>) (tw_levels w2 ! h) w3 gs1 st1 pend"
    and run: "run_refs cb (handed (tw_layout w) gs1) c0 = Ok c2"
    using promoting_start [OF full(10,11,1,3,12,2)] .
  note p4 = promoting_first_key [OF p3, of sep]
  have i4: "tree_inv E front ?w4 gs1 st1 pend (Suc h)" "Suc h < length (tw_levels ?w4)"
    "key_room (tw_layout w) (tw_page_size w) sep" and lay: "tw_layout w3 = tw_layout w" "tw_page_size w3 = tw_page_size w"
    using p4 by (simp_all add: promoting_def)
  have one: "base_of (tw_layout w) False 1 + length (key_bytes (tw_layout w) sep) + 8 \<le> tw_page_size w"
    using i4(3) base_of_internal_one [of "tw_layout w"] by (simp add: key_room_def)
  have ne: "pend (Suc h) \<noteq> []"
    using full(4,5) internal_needs_eq [of "Suc h" ?w4] i4(2) tree_inv_level [OF i4(1) order_refl i4(2)] one lay
    by (auto simp: key_bytes_len)
  obtain gs5 st5 pend5 where r: "rotated E front (Suc h) ?w4 gs1 st1 pend w5 gs5 st5 pend5"
    "run_refs cb (handed (tw_layout w) gs5) c0 = Ok c'"
    using full.IH [simplified, OF i4(1) ne] run lay by auto
  note p5 = promoting_rotated [OF p4 r(1)]
  have i5: "tree_inv E front w5 gs5 st5 pend5 (Suc h)" "Suc h < length (tw_levels w5)" "pend5 (Suc h) = []"
    and lay5: "tw_layout w5 = tw_layout w" "tw_page_size w5 = tw_page_size w"
    using p5 r(1) by (simp_all add: promoting_def rotated_def)
  note cnt5 = tree_inv_level [OF i5(1) order_refl i5(2), unfolded i5(3), simplified]
  have "rotated E front h w gs st pend w' gs5 st5 (pend5(h := [], Suc h := pend5 (Suc h) @ [(sep, Child p)]))"
    using promoting_end [OF promoting_first_key [OF p5, of sep] full(7)] full(8) one cnt5 i5 lay5
    by (simp add: note_first_key_at)
  then show ?case using r(2) by blast
qed

subsection \<open>Pushing an entry\<close>

fun item_value :: "item \<Rightarrow> bytes" where
  "item_value (Stored v) = v"
| "item_value (Spilled p v) = v"
| "item_value (Child p) = []"

definition plain :: "entry \<Rightarrow> bytes \<times> bytes" where
  "plain e = (fst e, item_value (snd e))"

text \<open>The writer has taken the entries \<open>kvs\<close> with their extras \<open>xs\<close>.\<close>

definition writer_inv where
  "writer_inv E cb c0 old front w c gs st pend kvs xs \<longleftrightarrow> tree_inv E front w gs st pend 0 \<and> tw_levels w \<noteq> []
     \<and> frame UNIV (map Other old) gs \<and> map plain (content gs 0 @ pend 0) = kvs
     \<and> run_refs cb (handed (tw_layout w) gs) c0 = Ok c
     \<and> map fst (handed (tw_layout w) gs) @ lv_extras (tw_levels w ! 0) = xs"

lemma rotate_leaf:
  assumes inv: "writer_inv E cb c0 old front w c gs st pend kvs xs" "pend 0 \<noteq> []" and ro: "rotate E cb 0 True w c = Ok (w', c')"
  obtains gs' st' pend' where "writer_inv E cb c0 old front w' c' gs' st' pend' kvs xs" "pend' 0 = []"
    "tw_layout w' = tw_layout w" "tw_page_size w' = tw_page_size w"
proof -
  have t: "tree_inv E front w gs st pend 0" "run_refs cb (handed (tw_layout w) gs) c0 = Ok c" "tw_levels w \<noteq> []"
    using inv by (auto simp: writer_inv_def)
  obtain gs' st' pend' where r: "rotated E front 0 w gs st pend w' gs' st' pend'"
    "run_refs cb (handed (tw_layout w) gs') c0 = Ok c'"
    using rotate_spec [OF ro t(1) inv(2) t(2)] by blast
  have "tw_levels w' \<noteq> []" using r(1) t(3) by (auto simp: rotated_def)
  moreover from this have "lv_extras (tw_levels w' ! 0) = []"
    using r(1) by (auto simp: rotated_def tree_inv_def level_inv_def level_wf_def)
  moreover have "frame UNIV (map Other old) gs'"
    using inv(1) r(1) frame_trans [OF _ frame_mono [of _ gs gs' UNIV], of "map Other old"] by (auto simp: writer_inv_def rotated_def)
  ultimately show ?thesis using that [of gs' st' pend'] r inv(1) by (simp add: rotated_def writer_inv_def)
qed

lemma writer_inv_first_key:
  assumes "writer_inv E cb c0 old front w c gs st pend kvs xs"
  shows "writer_inv E cb c0 old front (note_first_key w 0 k) c gs st pend kvs xs"
    "pend 0 = [] \<Longrightarrow> lv_first_key (tw_levels (note_first_key w 0 k) ! 0) = Some k"
proof -
  have t: "tree_inv E front w gs st pend 0" "0 < length (tw_levels w)" using assms by (auto simp: writer_inv_def)
  show "writer_inv E cb c0 old front (note_first_key w 0 k) c gs st pend kvs xs"
    using assms tree_inv_first_key [OF t(1) order_refl t(2)] t(2)
    by (auto simp: writer_inv_def note_first_key_at simp flip: length_greater_0_conv)
  show "lv_first_key (tw_levels (note_first_key w 0 k) ! 0) = Some k" if "pend 0 = []"
    using that t tree_inv_level(1) [OF t(1) order_refl t(2)] by (simp add: note_first_key_at)
qed

text \<open>The room in the leaf for a key and \<open>n\<close> bytes of value.\<close>

definition leaf_room :: "'e TreeWriter \<Rightarrow> bytes \<Rightarrow> nat \<Rightarrow> bool" where
  "leaf_room w key n \<longleftrightarrow> base_of (tw_layout w) True (lv_entry_count (tw_levels w ! 0) + 1)
     + length (lv_payload (tw_levels w ! 0)) + length (key_bytes (tw_layout w) key) + n \<le> tw_page_size w"

lemma inline_needs_room:
  assumes "writer_inv E cb c0 old front w c gs st pend kvs xs"
  shows "\<exists>needs. inline_needs w (stored_key_len w (length key)) n = Ok needs \<and> (needs \<le> tw_page_size w \<longleftrightarrow> leaf_room w key n)"
proof -
  have t: "tree_inv E front w gs st pend 0" "0 < length (tw_levels w)" using assms by (auto simp: writer_inv_def)
  have "lv_entry_count (tw_levels w ! 0) < 2 ^ 31" using tree_inv_level(1,2) [OF t(1) order_refl t(2)] by simp
  then show ?thesis using inline_needs_eq [of w] t(2) by (simp add: leaf_room_def key_bytes_len)
qed

lemma make_room_spec:
  assumes inv: "writer_inv E cb c0 old front w c gs st pend kvs xs" and key: "key_room (tw_layout w) (tw_page_size w) key"
    and first: "pend 0 = [] \<Longrightarrow> lv_first_key (tw_levels w ! 0) = Some key"
    and mr: "make_room E cb key n w c = Ok (too_large, w1, c1)"
  obtains gs1 st1 pend1 where "writer_inv E cb c0 old front w1 c1 gs1 st1 pend1 kvs xs"
    "pend1 0 = [] \<Longrightarrow> lv_first_key (tw_levels w1 ! 0) = Some key"
    "leaf_room w1 key (if too_large then 8 else n)"
    "tw_layout w1 = tw_layout w" "tw_page_size w1 = tw_page_size w"
proof -
  have empty: "leaf_room v key 8" if "writer_inv E cb c0 old front v d gs' st' pend' kvs' xs'" "pend' 0 = []"
    "tw_layout v = tw_layout w" "tw_page_size v = tw_page_size w" for v d gs' st' pend' kvs' xs'
  proof -
    have t: "tree_inv E front v gs' st' pend' 0" "0 < length (tw_levels v)" using that by (auto simp: writer_inv_def)
    show ?thesis using tree_inv_level [OF t(1) order_refl t(2)] that(2-4) key
      by (simp add: leaf_room_def key_room_def)
  qed
  obtain needs where needs: "inline_needs w (stored_key_len w (length key)) n = Ok needs"
    "needs \<le> tw_page_size w \<longleftrightarrow> leaf_room w key n" using inline_needs_room [OF inv] by blast
  obtain needs8 where needs8: "inline_needs w (stored_key_len w (length key)) 8 = Ok needs8"
    "needs8 \<le> tw_page_size w \<longleftrightarrow> leaf_room w key 8" using inline_needs_room [OF inv] by blast
  have t: "tree_inv E front w gs st pend 0" "0 < length (tw_levels w)" using inv by (auto simp: writer_inv_def)
  note cnt = tree_inv_level(1) [OF t(1) order_refl t(2)]
  consider "needs \<le> tw_page_size w" | "tw_page_size w < needs" "tw_page_size w < needs8 \<and> pend 0 \<noteq> []"
    | "tw_page_size w < needs" "\<not> (tw_page_size w < needs8 \<and> pend 0 \<noteq> [])" by linarith
  then show thesis
  proof cases
    case 1
    then have "\<not> too_large" "w1 = w" "c1 = c" using mr needs(1) by (auto simp: make_room_def Let_def)
    then show ?thesis using that [of gs st pend] inv first 1 needs(2) by simp
  next
    case 2
    then obtain w' where ro: "rotate E cb 0 True w c = Ok (w', c1)" "w1 = note_first_key w' 0 key"
      "\<exists>needs'. inline_needs w1 (stored_key_len w (length key)) n = Ok needs' \<and> (too_large \<longleftrightarrow> tw_page_size w1 < needs')"
      using mr needs(1) needs8(1) cnt by (auto simp: make_room_def Let_def)
    obtain gs' st' pend' where r: "writer_inv E cb c0 old front w' c1 gs' st' pend' kvs xs" "pend' 0 = []"
      "tw_layout w' = tw_layout w" "tw_page_size w' = tw_page_size w"
      using rotate_leaf [OF inv _ ro(1)] 2 by blast
    note f = writer_inv_first_key [OF r(1), of key, folded ro(2)]
    have lay: "tw_layout w1 = tw_layout w" "tw_page_size w1 = tw_page_size w" using r(3,4) ro(2) by simp_all
    have "stored_key_len w1 = stored_key_len w" using lay by (simp add: stored_key_len_def fun_eq_iff)
    then have "leaf_room w1 key (if too_large then 8 else n)"
      using inline_needs_room [OF f(1), of key n] ro(3) empty [OF f(1) r(2) lay] by auto
    then show ?thesis using that [OF f(1)] f(2) lay by simp
  next
    case 3
    then have "too_large" "w1 = w" "c1 = c" using mr needs(1) needs8(1) cnt by (auto simp: make_room_def Let_def)
    moreover have "leaf_room w key 8" using 3(2) needs8(2) empty [OF inv] by auto
    ultimately show ?thesis using that [of gs st pend] inv first by simp
  qed
qed

lemma tree_inv_blob:
  assumes inv: "tree_inv E front w gs st pend h" and fr: "frame {} gs gs'"
    and st: "sink_state s (tw_layout w) front gs' st'" and kept: "offsets_kept front gs st st'"
  shows "tree_inv E front (w\<lparr>tw_sink := s\<rparr>) gs' st' pend h"
proof -
  have "linked gs' pend j" if "linked gs pend j" for j
    using that frame_content [OF fr, of j] frame_content(1) [OF fr, of "Suc j"] frame_nodes [OF fr, of j]
    by (simp add: linked_def)
  then show ?thesis
    using inv st kept frame_nodes [OF fr] level_inv_frame [OF fr] by (auto simp: tree_inv_def offsets_kept_def)
qed

lemma write_blob_spec:
  fixes w :: "'e TreeWriter" and gs :: "'e gpage list"
  assumes inv: "writer_inv E cb c0 old front w c gs st pend kvs xs" and wb: "write_blob_page w val = Ok (p, w')"
  obtains gs' st' where "writer_inv E cb c0 old front w' c gs' st' pend kvs xs" "p < length gs'" "gs' ! p = BlobPage val"
    "tw_layout w' = tw_layout w" "tw_page_size w' = tw_page_size w" "tw_levels w' = tw_levels w"
    "tw_extra_budget w' = tw_extra_budget w"
proof -
  have t: "tree_inv E front w gs st pend 0" using inv by (auto simp: writer_inv_def)
  obtain offset s1 s2 where s: "sink_begin_page (tw_sink w) = Ok (p, offset, s1)"
    "sink_write_page s1 (gbytes (tw_layout w) (BlobPage val :: 'e gpage)) = Ok s2" "w' = w\<lparr>tw_sink := s2\<rparr>"
    using wb by (auto simp: write_blob_page_def blob_image_def Let_def)
  have "sink_state (tw_sink w) (tw_layout w) front gs st" using t by (simp add: tree_inv_def)
  from sink_state_page [OF this s(1,2)]
  obtain b where b: "p = length gs" "sink_state s2 (tw_layout w) front (gs @ [BlobPage val]) (st @ [b])" by blast
  have "length st = length gs" using t by (auto simp: tree_inv_def sink_state_def dest: list_all2_lengthD)
  then have kept: "offsets_kept front gs st (st @ [b])" by (simp add: offsets_kept_def stored_offsets_snoc nth_append)
  have fr: "frame {} gs (gs @ [BlobPage val])" by (auto simp: frame_def nth_append)
  have "nodes (gs @ [BlobPage val]) 0 = nodes gs 0" using frame_nodes [OF fr] by simp
  then have "handed (tw_layout w) (gs @ [BlobPage val]) = handed (tw_layout w) gs" using handed_frame [OF fr, of "[]"] by simp
  moreover have "frame UNIV (map Other old) (gs @ [BlobPage val])"
    using inv frame_trans [OF _ frame_mono [OF fr, of UNIV], of "map Other old"] by (simp add: writer_inv_def)
  ultimately have "writer_inv E cb c0 old front w' c (gs @ [BlobPage val]) (st @ [b]) pend kvs xs"
    using inv tree_inv_blob [OF t fr b(2) kept] frame_content(1) [OF fr] s(3) by (simp add: writer_inv_def)
  then show ?thesis using that [of "gs @ [BlobPage val]" "st @ [b]"] b(1) s(3) by simp
qed

lemma level_wf_add_entry:
  assumes wf: "level_wf E lay psize gs True l pending" and ok: "settings_ok lay psize"
    and d: "digest E key = Ok d" and key: "key_room lay psize key" and it: "item_ok gs True it"
    and first: "pending = [] \<Longrightarrow> lv_first_key l = Some key"
    and room: "base_of lay True (length pending + 1) + length (lv_payload l) + length (key_bytes lay key)
      + length (item_bytes it) \<le> psize"
  shows "level_wf E lay psize gs True (l\<lparr>lv_digests := lv_digests l @ [d],
        lv_payload := lv_payload l @ key_bytes lay key @ item_bytes it,
        lv_sizes := lv_sizes l @ [(length (key_bytes lay key), length (item_bytes it))],
        lv_overflow := lv_overflow l @ [item_ref it], lv_extras := lv_extras l @ [x]\<rparr>) (pending @ [(key, it)])"
proof -
  have "length pending + 1 < 2 ^ 28"
    using room_count [of "length pending" lay True "length (lv_payload l) + length (key_bytes lay key) + length (item_bytes it)" psize]
      wf ok room by (simp add: level_wf_def)
  then show ?thesis using wf d key it first room
    by (auto simp: level_wf_def holds_def entry_size_def entry_bytes_def hd_append)
qed

text \<open>The leaf with one more entry.\<close>

definition with_entry :: "NodeLayout \<Rightarrow> u64 \<Rightarrow> bytes \<Rightarrow> item \<Rightarrow> 'e \<Rightarrow> 'e Level \<Rightarrow> 'e Level" where
  "with_entry lay d key it x l = l\<lparr>lv_digests := lv_digests l @ [d],
        lv_payload := lv_payload l @ key_bytes lay key @ item_bytes it,
        lv_sizes := lv_sizes l @ [(length (key_bytes lay key), length (item_bytes it))],
        lv_overflow := lv_overflow l @ [item_ref it], lv_extras := lv_extras l @ [x]\<rparr>"

lemma add_entry_with:
  "add_entry w d key val blob x = set_level w 0
     (with_entry (tw_layout w) d key (case blob of Some p \<Rightarrow> Spilled p val | None \<Rightarrow> Stored val) x (tw_levels w ! 0))"
  by (cases blob) (simp_all add: add_entry_def with_entry_def key_bytes_def stored_key_len_def Let_def)

lemma add_entry_spec:
  assumes inv: "writer_inv E cb c0 old front w c gs st pend kvs xs" and d: "digest E key = Ok d"
    and key: "key_room (tw_layout w) (tw_page_size w) key" and it: "item_ok gs True it"
    and first: "pend 0 = [] \<Longrightarrow> lv_first_key (tw_levels w ! 0) = Some key" and room: "leaf_room w key (length (item_bytes it))"
    and sh: "tw_levels w' = (tw_levels w)[0 := with_entry (tw_layout w) d key it x (tw_levels w ! 0)]"
      "tw_layout w' = tw_layout w" "tw_page_size w' = tw_page_size w" "tw_sink w' = tw_sink w"
  shows "writer_inv E cb c0 old front w' c gs st (pend(0 := pend 0 @ [(key, it)])) (kvs @ [(key, item_value it)]) (xs @ [x])"
proof -
  let ?l = "tw_levels w ! 0" and ?pend = "pend(0 := pend 0 @ [(key, it)])"
  let ?li = "level_inv E (tw_layout w) (tw_page_size w) gs (stored_offsets (length front) st)"
  have t: "tree_inv E front w gs st pend 0" "0 < length (tw_levels w)" using inv by (auto simp: writer_inv_def)
  have ok: "settings_ok (tw_layout w) (tw_page_size w)" and li: "?li ?l (pend 0) 0" using t by (simp_all add: tree_inv_def)
  have wf: "level_wf E (tw_layout w) (tw_page_size w) gs True ?l (pend 0)" using li by (simp add: level_inv_def)
  have room': "base_of (tw_layout w) True (length (pend 0) + 1) + length (lv_payload ?l) + length (key_bytes (tw_layout w) key)
      + length (item_bytes it) \<le> tw_page_size w"
    using room tree_inv_level(1) [OF t(1) order_refl t(2)] by (simp add: leaf_room_def)
  have "level_wf E (tw_layout w) (tw_page_size w) gs True (with_entry (tw_layout w) d key it x ?l) (pend 0 @ [(key, it)])"
    unfolding with_entry_def by (rule level_wf_add_entry [OF wf ok d key it first room'])
  then have "?li (with_entry (tw_layout w) d key it x ?l) (?pend 0) 0" using li by (simp add: level_inv_def with_entry_def)
  moreover have "?li (tw_levels w ! j) (?pend j) j" if "0 < j" "j < length (tw_levels w)" for j
    using that t(1) by (simp add: tree_inv_def)
  ultimately have "?li (tw_levels w' ! j) (?pend j) j" if "j < length (tw_levels w)" for j
    using that by (cases "j = 0") (simp_all add: sh(1))
  moreover have "linked gs ?pend j = linked gs pend j" for j by (simp add: linked_def)
  ultimately have "tree_inv E front w' gs st ?pend 0" using t unfolding tree_inv_def by (simp add: sh)
  then show ?thesis using inv t(2) by (simp add: writer_inv_def sh plain_def with_entry_def)
qed

lemma writer_inv_cong:
  assumes "tw_levels w' = tw_levels w" "tw_layout w' = tw_layout w" "tw_page_size w' = tw_page_size w" "tw_sink w' = tw_sink w"
  shows "writer_inv E cb c0 old front w' c gs st pend kvs xs = writer_inv E cb c0 old front w c gs st pend kvs xs"
  by (simp add: writer_inv_def tree_inv_def assms)

text \<open>A value that does not fit or is too long for an inline length goes to a page of its own.\<close>

lemma push_value_spec:
  assumes inv: "writer_inv E cb c0 old front w c gs st pend kvs xs"
    and room: "leaf_room w key (if too_large then 8 else length val)" and len: "length val < 2 ^ 31"
    and wb: "(if too_large \<or> length val \<ge> OVERFLOW_SENTINEL
       then and_then (write_blob_page w val) (\<lambda>(ordinal, w'). Ok (Some ordinal, w')) else Ok (None, w)) = Ok (blob, w2)"
  defines "it \<equiv> (case blob of Some p \<Rightarrow> Spilled p val | None \<Rightarrow> Stored val)"
  obtains gs2 st2 where "writer_inv E cb c0 old front w2 c gs2 st2 pend kvs xs" "item_ok gs2 True it"
    "leaf_room w2 key (length (item_bytes it))" "tw_layout w2 = tw_layout w" "tw_page_size w2 = tw_page_size w"
    "tw_levels w2 = tw_levels w"
proof (cases "too_large \<or> length val \<ge> OVERFLOW_SENTINEL")
  case True
  then obtain p where p: "write_blob_page w val = Ok (p, w2)" "blob = Some p" using wb by auto
  have "8 \<le> (if too_large then 8 else length val)" using True by (auto simp: OVERFLOW_SENTINEL_def)
  then have "leaf_room w key 8" using room by (simp add: leaf_room_def)
  then show ?thesis using write_blob_spec [OF inv p(1)] that p(2) len by (auto simp: it_def leaf_room_def)
next
  case False
  then show ?thesis using that [of gs st] inv wb room by (auto simp: it_def)
qed

lemma push_parts:
  assumes pu: "push E extra_bytes cb key val x w c = Ok (w', c')"
  obtains too_large w1 c1 d blob w2 where "make_room E cb key (length val) (note_first_key w 0 key) c = Ok (too_large, w1, c1)"
    "(if too_large \<or> length val \<ge> OVERFLOW_SENTINEL
       then and_then (write_blob_page w1 val) (\<lambda>(ordinal, w'). Ok (Some ordinal, w')) else Ok (None, w1)) = Ok (blob, w2)" "digest E key = Ok d"
    "(let w3 = (add_entry w2 d key val blob x)
                 \<lparr>tw_pending_extra := tw_pending_extra w2 + extra_bytes x, tw_entries := tw_entries w2 + 1\<rparr> in
      if tw_pending_extra w3 > tw_extra_budget w3 \<and> lv_entry_count (tw_levels w3 ! 0) > 0
      then rotate E cb 0 True w3 c1 else Ok (w3, c1)) = Ok (w', c')"
    "length val < 2 ^ 31" "key_room (tw_layout w) (tw_page_size w) key"
proof -
  let ?lay = "tw_layout w" and ?ps = "tw_page_size w"
  have len: "length key < 65536" "length val < 2 ^ 31" using pu by (auto simp: push_def split: if_splits)
  obtain m1 d1 where one: "leaf_meta_area w 1 = Ok m1" "digest_area w 1 = Ok d1"
    "PAGE_PREFIX_LEN + m1 + d1 + stored_key_len w (length key) + 8 \<le> ?ps"
    using pu by (auto simp: push_def Let_def not_less split: if_splits)
  then have key: "key_room ?lay ?ps key"
    using len(1) by (simp add: key_room_def base_of_def meta_size_def leaf_meta_area_def digest_area_def key_bytes_len)
  show thesis
  proof -
    have nl: "\<not> length key > 65535" "\<not> length val > 2147483647" using len by auto
    have "\<not> PAGE_PREFIX_LEN + m1 + d1 + stored_key_len w (length key) + 8 > ?ps" using one(3) by simp
    note pu' = pu [unfolded push_def if_not_P [OF nl(1)] if_not_P [OF nl(2)] one(1,2) Let_def and_then_simps if_not_P [OF this]]
    from pu' show thesis by (clarsimp simp del: One_nat_def) (rule that [OF _ _ _ _ len(2) key], assumption+, simp add: Let_def del: One_nat_def split del: if_split)
  qed
qed

lemma push_spec:
  assumes inv: "writer_inv E cb c0 old front w c gs st pend kvs xs" and pu: "push E extra_bytes cb key val x w c = Ok (w', c')"
  obtains gs' st' pend' where "writer_inv E cb c0 old front w' c' gs' st' pend' (kvs @ [(key, val)]) (xs @ [x])"
    "tw_layout w' = tw_layout w" "tw_page_size w' = tw_page_size w"
proof -
  let ?lay = "tw_layout w" and ?ps = "tw_page_size w"
  from pu obtain too_large w1 c1 d blob w2 where p: "make_room E cb key (length val) (note_first_key w 0 key) c = Ok (too_large, w1, c1)"
    "(if too_large \<or> length val \<ge> OVERFLOW_SENTINEL
       then and_then (write_blob_page w1 val) (\<lambda>(ordinal, w'). Ok (Some ordinal, w')) else Ok (None, w1)) = Ok (blob, w2)" and d: "digest E key = Ok d"
    and last: "(let w3 = (add_entry w2 d key val blob x)
                 \<lparr>tw_pending_extra := tw_pending_extra w2 + extra_bytes x, tw_entries := tw_entries w2 + 1\<rparr> in
      if tw_pending_extra w3 > tw_extra_budget w3 \<and> lv_entry_count (tw_levels w3 ! 0) > 0
      then rotate E cb 0 True w3 c1 else Ok (w3, c1)) = Ok (w', c')"
    and len: "length val < 2 ^ 31" and key: "key_room ?lay ?ps key"
    by (rule push_parts)
  note f = writer_inv_first_key [OF inv, of key]
  obtain gs1 st1 pend1 where m: "writer_inv E cb c0 old front w1 c1 gs1 st1 pend1 kvs xs"
    "pend1 0 = [] \<Longrightarrow> lv_first_key (tw_levels w1 ! 0) = Some key" "leaf_room w1 key (if too_large then 8 else length val)"
    "tw_layout w1 = ?lay" "tw_page_size w1 = ?ps"
    using make_room_spec [OF f(1) _ f(2) p(1)] key by auto
  obtain gs2 st2 where v: "writer_inv E cb c0 old front w2 c1 gs2 st2 pend1 kvs xs"
    "item_ok gs2 True (case blob of Some p \<Rightarrow> Spilled p val | None \<Rightarrow> Stored val)"
    "leaf_room w2 key (length (item_bytes (case blob of Some p \<Rightarrow> Spilled p val | None \<Rightarrow> Stored val)))"
    "tw_layout w2 = ?lay" "tw_page_size w2 = ?ps" "tw_levels w2 = tw_levels w1"
    using push_value_spec [OF m(1,3) len p(2)] m(4,5) by metis
  define w3 where "w3 = (add_entry w2 d key val blob x)
      \<lparr>tw_pending_extra := tw_pending_extra w2 + extra_bytes x, tw_entries := tw_entries w2 + 1\<rparr>"
  have w3: "writer_inv E cb c0 old front w3 c1 gs2 st2
      (pend1(0 := pend1 0 @ [(key, case blob of Some p \<Rightarrow> Spilled p val | None \<Rightarrow> Stored val)])) (kvs @ [(key, val)]) (xs @ [x])"
    using add_entry_spec [OF v(1) d _ v(2) _ v(3), of w3 x] key m(2) v(4-6)
    by (simp add: w3_def add_entry_with set_level_def split: option.splits)
  have lay3: "tw_layout w3 = ?lay" "tw_page_size w3 = ?ps" using v(4,5) by (simp_all add: w3_def add_entry_with set_level_def)
  note last = last [folded w3_def, unfolded Let_def]
  show thesis
  proof (cases "tw_pending_extra w3 > tw_extra_budget w3 \<and> lv_entry_count (tw_levels w3 ! 0) > 0")
    case True
    then have "rotate E cb 0 True w3 c1 = Ok (w', c')" using last by simp
    from rotate_leaf [OF w3 _ this] that lay3 show ?thesis by (metis fun_upd_same snoc_eq_iff_butlast)
  next
    case False
    then have "w' = w3" "c' = c1" using last by auto
    then show ?thesis using that w3 lay3 by simp
  qed
qed

subsection \<open>The filter of the sink\<close>

lemma sink_filter_kept:
  assumes "sink_write_page s page = Ok s'" shows "sink_filter s' = sink_filter s"
  using assms by (auto simp: sink_write_page_def sink_write_raw_def Let_def split: option.splits)

lemma write_level_filter:
  assumes "write_level cb h w c = Ok (p, offset, w', c')"
  shows "sink_filter (tw_sink w') = sink_filter (tw_sink w)"
  using assms by (auto simp: write_level_def flush_page_def patch_sibling_def sink_patch_at_def sink_begin_page_def set_level_def Let_def
      dest!: sink_filter_kept split: if_splits option.splits)

lemma rotate_filter:
  assumes "rotate E cb h promote w c = Ok (w', c')"
  shows "sink_filter (tw_sink w') = sink_filter (tw_sink w)"
proof (cases promote)
  case True
  with assms have "rotate E cb h True w c = Ok (w', c')" by simp
  then show ?thesis
  proof (induction rule: rotate_induct)
    case fits
    then show ?case using write_level_filter [OF fits(1)]
      by (auto simp: make_parent_def settle_level_def add_separator_def set_level_def note_first_key_def Let_def split: if_splits)
  next
    case full
    then show ?case using write_level_filter [OF full(1)]
      by (auto simp: make_parent_def settle_level_def add_separator_def set_level_def note_first_key_def Let_def split: if_splits)
  qed
qed (use assms in \<open>auto simp: rotate_keep settle_level_def set_level_def dest: write_level_filter\<close>)

lemma write_blob_filter: "write_blob_page w v = Ok (p, w') \<Longrightarrow> sink_filter (tw_sink w') = sink_filter (tw_sink w)"
  by (auto simp: write_blob_page_def sink_begin_page_def Let_def dest!: sink_filter_kept)

lemma add_entry_sink [simp]: "tw_sink (add_entry w d key val blob x) = tw_sink w"
  by (simp add: add_entry_with set_level_def)

lemma make_room_filter:
  "make_room E cb key n w c = Ok (b, w', c') \<Longrightarrow> sink_filter (tw_sink w') = sink_filter (tw_sink w)"
  by (auto simp: make_room_def Let_def split: if_splits dest!: rotate_filter)

lemma push_filter:
  assumes "push E eb cb key val x w c = Ok (w', c')" shows "sink_filter (tw_sink w') = sink_filter (tw_sink w)"
proof -
  from assms obtain b w1 c1 d blob w2 where p: "make_room E cb key (length val) (note_first_key w 0 key) c = Ok (b, w1, c1)"
    "(if b \<or> length val \<ge> OVERFLOW_SENTINEL
       then and_then (write_blob_page w1 val) (\<lambda>(ordinal, w'). Ok (Some ordinal, w')) else Ok (None, w1)) = Ok (blob, w2)" "digest E key = Ok d"
    "(let w3 = (add_entry w2 d key val blob x)
                 \<lparr>tw_pending_extra := tw_pending_extra w2 + eb x, tw_entries := tw_entries w2 + 1\<rparr> in
      if tw_pending_extra w3 > tw_extra_budget w3 \<and> lv_entry_count (tw_levels w3 ! 0) > 0
      then rotate E cb 0 True w3 c1 else Ok (w3, c1)) = Ok (w', c')"
    by (rule push_parts)
  have "sink_filter (tw_sink w2) = sink_filter (tw_sink w1)" using p(2) write_blob_filter by (auto split: if_splits)
  then show ?thesis using p(4) make_room_filter [OF p(1)] by (auto simp: Let_def dest!: rotate_filter split: if_splits)
qed

lemma finish_pass_filter:
  "finish_pass E cb h flushed w c = Ok (fl, w', c') \<Longrightarrow> sink_filter (tw_sink w') = sink_filter (tw_sink w)"
proof (induction E cb h flushed w c rule: finish_pass.induct)
  case (1 E cb h flushed w c)
  note fp = "1.prems" [unfolded finish_pass.simps [of E cb h]]
  show ?case
  proof (cases "h + 1 < length (tw_levels w) \<and> lv_entry_count (tw_levels w ! h) > 0")
    case True
    then obtain w1 c1 where ro: "rotate E cb h True w c = Ok (w1, c1)" "finish_pass E cb (h + 1) True w1 c1 = Ok (fl, w', c')"
      using fp by auto
    then show ?thesis using "1.IH"(1) [OF _ _ ro(1) refl ro(2)] True rotate_filter [OF ro(1)] by simp
  next
    case False
    then show ?thesis using fp "1.IH"(2) by (auto split: if_splits)
  qed
qed

subsection \<open>Finishing\<close>

text \<open>A rotation at any level leaves the levels below consistent.\<close>

lemma rotated_whole:
  assumes inv: "tree_inv E front w gs st pend 0" and hl: "h < length (tw_levels w)"
    and ro: "rotated E front h w gs st pend w' gs' st' pend'"
  shows "tree_inv E front w' gs' st' pend' 0"
proof -
  have r: "tree_inv E front w' gs' st' pend' h" "pend' h = []" "content gs' h = content gs h @ pend h" "frame {h..} gs gs'"
    "offsets_kept front gs st st'" "\<And>j. j < h \<Longrightarrow> pend' j = pend j \<and> tw_levels w' ! j = tw_levels w ! j"
    "tw_layout w' = tw_layout w" "tw_page_size w' = tw_page_size w" "length (tw_levels w) \<le> length (tw_levels w')"
    using ro by (auto simp: rotated_def)
  have low: "j \<notin> {h..}" if "j < h" for j using that by simp
  have lv: "level_inv E (tw_layout w') (tw_page_size w') gs' (stored_offsets (length front) st') (tw_levels w' ! j) (pend' j) j"
    if "j < h" for j
    using level_inv_frame [OF r(4) low [OF that]] inv r(5-8) hl that by (simp add: tree_inv_def offsets_kept_def)
  have ne: "nodes gs' j \<noteq> []" if "j < h" for j
    using frame_nodes [OF r(4) low [OF that]] inv hl that by (simp add: tree_inv_def)
  have lk: "linked gs' pend' j" if "j < h" for j
  proof -
    have "content gs' (Suc j) @ pend' (Suc j) = content gs (Suc j) @ pend (Suc j)"
    proof (cases "Suc j = h")
      case False
      then have "Suc j < h" using that by simp
      then show ?thesis using frame_content(1) [OF r(4) low] r(6) by simp
    qed (use r in simp)
    moreover have "linked gs pend j" using inv by (simp add: tree_inv_def)
    ultimately show ?thesis
      using frame_content [OF r(4) low [OF that]] frame_nodes [OF r(4) low [OF that]] by (simp add: linked_def)
  qed
  have up: "sink_state (tw_sink w') (tw_layout w') front gs' st'" "settings_ok (tw_layout w') (tw_page_size w')"
    "\<And>j. h \<le> j \<Longrightarrow> j < length (tw_levels w') \<Longrightarrow>
      level_inv E (tw_layout w') (tw_page_size w') gs' (stored_offsets (length front) st') (tw_levels w' ! j) (pend' j) j"
    "\<And>j. h \<le> j \<Longrightarrow> length (tw_levels w') \<le> Suc j \<Longrightarrow> nodes gs' j = []"
    "\<And>j. h \<le> j \<Longrightarrow> length (tw_levels w') \<le> j \<Longrightarrow> pend' j = []"
    "\<And>j. h \<le> j \<Longrightarrow> Suc j < length (tw_levels w') \<Longrightarrow> nodes gs' j \<noteq> []" "\<And>j. h \<le> j \<Longrightarrow> linked gs' pend' j"
    using r(1) unfolding tree_inv_def by blast+
  have len: "\<not> length (tw_levels w') \<le> Suc j" if "j < h" for j using that hl r(9) by simp
  show ?thesis unfolding tree_inv_def
  proof (intro conjI allI impI)
    show "nodes gs' j = []" if "0 \<le> j \<and> length (tw_levels w') \<le> Suc j" for j using that len up(4) not_less by blast
    show "pend' j = []" if "0 \<le> j \<and> length (tw_levels w') \<le> j" for j using that len [of j] up(5) [of j] by (cases "j < h") auto
    show "linked gs' pend' j" for j using lk [of j] up(7) [of j] by (cases "j < h") auto
  qed (use lv ne up in \<open>metis not_less\<close>)+
qed

lemma rotate_level:
  assumes inv: "writer_inv E cb c0 old front w c gs st pend kvs xs" "pend h \<noteq> []" and ro: "rotate E cb h True w c = Ok (w', c')"
  obtains gs' st' pend' where "writer_inv E cb c0 old front w' c' gs' st' pend' kvs xs" "pend' h = []"
    "\<And>j. j < h \<Longrightarrow> pend' j = pend j" "tw_layout w' = tw_layout w" "tw_page_size w' = tw_page_size w"
    "length (tw_levels w) \<le> length (tw_levels w')"
proof (cases "h = 0")
  case True
  from inv(1) inv(2) [unfolded True] ro [unfolded True] obtain gs' st' pend' where
    "writer_inv E cb c0 old front w' c' gs' st' pend' kvs xs" "pend' 0 = []"
    "tw_layout w' = tw_layout w" "tw_page_size w' = tw_page_size w" by (rule rotate_leaf)
  then show ?thesis using rotate_levels [OF ro] True by (intro that [of gs' st' pend']) simp_all
next
  case False
  have t: "tree_inv E front w gs st pend 0" "run_refs cb (handed (tw_layout w) gs) c0 = Ok c"
    using inv by (auto simp: writer_inv_def)
  then have th: "tree_inv E front w gs st pend h" by (simp add: tree_inv_def)
  have hl: "h < length (tw_levels w)"
  proof (rule ccontr)
    assume "\<not> h < length (tw_levels w)"
    then have "pend h = []" using t(1) by (simp add: tree_inv_def)
    then show False using inv(2) by simp
  qed
  obtain gs' st' pend' where r: "rotated E front h w gs st pend w' gs' st' pend'"
    "run_refs cb (handed (tw_layout w) gs') c0 = Ok c'"
    using rotate_spec [OF ro th inv(2) t(2)] by blast
  note whole = rotated_whole [OF t(1) hl r(1)]
  have f: "frame {h..} gs gs'" "0 \<notin> {h..}" using r(1) False by (auto simp: rotated_def)
  have "handed (tw_layout w) gs' = handed (tw_layout w) gs"
    using handed_frame [OF f(1), of "[]"] frame_nodes [OF f] by simp
  moreover have l: "tw_layout w' = tw_layout w" "tw_page_size w' = tw_page_size w" "pend' h = []"
    "length (tw_levels w) \<le> length (tw_levels w')" "\<And>j. j < h \<Longrightarrow> pend' j = pend j"
    "tw_levels w' ! 0 = tw_levels w ! 0" using r(1) False by (simp_all add: rotated_def)
  moreover from this have "tw_levels w' \<noteq> []" using inv(1) by (auto simp: writer_inv_def)
  moreover have "frame UNIV (map Other old) gs'"
    using inv(1) frame_trans [OF _ frame_mono [OF f(1), of UNIV], of "map Other old"] by (simp add: writer_inv_def)
  ultimately have "writer_inv E cb c0 old front w' c' gs' st' pend' kvs xs"
    using inv(1) whole r(2) frame_content(1) [OF f] False by (simp add: writer_inv_def)
  then show ?thesis using l by (intro that [of gs' st' pend']) simp_all
qed

lemma finish_pass_spec:
  assumes "finish_pass E cb h flushed w c = Ok (flushed', w', c')"
    "writer_inv E cb c0 old front w c gs st pend kvs xs" "\<forall>j < h. pend j = []"
  shows "\<exists>gs' st' pend'. writer_inv E cb c0 old front w' c' gs' st' pend' kvs xs \<and> (\<forall>j. Suc j < length (tw_levels w') \<longrightarrow> pend' j = [])
    \<and> tw_layout w' = tw_layout w \<and> tw_page_size w' = tw_page_size w"
  using assms
proof (induction E cb h flushed w c arbitrary: gs st pend rule: finish_pass.induct)
  case (1 E cb h flushed w c)
  note fp = "1.prems"(1) [unfolded finish_pass.simps [of E cb h]]
  have cnt: "lv_entry_count (tw_levels w ! h) = length (pend h)" if "h < length (tw_levels w)"
    using "1.prems"(2) that tree_inv_level(1) by (fastforce simp: writer_inv_def)
  consider "\<not> h + 1 < length (tw_levels w)" | "h + 1 < length (tw_levels w)" "pend h = []"
    | "h + 1 < length (tw_levels w)" "pend h \<noteq> []" by blast
  then show ?case
  proof cases
    case 1
    then have "w' = w" "c' = c" using fp by auto
    then show ?thesis using 1 "1.prems"(2,3) by (intro exI [of _ gs] exI [of _ st] exI [of _ pend]) simp
  next
    case 2
    then have "finish_pass E cb (h + 1) flushed w c = Ok (flushed', w', c')" using fp cnt by simp
    moreover have "\<forall>j < h + 1. pend j = []" using "1.prems"(3) 2(2) by (simp add: less_Suc_eq)
    ultimately show ?thesis using "1.IH"(2) [OF 2(1)] "1.prems"(2) cnt 2 by simp
  next
    case 3
    then obtain w1 c1 where ro: "rotate E cb h True w c = Ok (w1, c1)"
      "finish_pass E cb (h + 1) True w1 c1 = Ok (flushed', w', c')" using fp cnt by auto
    from "1.prems"(2) 3(2) ro(1) obtain gs1 st1 pend1 where r: "writer_inv E cb c0 old front w1 c1 gs1 st1 pend1 kvs xs" "pend1 h = []"
      "\<And>j. j < h \<Longrightarrow> pend1 j = pend j" "tw_layout w1 = tw_layout w" "tw_page_size w1 = tw_page_size w"
      by (rule rotate_level) blast
    have "\<forall>j < h + 1. pend1 j = []" using "1.prems"(3) r(2,3) by (simp add: less_Suc_eq)
    then show ?thesis using "1.IH"(1) [OF 3(1) _ ro(1) refl ro(2) r(1)] cnt 3 r(4,5) by simp
  qed
qed

lemma finish_pass_idle:
  assumes "writer_inv E cb c0 old front w c gs st pend kvs xs" "\<forall>j. Suc j < length (tw_levels w) \<longrightarrow> pend j = []"
  shows "finish_pass E cb h flushed w c = Ok (flushed, w, c)"
  using assms
proof (induction E cb h flushed w c rule: finish_pass.induct)
  case (1 E cb h flushed w c)
  have "lv_entry_count (tw_levels w ! h) = 0" if "h + 1 < length (tw_levels w)"
    using "1.prems" that tree_inv_level(1) [of E front w gs st pend 0 h] by (auto simp: writer_inv_def)
  then show ?case using "1.IH"(2) "1.prems" by (subst finish_pass.simps) simp
qed

text \<open>Two passes are enough: the first empties every level but the top one, and the second has
  nothing left to write.\<close>

lemma finish_pass_settles:
  assumes inv: "writer_inv E cb c0 old front w c gs st pend kvs xs" and p: "finish_pass E cb 0 False w c = Ok (flushed, w', c')"
  shows "finish_pass E cb 0 False w' c' = Ok (False, w', c')" "finish_passes E cb w c = Some (Ok (w', c'))"
proof -
  obtain gs' st' pend' where q: "writer_inv E cb c0 old front w' c' gs' st' pend' kvs xs"
    "\<forall>j. Suc j < length (tw_levels w') \<longrightarrow> pend' j = []" using finish_pass_spec [OF p inv] by blast
  show i: "finish_pass E cb 0 False w' c' = Ok (False, w', c')" by (rule finish_pass_idle [OF q])
  then have "finish_passes E cb w' c' = Some (Ok (w', c'))" by (subst finish_passes.simps) simp
  then show "finish_passes E cb w c = Some (Ok (w', c'))" by (subst finish_passes.simps) (simp add: p)
qed

lemma finish_passes_spec:
  assumes inv: "writer_inv E cb c0 old front w c gs st pend kvs xs"
  shows "\<exists>r. finish_passes E cb w c = Some r \<and> (\<forall>w' c'. r = Ok (w', c') \<longrightarrow>
    (\<exists>gs' st' pend'. writer_inv E cb c0 old front w' c' gs' st' pend' kvs xs \<and> (\<forall>j. Suc j < length (tw_levels w') \<longrightarrow> pend' j = [])
    \<and> tw_layout w' = tw_layout w \<and> tw_page_size w' = tw_page_size w
    \<and> sink_filter (tw_sink w') = sink_filter (tw_sink w)))"
proof (cases "finish_pass E cb 0 False w c")
  case (Inl e)
  then show ?thesis by (subst finish_passes.simps) simp
next
  case (Inr r)
  then obtain fl w1 c1 where p: "finish_pass E cb 0 False w c = Ok (fl, w1, c1)" by (cases r) auto
  obtain gs' st' pend' where q: "writer_inv E cb c0 old front w1 c1 gs' st' pend' kvs xs"
    "\<forall>j. Suc j < length (tw_levels w1) \<longrightarrow> pend' j = []" "tw_layout w1 = tw_layout w" "tw_page_size w1 = tw_page_size w"
    using finish_pass_spec [OF p inv] by blast
  then show ?thesis using finish_pass_settles(2) [OF inv p] finish_pass_filter [OF p] by auto
qed

subsection \<open>The finished tree\<close>

text \<open>\<open>rt\<close> is the only node at height \<open>ht\<close>; below, every level's entries are the separators of the
  next, up to the leaves, whose entries are \<open>kvs\<close>.\<close>

definition built :: "KeyEncoding \<Rightarrow> NodeLayout \<Rightarrow> nat \<Rightarrow> 'e gpage list \<Rightarrow> nat \<Rightarrow> page_ordinal \<Rightarrow> (bytes \<times> bytes) list \<Rightarrow> bool" where
  "built E lay psize gs ht rt kvs \<longleftrightarrow> settings_ok lay psize \<and> length gs \<le> 2147483647 \<and> nodes gs ht = [rt]
     \<and> (\<forall>j \<le> ht. chained gs j
          \<and> (\<forall>p \<in> set (nodes gs j). level_wf E lay psize gs (j = 0) (node_level (gs ! p)) (node_entries (gs ! p))))
     \<and> (\<forall>j < ht. content gs (Suc j) = separators gs j \<and> nodes gs j \<noteq> []
          \<and> (\<forall>p \<in> set (nodes gs j). node_entries (gs ! p) \<noteq> []))
     \<and> map plain (content gs 0) = kvs"

lemma frame_append_node: "frame {h} gs (gs @ [NodePage h rt l ents])"
  by (auto simp: frame_def nth_append)

text \<open>The page of the top level completes the tree.\<close>

lemma built_top:
  assumes inv: "writer_inv E cb c0 old front w c gs st pend kvs xs" and low: "\<forall>j. Suc j < length (tw_levels w) \<longrightarrow> pend j = []"
  defines "ht \<equiv> length (tw_levels w) - 1"
  defines "gs' \<equiv> gs @ [NodePage ht None (tw_levels w ! ht) (pend ht)]"
  assumes len: "length gs' \<le> 2147483647"
  shows "built E (tw_layout w) (tw_page_size w) gs' ht (length gs) kvs"
    "map fst (handed (tw_layout w) gs') = xs" "nodes gs ht = []"
proof -
  let ?lay = "tw_layout w" and ?ps = "tw_page_size w"
  have t: "tree_inv E front w gs st pend 0" "tw_levels w \<noteq> []" using inv by (auto simp: writer_inv_def)
  have fr: "frame {ht} gs gs'" unfolding gs'_def by (rule frame_append_node)
  have tl: "ht < length (tw_levels w)" using t(2) by (simp add: ht_def)
  show none: "nodes gs ht = []" using t(1) tl by (simp add: tree_inv_def ht_def)
  have nt: "nodes gs' ht = [length gs]" using none by (simp add: gs'_def nodes_snoc)
  have li: "level_inv E ?lay ?ps gs (stored_offsets (length front) st) (tw_levels w ! j) (pend j) j" if "j \<le> ht" for j
    using t(1) that tl by (simp add: tree_inv_def)
  have g: "gs' ! length gs = NodePage ht None (tw_levels w ! ht) (pend ht)" by (simp add: gs'_def)
  have kept: "nodes gs' j = nodes gs j" "content gs' j = content gs j" "separators gs' j = separators gs j"
    "\<And>p. p \<in> set (nodes gs j) \<Longrightarrow> gs' ! p = gs ! p" if "j < ht" for j
    using that frame_nodes [OF fr] frame_content [OF fr, of j] by auto
  have ct: "content gs' ht = pend ht" using nt g by (simp add: content_def)
  have ch: "chained gs' j" if "j \<le> ht" for j
  proof (cases "j = ht")
    case True
    then show ?thesis using li [of ht] g none nt by (simp add: chained_def level_inv_def last_opt_def)
  next
    case False
    then have "level_inv E ?lay ?ps gs' (stored_offsets (length front) st) (tw_levels w ! j) (pend j) j"
      using that by (intro level_inv_frame [OF fr _ _ li]) auto
    then show ?thesis by (simp add: level_inv_def)
  qed
  have wf: "level_wf E ?lay ?ps gs' (j = 0) (node_level (gs' ! p)) (node_entries (gs' ! p))"
    if "j \<le> ht" "p \<in> set (nodes gs' j)" for j p
  proof (cases "j = ht")
    case True
    then show ?thesis using level_wf_frame [OF fr] li [of ht] that(2) nt g by (auto simp: level_inv_def)
  next
    case False
    then show ?thesis using level_wf_frame [OF fr] li [of j] kept [of j] that by (auto simp: level_inv_def)
  qed
  have lk: "content gs' (Suc j) = separators gs' j \<and> nodes gs' j \<noteq> [] \<and> (\<forall>p \<in> set (nodes gs' j). node_entries (gs' ! p) \<noteq> [])"
    if "j < ht" for j
  proof -
    have l: "linked gs pend j" "nodes gs j \<noteq> []" using t(1) that tl by (auto simp: tree_inv_def)
    have "content gs' (Suc j) = content gs (Suc j) @ pend (Suc j)"
    proof (cases "Suc j = ht")
      case True
      then show ?thesis using ct none by (simp add: content_def)
    next
      case False
      then show ?thesis using that kept(2) [of "Suc j"] low by (simp add: ht_def)
    qed
    then show ?thesis using l kept [OF that] by (simp add: linked_def)
  qed
  have "content gs' 0 = content gs 0 @ pend 0"
  proof (cases "ht = 0")
    case True
    then show ?thesis using ct none by (simp add: content_def)
  next
    case False
    then show ?thesis using kept(2) [of 0] low by (simp add: ht_def)
  qed
  then have "map plain (content gs' 0) = kvs" using inv by (simp add: writer_inv_def)
  then show "built E ?lay ?ps gs' ht (length gs) kvs"
    unfolding built_def using t(1) len nt ch wf lk by (simp add: tree_inv_def)
  show "map fst (handed ?lay gs') = xs"
  proof (cases "ht = 0")
    case True
    then have "nodes gs' 0 = nodes gs 0 @ [length gs]" using nt none by simp
    moreover have "map fst (node_refs ?lay gs' (length gs)) = lv_extras (tw_levels w ! 0)"
      using fst_node_refs [of E ?lay ?ps gs' gs' "length gs" "pend 0"] wf [of 0 "length gs"] True g nt by simp
    ultimately show ?thesis using handed_frame [OF fr, of "[length gs]" ?lay] inv by (simp add: writer_inv_def)
  next
    case False
    then have "pend 0 = []" using low by (simp add: ht_def)
    then have "lv_extras (tw_levels w ! 0) = []" using li [of 0] by (simp add: level_inv_def level_wf_def)
    moreover have "handed ?lay gs' = handed ?lay gs" using handed_frame [OF fr, of "[]" ?lay] kept(1) [of 0] False by simp
    ultimately show ?thesis using inv by (simp add: writer_inv_def)
  qed
qed

lemma rotate_keep_level:
  "rotate E cb h False w c = Ok (w', c') \<Longrightarrow> h < length (tw_levels w) \<Longrightarrow>
   \<exists>p offset w2. write_level cb h w c = Ok (p, offset, w2, c') \<and> tw_sink w' = tw_sink w2
     \<and> lv_prev_ordinal (tw_levels w' ! h) = Some p \<and> length (tw_levels w') = length (tw_levels w)"
  using write_level_levels by (fastforce simp: rotate_keep settle_level_def set_level_def)

lemma finish_spec:
  assumes inv: "writer_inv E cb c0 old front w c gs st pend kvs xs"
  shows "\<exists>r. finish E cb w c = Some r \<and> (\<forall>rt w' c'. r = Ok (rt, w', c') \<longrightarrow>
    (\<exists>gs' st' ht. frame UNIV (map Other old) gs' \<and> sink_state (tw_sink w') (tw_layout w) front gs' st' \<and> sink_filter (tw_sink w') = sink_filter (tw_sink w)
      \<and> built E (tw_layout w) (tw_page_size w) gs' ht rt kvs \<and> length (tw_levels w') = Suc ht
      \<and> run_refs cb (handed (tw_layout w) gs') c0 = Ok c' \<and> map fst (handed (tw_layout w) gs') = xs))"
proof -
  obtain r1 where r1: "finish_passes E cb w c = Some r1"
    "\<And>w1 c1. r1 = Ok (w1, c1) \<Longrightarrow>
    (\<exists>gs' st' pend'. writer_inv E cb c0 old front w1 c1 gs' st' pend' kvs xs \<and> (\<forall>j. Suc j < length (tw_levels w1) \<longrightarrow> pend' j = [])
    \<and> tw_layout w1 = tw_layout w \<and> tw_page_size w1 = tw_page_size w \<and> sink_filter (tw_sink w1) = sink_filter (tw_sink w))"
    using finish_passes_spec [OF inv] by blast
  have "\<exists>gs' st' ht. frame UNIV (map Other old) gs' \<and> sink_state (tw_sink w2) (tw_layout w) front gs' st' \<and> sink_filter (tw_sink w2) = sink_filter (tw_sink w)
      \<and> built E (tw_layout w) (tw_page_size w) gs' ht rt kvs \<and> length (tw_levels w2) = Suc ht
      \<and> run_refs cb (handed (tw_layout w) gs') c0 = Ok c2 \<and> map fst (handed (tw_layout w) gs') = xs"
    if f: "finish E cb w c = Some (Ok (rt, w2, c2))" for rt w2 c2
  proof -
    obtain w1 c1 where w1: "r1 = Ok (w1, c1)" using f r1(1) by (cases r1) (auto simp: finish_def)
    obtain gs1 st1 pend1 where i1: "writer_inv E cb c0 old front w1 c1 gs1 st1 pend1 kvs xs"
      "\<forall>j. Suc j < length (tw_levels w1) \<longrightarrow> pend1 j = []" "tw_layout w1 = tw_layout w" "tw_page_size w1 = tw_page_size w"
      "sink_filter (tw_sink w1) = sink_filter (tw_sink w)"
      using r1(2) [OF w1] by blast
    define ht where "ht = length (tw_levels w1) - 1"
    have t: "tree_inv E front w1 gs1 st1 pend1 0" "ht < length (tw_levels w1)"
      "run_refs cb (handed (tw_layout w1) gs1) c0 = Ok c1"
      using i1(1) by (auto simp: writer_inv_def ht_def)
    have li: "level_inv E (tw_layout w1) (tw_page_size w1) gs1 (stored_offsets (length front) st1) (tw_levels w1 ! ht) (pend1 ht) ht"
      and st: "sink_state (tw_sink w1) (tw_layout w1) front gs1 st1" and ok: "settings_ok (tw_layout w1) (tw_page_size w1)"
      using t by (simp_all add: tree_inv_def)
    have none: "nodes gs1 ht = []" using t by (simp add: tree_inv_def ht_def)
    then have prev: "lv_prev_ordinal (tw_levels w1 ! ht) = None" using li by (simp add: level_inv_def last_opt_def)
    have ro: "rotate E cb ht False w1 c1 = Ok (w2, c2)" "lv_prev_ordinal (tw_levels w2 ! ht) = Some rt"
      using f r1(1) w1 prev t(2) by (auto simp: finish_def level_at_def ht_def Let_def split: if_splits)
    obtain p offset w3 where wl: "write_level cb ht w1 c1 = Ok (p, offset, w3, c2)" "tw_sink w2 = tw_sink w3" "p = rt"
      and lv: "length (tw_levels w2) = Suc ht"
      using rotate_keep_level [OF ro(1) t(2)] ro(2) t(2) by (auto simp: ht_def)
    note ws = write_level_spec [OF st li ok wl(1) t(3), unfolded none last_opt_def, simplified]
    obtain st2 where s2: "rt = length gs1" "sink_state (tw_sink w3) (tw_layout w1) front
        (gs1 @ [NodePage ht None (tw_levels w1 ! ht) (pend1 ht)]) st2"
      using ws(1) wl(3) by blast
    then have len: "length (gs1 @ [NodePage ht None (tw_levels w1 ! ht) (pend1 ht)]) \<le> 2147483647" by (simp add: sink_state_def)
    note b = built_top [OF i1(1,2), folded ht_def, OF len]
    have "frame UNIV (map Other old) (gs1 @ [NodePage ht None (tw_levels w1 ! ht) (pend1 ht)])"
      using i1(1) by (intro frame_trans [OF _ frame_mono [OF frame_append_node]]) (simp_all add: writer_inv_def)
    then show ?thesis using s2 b(1,2) ws(3) wl(2) lv i1(3-5) rotate_filter [OF ro(1)] by (intro exI conjI) simp_all
  qed
  moreover have "\<exists>r. finish E cb w c = Some r" using r1(1) by (simp add: finish_def)
  ultimately show ?thesis by blast
qed

subsection \<open>References to values\<close>

text \<open>The page a reference names holds the value at the range it gives.\<close>

definition resolves :: "NodeLayout \<Rightarrow> 'e gpage list \<Rightarrow> PageRef \<Rightarrow> bytes \<Rightarrow> bool" where
  "resolves lay gs r v \<longleftrightarrow> ref_page r < length gs
     \<and> ref_start r + ref_length r \<le> length (gbytes lay (gs ! ref_page r))
     \<and> slice (gbytes lay (gs ! ref_page r)) (ref_start r) (ref_length r) = v \<and> ref_length r = length v"

lemma nth_value_refs:
  "length ovfs = length sizes \<Longrightarrow> i < length sizes \<Longrightarrow> value_refs p offset sizes ovfs ! i =
     (case ovfs ! i of Some r \<Rightarrow> r
      | None \<Rightarrow> \<lparr>ref_page = p, ref_start = (offset + sum_list (map (\<lambda>(k, v). k + v) (take i sizes)) + fst (sizes ! i)) mod 2 ^ 32,
          ref_length = snd (sizes ! i) mod 2 ^ 32\<rparr>)"
proof (induction p offset sizes ovfs arbitrary: i rule: value_refs.induct)
  case (1 p offset k v sizes ovf ovfs)
  then show ?case by (cases i) (auto simp: ac_simps split: option.splits)
qed auto

lemma slice_blob_image: "slice (blob_image v) PAGE_PREFIX_LEN (length v) = v" "length (blob_image v) = PAGE_PREFIX_LEN + length v"
  by (simp_all add: blob_image_def slice_def PAGE_PREFIX_LEN_def)

lemma node_refs_resolve:
  assumes wf: "level_wf E lay psize gs True l ents" and ok: "settings_ok lay psize" and gs: "length gs \<le> 2 ^ 31"
    and p: "p < length gs" "gs ! p = NodePage 0 rt l ents" and i: "i < length ents"
  shows "resolves lay gs (value_refs p (base_of lay True (lv_entry_count l)) (lv_sizes l) (lv_overflow l) ! i)
    (item_value (snd (ents ! i)))"
proof -
  have h: "holds E lay l ents" and e: "item_ok gs True (snd (ents ! i))" using wf i by (auto simp: level_wf_def)
  have n: "lv_entry_count l = length ents" using holds_count [OF h] .
  let ?base = "base_of lay True (lv_entry_count l)"
  note img = level_image [OF wf ok gs]
  have ovf: "lv_overflow l ! i = item_ref (snd (ents ! i))" "length (lv_overflow l) = length (lv_sizes l)" "length (lv_sizes l) = length ents"
    using h i by (simp_all add: holds_def)
  show ?thesis
  proof (cases "snd (ents ! i)")
    case (Stored v)
    note st = holds_stored [OF h i] image_stored [OF img(1), of i rt] n i
    have len: "length (page_image lay True ?base rt l) < 2 ^ 31"
      using image_parts [OF img(1), of rt] img(1) unfolding image_wf_def Let_def by metis
    have le: "?base + entry_start l i + entry_key_len l i + entry_val_len l i \<le> length (page_image lay True ?base rt l)"
      using st by simp
    then have m: "(?base + entry_start l i + entry_key_len l i) mod 2 ^ 32 = ?base + entry_start l i + entry_key_len l i"
      "entry_val_len l i mod 2 ^ 32 = entry_val_len l i" using len by simp_all
    have "value_refs p ?base (lv_sizes l) (lv_overflow l) ! i
        = \<lparr>ref_page = p, ref_start = ?base + entry_start l i + entry_key_len l i, ref_length = entry_val_len l i\<rparr>"
      using nth_value_refs [of "lv_overflow l" "lv_sizes l" i p ?base] ovf i Stored m
      by (simp add: entry_start_def entry_key_len_def entry_val_len_def)
    moreover have "slice (page_image lay True ?base rt l) (?base + entry_start l i + entry_key_len l i) (entry_val_len l i) = v"
      using st Stored by (auto simp: read_slice_Ok_iff)
    ultimately show ?thesis using p le Stored holds_stored(4) [OF h i] by (simp add: resolves_def)
  next
    case (Spilled q v)
    then show ?thesis using nth_value_refs [of "lv_overflow l" "lv_sizes l" i p ?base] ovf i e slice_blob_image [of v]
      by (simp add: resolves_def)
  next
    case (Child q)
    then show ?thesis using e by simp
  qed
qed

lemma list_all2_concat:
  "(\<And>p. p \<in> set ps \<Longrightarrow> list_all2 R (f p) (g p)) \<Longrightarrow> list_all2 R (concat (map f ps)) (concat (map g ps))"
  by (induction ps) (auto intro: list_all2_appendI)

text \<open>The references handed on name the values of the entries, in order.\<close>

lemma handed_resolve:
  assumes "built E lay psize gs ht rt kvs"
  shows "list_all2 (\<lambda>x kv. resolves lay gs (snd x) (snd kv)) (handed lay gs) kvs"
proof -
  have b: "settings_ok lay psize" "length gs \<le> 2 ^ 31" "map plain (content gs 0) = kvs"
    and wf: "\<And>p. p \<in> set (nodes gs 0) \<Longrightarrow> level_wf E lay psize gs True (node_level (gs ! p)) (node_entries (gs ! p))"
    using assms by (auto simp: built_def)
  have "list_all2 (\<lambda>x e. resolves lay gs (snd x) (item_value (snd e))) (node_refs lay gs p) (node_entries (gs ! p))"
    if p: "p \<in> set (nodes gs 0)" for p
  proof -
    obtain rt' l ents where g: "gs ! p = NodePage 0 rt' l ents" "p < length gs"
      using p by (cases "gs ! p") (auto simp: in_nodes_iff)
    have w: "level_wf E lay psize gs True l ents" using wf [OF p] g by simp
    then have "length (lv_extras l) = length ents" "length (lv_sizes l) = length ents" "length (lv_overflow l) = length ents"
      by (auto simp: level_wf_def holds_def)
    then show ?thesis
      using node_refs_resolve [OF w b(1,2) g(2,1)] g(1) by (auto simp: node_refs_def list_all2_conv_all_nth length_value_refs)
  qed
  then have "list_all2 (\<lambda>x e. resolves lay gs (snd x) (item_value (snd e))) (handed lay gs) (content gs 0)"
    unfolding handed_def content_def by (rule list_all2_concat)
  then show ?thesis unfolding b(3) [symmetric] by (simp add: list.rel_map plain_def)
qed

subsection \<open>A whole build\<close>

definition push_all ::
  "KeyEncoding \<Rightarrow> ('e \<Rightarrow> nat) \<Rightarrow> ('e \<Rightarrow> PageRef \<Rightarrow> 'c \<Rightarrow> 'c result) \<Rightarrow> (bytes \<times> bytes \<times> 'e) list \<Rightarrow>
   'e TreeWriter \<times> 'c \<Rightarrow> ('e TreeWriter \<times> 'c) result" where
  "push_all E eb cb rows s = fold (\<lambda>(key, val, x) r. and_then r (\<lambda>(w, c). push E eb cb key val x w c)) rows (Ok s)"

lemma push_all_simps:
  "push_all E eb cb [] s = Ok s"
  "push_all E eb cb (rows @ [(key, val, x)]) s = and_then (push_all E eb cb rows s) (\<lambda>(w, c). push E eb cb key val x w c)"
  by (simp_all add: push_all_def)

lemma push_all_spec:
  assumes "writer_inv E cb c0 old front w c gs st pend kvs xs" "push_all E eb cb rows (w, c) = Ok (w', c')"
  shows "\<exists>gs' st' pend'. writer_inv E cb c0 old front w' c' gs' st' pend' (kvs @ map (\<lambda>(k, v, x). (k, v)) rows)
      (xs @ map (\<lambda>(k, v, x). x) rows) \<and> tw_layout w' = tw_layout w \<and> tw_page_size w' = tw_page_size w"
  using assms(2)
proof (induction rows arbitrary: w' c' rule: rev_induct)
  case Nil
  then show ?case using assms(1) by (auto simp: push_all_simps)
next
  case (snoc row rows)
  obtain key val x where row: "row = (key, val, x)" by (cases row)
  obtain w1 c1 where p: "push_all E eb cb rows (w, c) = Ok (w1, c1)" "push E eb cb key val x w1 c1 = Ok (w', c')"
    using snoc.prems by (auto simp: row push_all_simps)
  from snoc.IH [OF p(1)] obtain gs1 st1 pend1 where i: "writer_inv E cb c0 old front w1 c1 gs1 st1 pend1
      (kvs @ map (\<lambda>(k, v, x). (k, v)) rows) (xs @ map (\<lambda>(k, v, x). x) rows)" "tw_layout w1 = tw_layout w" "tw_page_size w1 = tw_page_size w"
    by blast
  show ?case by (rule push_spec [OF i(1) p(2)]) (auto simp: row i(2,3))
qed

text \<open>A new writer over a sink that already holds other pages.\<close>

lemma writer_new_spec:
  assumes new: "writer_new s psize eytz E allow = Ok w" and ps: "psize < 2 ^ 31"
    and st: "sink_holds s front st" "list_all2 (\<lambda>b page. stored_page (sink_filter s) b = Ok page) bs st" "length st \<le> 2147483647"
  shows "writer_inv E cb c0 bs front (w :: 'e TreeWriter) c0 (map Other bs) st (\<lambda>_. []) [] []"
    "tw_layout w = choose_layout psize eytz E allow" "tw_page_size w = psize"
proof -
  have w: "w = \<lparr>tw_sink = s, tw_page_size = psize, tw_layout = choose_layout psize eytz E allow,
      tw_levels = [level_new], tw_entries = 0, tw_pending_extra = 0, tw_extra_budget = usize_max\<rparr>" "MIN_PAGE_SIZE \<le> psize"
    using new by (auto simp: writer_new_def split: if_splits)
  then show "tw_layout w = choose_layout psize eytz E allow" "tw_page_size w = psize" by simp_all
  have ok: "settings_ok (choose_layout psize eytz E allow) psize"
    using w(2) ps by (simp add: settings_ok_def choose_layout_def Let_def)
  have none: "nodes (map Other bs :: 'e gpage list) j = []" for j by (simp add: nodes_def filter_empty_conv)
  have "sink_state s (choose_layout psize eytz E allow) front (map Other bs :: 'e gpage list) st"
    using st list_all2_lengthD [OF st(2)] by (auto simp: sink_state_def list.rel_map)
  then show "writer_inv E cb c0 bs front w c0 (map Other bs) st (\<lambda>_. []) [] []"
    using ok none level_inv_new [OF none ok] frame_refl [of UNIV "map Other bs"]
    by (simp add: w(1) writer_inv_def tree_inv_def linked_def content_def separators_def handed_def) (simp add: level_new_def)
qed

lemma run_refs_record: "run_refs (\<lambda>x r c. Ok (c @ [(x, r)])) xs c = Ok (c @ xs)"
  by (induction xs arbitrary: c) auto

lemma concat_split_slice:
  assumes "p < length st" "a + n \<le> length (st ! p)"
  shows "slice (front @ concat st) (length front + length (concat (take p st)) + a) n = slice (st ! p) a n"
  using assms by (subst concat_split [OF assms(1)]) (simp add: slice_def)

lemma stored_unfiltered:
  assumes "sink_state s lay front gs st" "sink_filter s = None"
  shows "st = map (gbytes lay) gs"
  using assms by (auto simp: sink_state_def stored_page_def list_all2_conv_all_nth intro: nth_equalityI)

lemma push_all_filter:
  "push_all E eb cb rows (w, c) = Ok (w', c') \<Longrightarrow> sink_filter (tw_sink w') = sink_filter (tw_sink w)"
proof (induction rows arbitrary: w' c' rule: rev_induct)
  case (snoc row rows)
  then show ?case by (cases row) (auto simp: push_all_simps dest!: push_filter)
qed (simp add: push_all_simps)

text \<open>A new writer after pushing rows.\<close>

lemma pushed_inv:
  fixes s :: PageSink and rows :: "(bytes \<times> bytes \<times> 'e) list"
  assumes new: "writer_new s psize eytz E allow = Ok (w0 :: 'e TreeWriter)" "psize < 2 ^ 31"
    and st: "sink_holds s front st" "list_all2 (\<lambda>b page. stored_page (sink_filter s) b = Ok page) bs st" "length st \<le> 2147483647"
    and pushed: "push_all E eb cb rows (limit_pending_extra w0 extra_cap, c0) = Ok (w1, c1)"
  shows "\<exists>gs' st' pend'. writer_inv E cb c0 bs front w1 c1 gs' st' pend'
      (map (\<lambda>(k, v, x). (k, v)) rows) (map (\<lambda>(k, v, x). x) rows)
    \<and> tw_layout w1 = choose_layout psize eytz E allow \<and> tw_page_size w1 = psize"
proof -
  note w0 = writer_new_spec(1) [OF new st, of cb c0] writer_new_spec(2,3) [OF new st]
  have "writer_inv E cb c0 bs front (limit_pending_extra w0 extra_cap) c0 (map Other bs) st (\<lambda>_. []) [] []"
    using w0(1) by (subst writer_inv_cong [of _ w0]) (simp_all add: limit_pending_extra_def)
  from push_all_spec [OF this pushed] show ?thesis using w0(2,3) by (auto simp: limit_pending_extra_def)
qed

text \<open>The result of pushing rows into a new writer and finishing it.\<close>

lemma build_spec:
  fixes s :: PageSink and rows :: "(bytes \<times> bytes \<times> 'e) list"
  assumes new: "writer_new s psize eytz E allow = Ok (w0 :: 'e TreeWriter)" "psize < 2 ^ 31"
    and st: "sink_holds s front st" "list_all2 (\<lambda>b page. stored_page (sink_filter s) b = Ok page) bs st" "length st \<le> 2147483647"
    and pushed: "push_all E eb cb rows (limit_pending_extra w0 budget, c0) = Ok (w1, c1)"
  defines "lay \<equiv> choose_layout psize eytz E allow"
  shows "\<exists>r. finish E cb w1 c1 = Some r \<and> (\<forall>rt w2 c2. r = Ok (rt, w2, c2) \<longrightarrow>
    (\<exists>gs st' ht. frame UNIV (map Other bs) gs \<and> sink_state (tw_sink w2) lay front gs st' \<and> sink_filter (tw_sink w2) = sink_filter s
      \<and> built E lay psize gs ht rt (map (\<lambda>(k, v, x). (k, v)) rows) \<and> length (tw_levels w2) = Suc ht
      \<and> run_refs cb (handed lay gs) c0 = Ok c2 \<and> map fst (handed lay gs) = map (\<lambda>(k, v, x). x) rows))"
proof -
  obtain gs' st' pend' where i: "writer_inv E cb c0 bs front w1 c1 gs' st' pend'
      (map (\<lambda>(k, v, x). (k, v)) rows) (map (\<lambda>(k, v, x). x) rows)" "tw_layout w1 = lay" "tw_page_size w1 = psize"
    using pushed_inv [OF new st pushed] unfolding lay_def by blast
  have "sink_filter (tw_sink w1) = sink_filter s"
    using push_all_filter [OF pushed] new(1) by (auto simp: limit_pending_extra_def writer_new_def split: if_splits)
  then show ?thesis using finish_spec [OF i(1)] i(2,3) by auto
qed

lemma slice_of_page:
  assumes "sink_state s lay front gs st" "sink_filter s = None" "resolves lay gs r v"
  shows "slice (sink_out s) (stored_offsets (length front) st ! ref_page r + ref_start r) (ref_length r) = v"
proof -
  have "st = map (gbytes lay) gs" "sink_out s = front @ concat st"
    using stored_unfiltered [OF assms(1,2)] assms(1) by (auto simp: sink_state_def sink_holds_def)
  moreover have "ref_page r < length gs" "ref_start r + ref_length r \<le> length (gbytes lay (gs ! ref_page r))"
    "slice (gbytes lay (gs ! ref_page r)) (ref_start r) (ref_length r) = v" using assms(3) by (auto simp: resolves_def)
  ultimately show ?thesis using concat_split_slice [of "ref_page r" st "ref_start r" "ref_length r" front]
    by (simp add: stored_offsets_nth)
qed

subsubsection \<open>A small build\<close>

definition sample_writer :: "nat TreeWriter" where
  "sample_writer = \<lparr>tw_sink = sink_new None (directory_new 8), tw_page_size = 128,
     tw_layout = \<lparr>eytzinger = False, compact_meta = True, omitted_keys = False\<rparr>,
     tw_levels = [level_new], tw_entries = 0, tw_pending_extra = 0, tw_extra_budget = usize_max\<rparr>"

lemmas writer_eval = push_all_def push_def make_room_def inline_needs_def leaf_meta_area_def digest_area_def level_at_def
  note_first_key_def set_level_def stored_key_len_def add_entry_def limit_pending_extra_def lv_entry_count_def
  leaf_meta_size_def digest_area_size_def digest_slots_def checked_add_def checked_mul_def level_new_def ok_or_def Let_def
  format_consts

lemma sample_new: "writer_new (sink_new None (directory_new 8)) 128 False AsciiEncoding False = Ok sample_writer"
  by (simp add: sample_writer_def writer_new_def choose_layout_def MIN_PAGE_SIZE_def format_consts Let_def)

lemma sample_holds: "sink_holds (sink_new None (directory_new 8)) [] []"
  by (simp add: sink_holds_def sink_new_def spool_new stored_offsets_def)

lemma sample_push:
  "\<exists>w1. push_all AsciiEncoding (\<lambda>_. 1) (\<lambda>x r c. Ok (c @ [(x, r)])) [([1], [7], 0)] (limit_pending_extra sample_writer 10, []) = Ok (w1, [])
    \<and> (\<exists>w2. finish AsciiEncoding (\<lambda>x r c. Ok (c @ [(x, r)])) w1 [] = Some (Ok (0, w2, [(0, \<lparr>ref_page = 0, ref_start = 43, ref_length = 1\<rparr>)])))"
proof -
  obtain d where d: "digest AsciiEncoding [1] = Ok d" by (simp add: AsciiEncoding_def)
  show ?thesis
    by (simp add: sample_writer_def writer_eval usize_max_def d finish_def finish_passes.simps finish_pass.simps rotate_keep
        write_level_def sink_begin_page_def directory_push_def sink_new_def directory_new_def directory_spill_def flush_page_def
        sink_write_page_def sink_write_raw_def patch_sibling_def settle_level_def)
qed

subsection \<open>Properties\<close>

text \<open>C31: However the entries are spread over leaves and overflow pages, every reference handed to
  the callback names the bytes of the value it was pushed with, and the references come in the order
  of the entries: the page of a reference, found through the directory, holds the value at the
  reference's range.\<close>

theorem value_references_resolve:
  fixes rows :: "(bytes \<times> bytes \<times> 'e) list"
  assumes sink: "sink_holds s front st" "sink_filter s = None" "length st \<le> 2147483647" "psize < 2 ^ 31"
    and new: "writer_new s psize eytz E allow = Ok w0"
    and pushed: "push_all E eb (\<lambda>x r c. Ok (c @ [(x, r)])) rows (limit_pending_extra w0 budget, []) = Ok (w1, c1)"
    and fin: "finish E (\<lambda>x r c. Ok (c @ [(x, r)])) w1 c1 = Some (Ok (rt, w2, refs))"
  shows "map fst refs = map (\<lambda>(k, v, x). x) rows
    \<and> (\<exists>offs. directory_write_into (sink_directory (tw_sink w2)) = Ok (directory_offsets offs)
        \<and> (\<forall>i < length rows. let r = snd (refs ! i) in
             slice (sink_out (tw_sink w2)) (offs ! ref_page r + ref_start r) (ref_length r) = fst (snd (rows ! i))))"
proof -
  have "list_all2 (\<lambda>b page. stored_page (sink_filter s) b = Ok page) st st"
    using sink(2) by (simp add: stored_page_def list.rel_refl)
  from build_spec [OF new sink(4,1) this sink(3) pushed] fin
  obtain gs st' ht where b: "sink_state (tw_sink w2) (choose_layout psize eytz E allow) front gs st'"
    "sink_filter (tw_sink w2) = None" "built E (choose_layout psize eytz E allow) psize gs ht rt (map (\<lambda>(k, v, x). (k, v)) rows)"
    "refs = handed (choose_layout psize eytz E allow) gs" "map fst refs = map (\<lambda>(k, v, x). x) rows"
    using sink(2) by (auto simp: run_refs_record)
  have "slice (sink_out (tw_sink w2)) (stored_offsets (length front) st' ! ref_page (snd (refs ! i)) + ref_start (snd (refs ! i)))
      (ref_length (snd (refs ! i))) = fst (snd (rows ! i))" if "i < length rows" for i
    using slice_of_page [OF b(1,2)] handed_resolve [OF b(3)] that b(4)
    by (auto simp: list_all2_conv_all_nth split: prod.splits)
  moreover have "directory_write_into (sink_directory (tw_sink w2)) = Ok (directory_offsets (stored_offsets (length front) st'))"
    using b(1) by (intro spool_write_into) (simp add: sink_state_def sink_holds_def)
  ultimately show ?thesis using b(5) by (auto simp: Let_def)
qed

theorem value_references_resolve_witness:
  "\<exists>w1 w2 refs offs. push_all AsciiEncoding (\<lambda>_. 1) (\<lambda>x r c. Ok (c @ [(x, r)])) [([1], [7], 0)]
      (limit_pending_extra sample_writer 10, []) = Ok (w1, [])
    \<and> finish AsciiEncoding (\<lambda>x r c. Ok (c @ [(x, r)])) w1 [] = Some (Ok (0, w2, refs)) \<and> map fst refs = [0]
    \<and> directory_write_into (sink_directory (tw_sink w2)) = Ok (directory_offsets offs)
    \<and> slice (sink_out (tw_sink w2)) (offs ! 0 + 43) 1 = [7]"
proof -
  obtain w1 w2 where w: "push_all AsciiEncoding (\<lambda>_. 1) (\<lambda>x r c. Ok (c @ [(x, r)])) [([1], [7], 0)]
      (limit_pending_extra sample_writer 10, []) = Ok (w1, [])"
    "finish AsciiEncoding (\<lambda>x r c. Ok (c @ [(x, r)])) w1 [] = Some (Ok (0, w2, [(0, \<lparr>ref_page = 0, ref_start = 43, ref_length = 1\<rparr>)]))"
    using sample_push by blast
  have "sink_filter (sink_new None (directory_new 8)) = None" by (simp add: sink_new_def)
  from value_references_resolve [OF sample_holds this _ _ sample_new w] w show ?thesis by auto
qed

text \<open>C32: Finishing a tree ends, whatever was pushed and through whatever filter the pages are
  written.  The loop that flushes the levels makes at most two passes: when the first one succeeds, a second one
  finds nothing to write and changes nothing, and the loop is left with the writer as the first pass made it;
  when the first one fails, its error is the result.\<close>

theorem finish_two_passes:
  assumes new: "writer_new s psize eytz E allow = Ok w0" "psize < 2 ^ 31"
    and st: "sink_holds s front st" "list_all2 (\<lambda>b page. stored_page (sink_filter s) b = Ok page) bs st" "length st \<le> 2147483647"
    and pushed: "push_all E eb cb rows (limit_pending_extra w0 extra_cap, c0) = Ok (w1, c1)"
  shows "(\<exists>r. finish E cb w1 c1 = Some r) \<and> (case finish_pass E cb 0 False w1 c1 of
      Inl e \<Rightarrow> finish E cb w1 c1 = Some (Err e)
    | Inr (flushed, w, c) \<Rightarrow> finish_pass E cb 0 False w c = Ok (False, w, c) \<and> finish_passes E cb w1 c1 = Some (Ok (w, c)))"
proof -
  obtain gs st' pend where i: "writer_inv E cb c0 bs front w1 c1 gs st' pend (map (\<lambda>(k, v, x). (k, v)) rows) (map (\<lambda>(k, v, x). x) rows)"
    using pushed_inv [OF new st pushed] by blast
  have "\<exists>r. finish E cb w1 c1 = Some r" using finish_spec [OF i] by blast
  moreover have "finish E cb w1 c1 = Some (Err e)" if "finish_pass E cb 0 False w1 c1 = Inl e" for e
    using that by (simp add: finish_def finish_passes.simps)
  ultimately show ?thesis using finish_pass_settles [OF i] by (auto split: sum.split)
qed

theorem finish_two_passes_witness:
  "\<exists>w1. push_all AsciiEncoding (\<lambda>_. 1) (\<lambda>x r c. Ok (c @ [(x, r)])) [([1], [7], 0)]
      (limit_pending_extra sample_writer 10, []) = Ok (w1, [])
    \<and> (\<exists>r. finish AsciiEncoding (\<lambda>x r c. Ok (c @ [(x, r)])) w1 [] = Some r)"
proof -
  obtain w1 where w: "push_all AsciiEncoding (\<lambda>_. 1) (\<lambda>x r c. Ok (c @ [(x, r)])) [([1], [7], 0)]
      (limit_pending_extra sample_writer 10, []) = Ok (w1, [])" using sample_push by blast
  from finish_two_passes [OF sample_new _ sample_holds _ _ w, of "[]"] w show ?thesis by auto
qed

end
