(* ===== verification/Pages.thy ===== *)
theory Pages
  imports Node
begin

text \<open>
  Page buffers and guards (\<^verbatim>\<open>crates/drydb/src/page.rs\<close>), and operations that change a state and
  may fail.

  A \<open>PagePin\<close> is a counted reference to an immutable buffer.  Here it is the buffer's identity
  with its ordinal and bytes; the marker \<open>validated_for\<close>, the one part of a buffer that changes,
  belongs to the state of the store.  \<open>StoreOps\<close> is what trees and queries call of a page
  store; the store of \<^verbatim>\<open>store.rs\<close> provides it in Store.
\<close>

subsection \<open>Stateful operations\<close>

text \<open>An operation takes a state to a result and a new state, or does not return (\<open>None\<close>), as when
  a source is interrupted forever.\<close>

type_synonym ('s, 'a) op = "'s \<Rightarrow> ('a result \<times> 's) option"

definition op_return :: "'a \<Rightarrow> ('s, 'a) op" where "op_return v s = Some (Ok v, s)"

definition op_fail :: "Error \<Rightarrow> ('s, 'a) op" where "op_fail e s = Some (Err e, s)"

definition op_lift :: "'a result \<Rightarrow> ('s, 'a) op" where "op_lift r s = Some (r, s)"

definition op_bind :: "('s, 'a) op \<Rightarrow> ('a \<Rightarrow> ('s, 'b) op) \<Rightarrow> ('s, 'b) op" where
  "op_bind m f s =
     (case m s of
        None \<Rightarrow> None
      | Some (Inl e, s') \<Rightarrow> Some (Inl e, s')
      | Some (Inr v, s') \<Rightarrow> f v s')"

definition op_map_err :: "(Error \<Rightarrow> Error) \<Rightarrow> ('s, 'a) op \<Rightarrow> ('s, 'a) op" where
  "op_map_err g m s = map_option (\<lambda>(r, s'). (map_err g r, s')) (m s)"

lemma op_simps [simp]:
  "op_bind (op_return v) f = f v" "op_bind (op_fail e) f = op_fail e" "op_bind (op_lift (Inr v)) f = f v"
  "op_bind (op_lift (Inl e)) f = op_fail e" "op_lift (Inr v) = op_return v" "op_lift (Inl e) = op_fail e"
  by (simp_all add: fun_eq_iff op_bind_def op_return_def op_fail_def op_lift_def)

lemma op_bind_cong [fundef_cong]:
  "m s = m' s' \<Longrightarrow> (\<And>v t. m' s' = Some (Inr v, t) \<Longrightarrow> f v t = g v t) \<Longrightarrow> op_bind m f s = op_bind m' g s'"
  by (auto simp: op_bind_def split: option.split prod.split sum.split)

text \<open>\<open>yields I K Q m\<close>: from a state with the invariant \<open>I\<close>, \<open>m\<close> returns in one, with a value with
  \<open>Q\<close> or an error with \<open>K\<close>.\<close>

definition yields :: "('s \<Rightarrow> bool) \<Rightarrow> (Error \<Rightarrow> bool) \<Rightarrow> ('a \<Rightarrow> bool) \<Rightarrow> ('s, 'a) op \<Rightarrow> bool" where
  "yields I K Q m \<longleftrightarrow> (\<forall>s. I s \<longrightarrow> (\<exists>r s'. m s = Some (r, s') \<and> I s' \<and> (case r of Inl e \<Rightarrow> K e | Inr v \<Rightarrow> Q v)))"

lemma yieldsD:
  assumes "yields I K Q m" "I s"
  obtains r s' where "m s = Some (r, s')" "I s'" "case r of Inl e \<Rightarrow> K e | Inr v \<Rightarrow> Q v"
  using assms by (auto simp: yields_def)

lemma yields_return: "Q v \<Longrightarrow> yields I K Q (op_return v)"
  by (simp add: yields_def op_return_def)

lemma yields_fail: "K e \<Longrightarrow> yields I K Q (op_fail e)"
  by (simp add: yields_def op_fail_def)

lemma yields_lift: "(\<And>v. r = Inr v \<Longrightarrow> Q v) \<Longrightarrow> (\<And>e. r = Inl e \<Longrightarrow> K e) \<Longrightarrow> yields I K Q (op_lift r)"
  by (simp add: yields_def op_lift_def split: sum.split)

lemma yields_bind:
  assumes "yields I K Q m" "\<And>v. Q v \<Longrightarrow> yields I K R (f v)"
  shows "yields I K R (op_bind m f)"
  unfolding yields_def
proof (intro allI impI)
  fix s
  assume "I s"
  with assms(1) obtain q t where q: "m s = Some (q, t)" "I t" "case q of Inl e \<Rightarrow> K e | Inr v \<Rightarrow> Q v"
    by (rule yieldsD)
  show "\<exists>r s'. op_bind m f s = Some (r, s') \<and> I s' \<and> (case r of Inl e \<Rightarrow> K e | Inr v \<Rightarrow> R v)"
  proof (cases q)
    case (Inl e)
    then show ?thesis using q by (simp add: op_bind_def)
  next
    case (Inr v)
    then show ?thesis using q assms(2) [of v] by (simp add: op_bind_def yields_def)
  qed
qed

lemma yields_weaken: "yields I K Q m \<Longrightarrow> (\<And>v. Q v \<Longrightarrow> R v) \<Longrightarrow> yields I K R m"
  unfolding yields_def by (metis (no_types, lifting) sum.case_eq_if)

lemma yields_map_err:
  assumes "yields I K Q m" "\<And>e. K e \<Longrightarrow> L (g e)" shows "yields I L Q (op_map_err g m)"
  unfolding yields_def
proof (intro allI impI)
  fix s
  assume "I s"
  with assms(1) obtain q t where q: "m s = Some (q, t)" "I t" "case q of Inl e \<Rightarrow> K e | Inr v \<Rightarrow> Q v"
    by (rule yieldsD)
  then show "\<exists>r s'. op_map_err g m s = Some (r, s') \<and> I s' \<and> (case r of Inl e \<Rightarrow> L e | Inr v \<Rightarrow> Q v)"
    using assms(2) by (cases q) (auto simp: op_map_err_def)
qed

subsection \<open>Pre- and postconditions\<close>

text \<open>\<open>triple P m Q F\<close>: from a state with \<open>P\<close>, \<open>m\<close> returns, with a value and a state in \<open>Q\<close>, or an
  error and a state in \<open>F\<close>.\<close>

definition triple :: "('s \<Rightarrow> bool) \<Rightarrow> ('s, 'a) op \<Rightarrow> ('a \<Rightarrow> 's \<Rightarrow> bool) \<Rightarrow> (Error \<Rightarrow> 's \<Rightarrow> bool) \<Rightarrow> bool" where
  "triple P m Q F \<longleftrightarrow> (\<forall>s. P s \<longrightarrow> (\<exists>r s'. m s = Some (r, s') \<and> (case r of Inl e \<Rightarrow> F e s' | Inr v \<Rightarrow> Q v s')))"

lemma tripleE:
  assumes "triple P m Q F" "P s"
  obtains (ok) v s' where "m s = Some (Ok v, s')" "Q v s'" | (err) e s' where "m s = Some (Err e, s')" "F e s'"
proof -
  obtain r s' where r: "m s = Some (r, s')" "case r of Inl e \<Rightarrow> F e s' | Inr v \<Rightarrow> Q v s'" using assms by (auto simp: triple_def)
  then show ?thesis using ok err by (cases r) auto
qed

lemma tripleI:
  "(\<And>s. P s \<Longrightarrow> \<exists>r s'. m s = Some (r, s') \<and> (case r of Inl e \<Rightarrow> F e s' | Inr v \<Rightarrow> Q v s')) \<Longrightarrow> triple P m Q F"
  by (simp add: triple_def)

lemma triple_bind:
  assumes "triple P m Q F" "\<And>v. triple (Q v) (f v) R F"
  shows "triple P (op_bind m f) R F"
proof (rule tripleI)
  fix s
  assume "P s"
  with assms(1) show "\<exists>r s'. op_bind m f s = Some (r, s') \<and> (case r of Inl e \<Rightarrow> F e s' | Inr v \<Rightarrow> R v s')"
  proof (cases rule: tripleE)
    case (ok v s')
    then show ?thesis using assms(2) [of v] by (simp add: op_bind_def triple_def)
  qed (simp add: op_bind_def)
qed

lemma triple_return: "(\<And>s. P s \<Longrightarrow> Q v s) \<Longrightarrow> triple P (op_return v) Q F"
  by (simp add: triple_def op_return_def)

lemma triple_fail: "(\<And>s. P s \<Longrightarrow> F e s) \<Longrightarrow> triple P (op_fail e) Q F"
  by (simp add: triple_def op_fail_def)

lemma triple_lift: "(\<And>s v. P s \<Longrightarrow> r = Inr v \<Longrightarrow> Q v s) \<Longrightarrow> (\<And>s e. P s \<Longrightarrow> r = Inl e \<Longrightarrow> F e s) \<Longrightarrow> triple P (op_lift r) Q F"
  by (cases r) (auto simp: triple_def op_return_def op_fail_def)

lemma triple_weaken:
  assumes "triple P m Q F" "\<And>s. P' s \<Longrightarrow> P s" "\<And>v s. Q v s \<Longrightarrow> Q' v s" "\<And>e s. F e s \<Longrightarrow> F' e s"
  shows "triple P' m Q' F'"
proof (rule tripleI)
  fix s
  assume "P' s"
  then have "P s" by (rule assms(2))
  with assms(1) show "\<exists>r s'. m s = Some (r, s') \<and> (case r of Inl e \<Rightarrow> F' e s' | Inr v \<Rightarrow> Q' v s')"
    by (cases rule: tripleE) (simp_all add: assms(3,4))
qed

lemma triple_assume: "(\<And>s. P s \<Longrightarrow> \<phi>) \<Longrightarrow> (\<phi> \<Longrightarrow> triple P m Q F) \<Longrightarrow> triple P m Q F"
  by (auto simp: triple_def)

subsection \<open>Pins\<close>

record PagePin =
  pin_buffer :: nat
  pin_ordinal :: page_ordinal
  pin_bytes :: bytes

definition pin_len :: "PagePin \<Rightarrow> nat" where "pin_len pin = length (pin_bytes pin)"

definition pin_view :: "PagePin \<Rightarrow> PageView result" where
  "pin_view pin = map_err (at_page (pin_ordinal pin)) (page_parse (pin_bytes pin))"

record ValueGuard =
  guard_pin :: PagePin
  guard_start :: nat
  guard_end :: nat

definition into_guard :: "PagePin \<Rightarrow> nat \<Rightarrow> nat \<Rightarrow> ValueGuard result" where
  "into_guard pin start stop =
     (if start > stop \<or> stop > length (pin_bytes pin) then Err (at_page (pin_ordinal pin) corrupt)
      else Ok \<lparr>guard_pin = pin, guard_start = start, guard_end = stop\<rparr>)"

definition guard_bytes :: "ValueGuard \<Rightarrow> bytes" where
  "guard_bytes g = slice (pin_bytes (guard_pin g)) (guard_start g) (guard_end g - guard_start g)"

definition guard_len :: "ValueGuard \<Rightarrow> nat" where "guard_len g = guard_end g - guard_start g"

definition blob_from_pin :: "PagePin \<Rightarrow> (PagePin \<times> nat \<times> nat) result" where
  "blob_from_pin pin =
     and_then (pin_view pin) (\<lambda>v.
     if pv_kind v \<noteq> Leaf \<or> pv_entry_count v \<noteq> 0 then Err (at_page (pin_ordinal pin) corrupt)
     else Ok (pin, PAGE_PREFIX_LEN, pin_len pin))"

lemma guard_bytes_len: "into_guard pin a b = Ok g \<Longrightarrow> length (guard_bytes g) = guard_len g"
  by (auto simp: into_guard_def guard_bytes_def guard_len_def slice_def split: if_splits)

subsection \<open>What a page store offers\<close>

record 's StoreOps =
  st_page :: "page_ordinal \<Rightarrow> ('s, PagePin) op"
  st_page_cached :: "page_ordinal \<Rightarrow> 's \<Rightarrow> PagePin option \<times> 's"
  st_retained_root :: "nat \<Rightarrow> 's \<Rightarrow> PagePin option \<times> 's"
  st_retain_root :: "nat \<Rightarrow> PagePin \<Rightarrow> 's \<Rightarrow> 's"
  st_has_headroom_for :: "nat \<Rightarrow> 's \<Rightarrow> bool"
  st_digests_checked_by :: "PagePin \<Rightarrow> nat \<Rightarrow> 's \<Rightarrow> bool"
  st_mark_digests_checked :: "PagePin \<Rightarrow> nat \<Rightarrow> 's \<Rightarrow> 's"
  st_page_count :: nat
  st_max_tree_depth :: nat

text \<open>The contract trees rely on: a page that is returned, fresh, cached or retained, is the page
  of the file the ordinal names (\<open>disk\<close>), whatever is evicted or refused in between.  \<open>SE\<close>
  describes the errors the store may report for a page that exists, and \<open>roots\<close> the root of each tree.\<close>

locale page_store =
  fixes S :: "'s StoreOps" and I :: "'s \<Rightarrow> bool" and disk :: "page_ordinal \<Rightarrow> bytes option"
    and SE :: "Error \<Rightarrow> bool" and roots :: "nat \<Rightarrow> page_ordinal option"
  assumes page_sound: "disk p = Some bs \<Longrightarrow> yields I SE (\<lambda>pin. pin_ordinal pin = p \<and> pin_bytes pin = bs) (st_page S p)"
    and cached_sound: "I s \<Longrightarrow> st_page_cached S p s = (r, s') \<Longrightarrow>
      I s' \<and> (\<forall>pin. r = Some pin \<longrightarrow> pin_ordinal pin = p \<and> disk p = Some (pin_bytes pin))"
    and retained_sound: "I s \<Longrightarrow> st_retained_root S t s = (r, s') \<Longrightarrow>
      I s' \<and> (\<forall>pin. r = Some pin \<longrightarrow> roots t = Some (pin_ordinal pin) \<and> disk (pin_ordinal pin) = Some (pin_bytes pin))"
    and retain_sound: "I s \<Longrightarrow> roots t = Some (pin_ordinal pin) \<Longrightarrow> disk (pin_ordinal pin) = Some (pin_bytes pin) \<Longrightarrow>
      I (st_retain_root S t pin s)"
    and mark_sound: "I s \<Longrightarrow> I (st_mark_digests_checked S pin t s)"
begin

definition genuine :: "page_ordinal \<Rightarrow> PagePin \<Rightarrow> bool" where
  "genuine p pin \<longleftrightarrow> pin_ordinal pin = p \<and> disk p = Some (pin_bytes pin)"

lemma page_genuine: "disk p \<noteq> None \<Longrightarrow> yields I SE (genuine p) (st_page S p)"
proof -
  assume "disk p \<noteq> None"
  then obtain bs where bs: "disk p = Some bs" by blast
  show ?thesis by (rule yields_weaken [OF page_sound [OF bs]]) (simp add: genuine_def bs)
qed

end

end
