(* ===== verification/Btree_Page.thy ===== *)
theory Btree_Page
  imports Node Encoding
begin

text \<open>
  Search inside one page (\<^verbatim>\<open>crates/drydb/src/btree.rs\<close>): the digest check a tree runs on a page
  before it trusts it, the choice of a child on an internal page and the three searches on
  a leaf.  These methods of \<open>Tree\<close> read only its \<open>encoding\<close>, which is their first argument
  here.
\<close>

datatype SearchOp = OpEqual | OpLowerBound | OpUpperBound

subsection \<open>Keys of a page\<close>

definition entry_key :: "PageView \<Rightarrow> nat \<Rightarrow> bytes result" where
  "entry_key v i =
     (case pv_kind v of
        Leaf \<Rightarrow> and_then (leaf_entry v i) (leaf_key v)
      | Internal \<Rightarrow> and_then (internal_entry v i) (internal_key v))"

definition rebuilt_key_capacity :: "KeyEncoding \<Rightarrow> nat result" where
  "rebuilt_key_capacity E = ok_or (max_rebuilt_key_len E) corrupt"

definition rebuild_key :: "KeyEncoding \<Rightarrow> PageView \<Rightarrow> nat \<Rightarrow> bytes \<Rightarrow> (bool \<times> bytes) result" where
  "rebuild_key E v i buf =
     (if \<not> omitted_keys (pv_layout v) then Ok (False, buf)
      else and_then (digest_at v i) (\<lambda>d.
      and_then (map_err (\<lambda>_. corrupt) (decode_key_from_digest E d buf)) (\<lambda>buf'.
      Ok (True, buf'))))"

subsection \<open>The digest check\<close>

definition check_stored_key :: "KeyEncoding \<Rightarrow> bytes \<Rightarrow> unit result" where
  "check_stored_key E key = map_err (\<lambda>_. corrupt) (validate_key E key)"

definition digest_mismatch :: "KeyEncoding \<Rightarrow> bytes \<Rightarrow> Error result" where
  "digest_mismatch E key = and_then (digest E key) (\<lambda>_. Ok corrupt)"

definition check_ascending :: "KeyEncoding \<Rightarrow> bytes \<Rightarrow> bytes \<Rightarrow> unit result" where
  "check_ascending E previous key =
     and_then (compare E previous key) (\<lambda>c. if c \<noteq> Less then Err corrupt else Ok ())"

text \<open>The part of the loop body that the sorted and the Eytzinger form of the check share:
  the stored key is well formed, its stored digest is acceptable, and it sorts above the
  previous key.\<close>

definition check_entry :: "KeyEncoding \<Rightarrow> bytes option \<Rightarrow> bytes \<Rightarrow> u64 \<Rightarrow> unit result" where
  "check_entry E previous key stored =
     and_then (check_stored_key E key) (\<lambda>_.
     and_then (accepts_digest E key stored) (\<lambda>ok.
     if \<not> ok then and_then (digest_mismatch E key) (\<lambda>e. Err e)
     else case previous of None \<Rightarrow> Ok () | Some p \<Rightarrow> check_ascending E p key))"

fun check_sorted_loop :: "KeyEncoding \<Rightarrow> PageView \<Rightarrow> nat list \<Rightarrow> bytes option \<Rightarrow> unit result" where
  "check_sorted_loop E v [] previous = Ok ()"
| "check_sorted_loop E v (i # is) previous =
     and_then (digest_at v i) (\<lambda>stored.
     and_then (entry_key v i) (\<lambda>key.
     and_then (check_entry E previous key stored) (\<lambda>_.
     check_sorted_loop E v is (Some key))))"

fun check_omitted_loop :: "bool \<Rightarrow> PageView \<Rightarrow> nat list \<Rightarrow> u64 option \<Rightarrow> unit result" where
  "check_omitted_loop strict v [] previous = Ok ()"
| "check_omitted_loop strict v (i # is) previous =
     and_then (digest_at v i) (\<lambda>stored.
     if (case previous of None \<Rightarrow> False
         | Some p \<Rightarrow> stored < p \<or> strict \<and> stored = p) then Err corrupt
     else check_omitted_loop strict v is (Some stored))"

text \<open>The stackless in-order walk over the Eytzinger tree: the leftmost node of a subtree,
  the climb to the first ancestor whose left subtree the node is in, and the successor.\<close>

function leftmost :: "nat \<Rightarrow> nat \<Rightarrow> nat" where
  "leftmost complete node =
     (if 0 < node \<and> node * 2 \<le> complete then leftmost complete (node * 2) else node)"
  by pat_completeness auto
termination by (relation "measure (\<lambda>(complete, node). complete + 1 - node)") auto

fun climb :: "nat \<Rightarrow> nat" where
  "climb node = (if 1 < node \<and> node mod 2 = 1 then climb (node div 2) else node)"

declare leftmost.simps [simp del] climb.simps [simp del]

definition next_node :: "nat \<Rightarrow> nat \<Rightarrow> nat option" where
  "next_node complete node =
     (let right = node * 2 + 1 in
      if right \<le> complete then Some (leftmost complete right)
      else let top = climb node in if top = 1 then None else Some (top div 2))"

text \<open>The walk ends when there is no next node.  \<open>fuel\<close> bounds its steps; the number of
  slots is enough, since the walk visits each of them once (\<open>eytzinger_loop_walk\<close> below).\<close>

fun check_eytzinger_loop ::
  "KeyEncoding \<Rightarrow> PageView \<Rightarrow> nat \<Rightarrow> nat \<Rightarrow> nat \<Rightarrow> nat \<Rightarrow> bytes option \<Rightarrow> nat result option" where
  "check_eytzinger_loop E v complete 0 node rank previous = None"
| "check_eytzinger_loop E v complete (Suc fuel) node rank previous =
     (case digest_slot v (node - 1) of
        Inl e \<Rightarrow> Some (Err e)
      | Inr stored \<Rightarrow>
          (case (if rank < pv_entry_count v then
                   and_then (entry_key v rank) (\<lambda>key.
                   and_then (check_entry E previous key stored) (\<lambda>_. Ok (Some key)))
                 else if stored \<noteq> - 1 then Err corrupt
                 else Ok previous) of
             Inl e \<Rightarrow> Some (Err e)
           | Inr previous' \<Rightarrow>
               (case next_node complete node of
                  None \<Rightarrow> Some (Ok (rank + 1))
                | Some node' \<Rightarrow>
                    check_eytzinger_loop E v complete fuel node' (rank + 1) previous')))"

definition check_eytzinger_digests :: "KeyEncoding \<Rightarrow> PageView \<Rightarrow> unit result" where
  "check_eytzinger_digests E v =
     (let complete = digest_slot_count v in
      if complete = 0 then Ok ()
      else case check_eytzinger_loop E v complete complete (leftmost complete 1) 0 None of
        None \<Rightarrow> Err corrupt
      | Some r \<Rightarrow> and_then r (\<lambda>rank. if rank \<noteq> complete then Err corrupt else Ok ()))"

definition check_digests :: "KeyEncoding \<Rightarrow> PageView \<Rightarrow> unit result" where
  "check_digests E v =
     (if eytzinger (pv_layout v) then check_eytzinger_digests E v
      else if omitted_keys (pv_layout v) then
        and_then (rebuilt_key_capacity E) (\<lambda>_.
        check_omitted_loop (is_digest_exact E) v [0..<pv_entry_count v] None)
      else check_sorted_loop E v [0..<pv_entry_count v] None)"

subsection \<open>Search\<close>

definition compare_internal :: "KeyEncoding \<Rightarrow> PageView \<Rightarrow> nat \<Rightarrow> bytes \<Rightarrow> u64 \<Rightarrow> ordering result" where
  "compare_internal E v i key key_digest =
     (if omitted_keys (pv_layout v) then and_then (digest_at v i) (\<lambda>d. Ok (cmp d key_digest))
      else and_then (internal_entry v i) (\<lambda>e.
      and_then (internal_key v e) (\<lambda>entry_key. compare E entry_key key)))"

definition compare_leaf :: "KeyEncoding \<Rightarrow> PageView \<Rightarrow> nat \<Rightarrow> bytes \<Rightarrow> u64 \<Rightarrow> ordering result" where
  "compare_leaf E v i key key_digest =
     (if omitted_keys (pv_layout v) then and_then (digest_at v i) (\<lambda>d. Ok (cmp d key_digest))
      else and_then (leaf_entry v i) (\<lambda>e.
      and_then (leaf_key v e) (\<lambda>entry_key. compare E entry_key key)))"

text \<open>The loop \<open>while i < count && keep(compare(i)?) { i += 1 }\<close>.\<close>

function skip_while :: "(nat \<Rightarrow> ordering result) \<Rightarrow> (ordering \<Rightarrow> bool) \<Rightarrow> nat \<Rightarrow> nat \<Rightarrow> nat result" where
  "skip_while compare_at keep count i =
     (if i < count then
        and_then (compare_at i) (\<lambda>c.
          if keep c then skip_while compare_at keep count (i + 1) else Ok i)
      else Ok i)"
  by pat_completeness auto
termination by (relation "measure (\<lambda>(c, k, count, i). count - i)") auto

function scan_equal :: "(nat \<Rightarrow> ordering result) \<Rightarrow> nat \<Rightarrow> nat \<Rightarrow> nat option result" where
  "scan_equal compare_at count i =
     (if i < count then
        and_then (compare_at i) (\<lambda>c.
          case c of Equal \<Rightarrow> Ok (Some i) | Greater \<Rightarrow> Ok None
          | Less \<Rightarrow> scan_equal compare_at count (i + 1))
      else Ok None)"
  by pat_completeness auto
termination by (relation "measure (\<lambda>(c, count, i). count - i)") auto

declare skip_while.simps [simp del] scan_equal.simps [simp del]

definition separators_are_inexact :: "KeyEncoding \<Rightarrow> PageView \<Rightarrow> bool" where
  "separators_are_inexact E v \<longleftrightarrow> omitted_keys (pv_layout v) \<and> \<not> is_digest_exact E"

definition internal_child_index :: "KeyEncoding \<Rightarrow> PageView \<Rightarrow> bytes \<Rightarrow> u64 \<Rightarrow> (nat \<times> bool) result" where
  "internal_child_index E v key key_digest =
     (let count = pv_entry_count v; at = (\<lambda>i. compare_internal E v i key key_digest) in
      and_then (lower_bound_rank v key_digest) (\<lambda>rank.
      and_then (skip_while at (\<lambda>c. c = Less) count (min rank count)) (\<lambda>i.
      and_then (if i < count then and_then (at i) (\<lambda>c. Ok (c = Equal)) else Ok False) (\<lambda>equal.
      if separators_are_inexact E v then Ok (i - 1, equal)
      else if equal then Ok (i, False) else Ok (i - 1, False)))))"

definition leaf_search :: "KeyEncoding \<Rightarrow> PageView \<Rightarrow> bytes \<Rightarrow> u64 \<Rightarrow> SearchOp \<Rightarrow> nat option result" where
  "leaf_search E v key key_digest op =
     (let count = pv_entry_count v; at = (\<lambda>i. compare_leaf E v i key key_digest) in
      and_then (lower_bound_rank v key_digest) (\<lambda>rank.
      let start = min rank count in
      case op of
        OpEqual \<Rightarrow> scan_equal at count start
      | OpLowerBound \<Rightarrow> and_then (skip_while at (\<lambda>c. c = Less) count start)
          (\<lambda>i. Ok (if i < count then Some i else None))
      | OpUpperBound \<Rightarrow> and_then (skip_while at (\<lambda>c. c \<noteq> Greater) count start)
          (\<lambda>i. Ok (if i < count then Some i else None))))"

definition ends_below :: "KeyEncoding \<Rightarrow> PageView \<Rightarrow> bytes \<Rightarrow> u64 \<Rightarrow> bool result" where
  "ends_below E v key key_digest =
     (let count = pv_entry_count v in
      if count = 0 then Ok True
      else and_then (compare_leaf E v (count - 1) key key_digest) (\<lambda>c. Ok (c = Less)))"

subsection \<open>The stackless walk is the in-order traversal\<close>

lemma leftmost_leaf: "\<not> node * 2 \<le> n \<Longrightarrow> leftmost n node = node"
  by (subst leftmost.simps) simp

lemma leftmost_step: "0 < node \<Longrightarrow> node * 2 \<le> n \<Longrightarrow> leftmost n node = leftmost n (2 * node)"
  by (subst leftmost.simps) (simp add: mult.commute)

lemma climb_right: "0 < i \<Longrightarrow> climb (Suc (2 * i)) = climb i"
  by (subst climb.simps) simp

lemma climb_left: "0 < i \<Longrightarrow> climb (2 * i) = 2 * i"
  by (subst climb.simps) simp

definition climb_up :: "nat \<Rightarrow> nat option" where
  "climb_up i = (let top = climb i in if top = 1 then None else Some (top div 2))"

text \<open>\<open>xs\<close> is a run of the walk that starts at \<open>xs ! 0\<close> and is followed by \<open>after\<close>.\<close>

definition walk_run :: "nat \<Rightarrow> nat list \<Rightarrow> nat option \<Rightarrow> bool" where
  "walk_run n xs after \<longleftrightarrow> xs \<noteq> [] \<and> next_node n (last xs) = after
     \<and> (\<forall>j. Suc j < length xs \<longrightarrow> next_node n (xs ! j) = Some (xs ! Suc j))"

lemma walk_run_append:
  assumes "walk_run n xs (Some (hd ys))" "walk_run n ys after"
  shows "walk_run n (xs @ ys) after"
proof -
  have "next_node n ((xs @ ys) ! j) = Some ((xs @ ys) ! Suc j)" if j: "Suc j < length (xs @ ys)" for j
  proof -
    consider "Suc j < length xs" | "Suc j = length xs" | "length xs \<le> j" by linarith
    then show ?thesis
    proof cases
      case 2
      then have "xs ! j = last xs" using assms(1) by (simp add: walk_run_def last_conv_nth flip: 2)
      with 2 assms show ?thesis by (simp add: walk_run_def nth_append hd_conv_nth)
    next
      case 3
      with j assms show ?thesis by (simp add: walk_run_def nth_append Suc_diff_le)
    qed (use assms in \<open>simp add: walk_run_def nth_append\<close>)
  qed
  with assms show ?thesis by (simp add: walk_run_def)
qed

lemma in_nodes_walk:
  assumes n: "Suc n = 2 ^ k"
  shows "at_height k (Suc h) i \<Longrightarrow> hd (in_nodes n i) = leftmost n i \<and> walk_run n (in_nodes n i) (climb_up i)"
proof (induction h arbitrary: i)
  case 0
  note c = at_height_Suc [OF n 0]
  have out: "\<not> 2 * i \<le> n" "\<not> Suc (2 * i) \<le> n"
    using at_height_0 [OF n c(2)] at_height_0 [OF n c(3)] by auto
  then have "in_nodes n i = [i]" using in_nodes_Suc [OF n 0] c in_nodes_0 [OF n] by simp
  with out show ?case by (simp add: leftmost_leaf walk_run_def next_node_def climb_up_def mult.commute)
next
  case (Suc h)
  note c = at_height_Suc [OF n Suc.prems]
  note cl = at_height_Suc(1) [OF n c(2)] and cr = at_height_Suc(1) [OF n c(3)]
  have pos: "0 < i" by (rule at_height_pos [OF Suc.prems])
  note L = Suc.IH [OF c(2)] and R = Suc.IH [OF c(3)]
  have up: "climb_up (2 * i) = Some i" "climb_up (Suc (2 * i)) = climb_up i"
    using pos by (simp_all add: climb_up_def climb_left climb_right Let_def)
  have mid: "walk_run n [i] (Some (hd (in_nodes n (Suc (2 * i)))))"
    using R cr by (simp add: walk_run_def next_node_def mult.commute)
  have "walk_run n (in_nodes n (2 * i) @ [i] @ in_nodes n (Suc (2 * i))) (climb_up i)"
    using L R mid up by (intro walk_run_append) auto
  moreover have "leftmost n i = leftmost n (2 * i)" using pos cl by (intro leftmost_step) auto
  moreover have "in_nodes n (2 * i) \<noteq> []" using L by (auto simp: walk_run_def)
  ultimately show ?case using L by (simp add: in_nodes_Suc [OF n Suc.prems])
qed

lemma in_nodes_root_walk:
  assumes "Suc n = 2 ^ k" "0 < n"
  shows "hd (in_nodes n 1) = leftmost n 1" "walk_run n (in_nodes n 1) None"
proof -
  obtain h where h: "k = Suc h" using assms by (cases k) auto
  have "climb_up 1 = None" by (simp add: climb_up_def climb.simps)
  with in_nodes_walk [OF assms(1), of h 1] at_height_root [of k] h
  show "hd (in_nodes n 1) = leftmost n 1" "walk_run n (in_nodes n 1) None" by auto
qed

subsection \<open>What the digest check establishes\<close>

text \<open>Both forms of the check over pages with keys, as one pass over the digests in key
  order.\<close>

fun check_list :: "KeyEncoding \<Rightarrow> PageView \<Rightarrow> u64 list \<Rightarrow> nat \<Rightarrow> bytes option \<Rightarrow> unit result" where
  "check_list E v [] rank previous = Ok ()"
| "check_list E v (s # ss) rank previous =
     (if rank < pv_entry_count v then
        and_then (entry_key v rank) (\<lambda>key.
        and_then (check_entry E previous key s) (\<lambda>_. check_list E v ss (rank + 1) (Some key)))
      else if s \<noteq> - 1 then Err corrupt
      else check_list E v ss (rank + 1) previous)"

lemma digest_at_wf:
  assumes "view_wf v" "\<not> eytzinger (pv_layout v)" "i < pv_entry_count v"
  shows "digest_at v i = Ok (digests v ! i)"
proof -
  have "i < digest_slot_count v" using assms by (simp add: digest_slot_count_wf digest_slots_def)
  with digest_slot_in [OF assms(1) this] assms show ?thesis
    by (simp add: digest_slot_def digest_at_def)
qed

lemma check_sorted_loop_list:
  assumes v: "view_wf v" "\<not> eytzinger (pv_layout v)"
  shows "i \<le> pv_entry_count v \<Longrightarrow>
    check_sorted_loop E v [i..<pv_entry_count v] previous = check_list E v (drop i (digests v)) i previous"
proof (induction "pv_entry_count v - i" arbitrary: i previous)
  case 0
  then show ?case using v by (simp add: digest_slot_count_wf digest_slots_def)
next
  case (Suc m)
  then have i: "i < pv_entry_count v" by simp
  moreover have "length (digests v) = pv_entry_count v"
    using v by (simp add: digest_slot_count_wf digest_slots_def)
  ultimately have d: "drop i (digests v) = digests v ! i # drop (Suc i) (digests v)"
    by (simp add: Cons_nth_drop_Suc)
  have IH: "check_sorted_loop E v [Suc i..<pv_entry_count v] p = check_list E v (drop (Suc i) (digests v)) (Suc i) p" for p
    using Suc i by (intro Suc.hyps(1)) auto
  show ?case using i digest_at_wf [OF v i] by (simp add: upt_conv_Cons d IH)
qed

lemma eytzinger_loop_walk:
  assumes v: "view_wf v" "n = digest_slot_count v"
  shows "walk_run n xs None \<Longrightarrow> set xs \<subseteq> {1..n} \<Longrightarrow> length xs \<le> fuel \<Longrightarrow>
    check_eytzinger_loop E v n fuel (hd xs) rank previous
      = Some (and_then (check_list E v (map (\<lambda>j. digests v ! (j - 1)) xs) rank previous)
          (\<lambda>_. Ok (rank + length xs)))"
proof (induction xs arbitrary: fuel rank previous)
  case Nil
  then show ?case by (simp add: walk_run_def)
next
  case (Cons x xs)
  obtain f where f: "fuel = Suc f" using Cons.prems(3) by (cases fuel) auto
  have d: "digest_slot v (x - Suc 0) = Ok (digests v ! (x - Suc 0))"
    using digest_slot_in [OF v(1), of "x - 1"] Cons.prems(2) v(2) by auto
  show ?case
  proof (cases "xs = []")
    case True
    with Cons.prems have "next_node n x = None" by (simp add: walk_run_def)
    with True f d show ?thesis by (auto simp: and_then_def split: sum.split)
  next
    case False
    with Cons.prems(1) have nx: "next_node n x = Some (hd xs)"
      by (auto simp: walk_run_def hd_conv_nth dest: spec [where x = 0])
    have "walk_run n xs None"
      using Cons.prems(1) False by (auto simp: walk_run_def)
    then have IH: "check_eytzinger_loop E v n f (hd xs) r p = Some (and_then
        (check_list E v (map (\<lambda>j. digests v ! (j - 1)) xs) r p) (\<lambda>_. Ok (r + length xs)))" for r p
      using Cons f by auto
    show ?thesis using f d nx by (auto simp: and_then_def IH split: sum.split)
  qed
qed

lemma check_eytzinger_list:
  assumes v: "view_wf v" "eytzinger (pv_layout v)"
  shows "check_eytzinger_digests E v = check_list E v (inorder_digests v) 0 None"
proof -
  let ?n = "digest_slot_count v"
  obtain k where k: "Suc ?n = 2 ^ k" using complete_slots v by blast
  show ?thesis
  proof (cases "?n = 0")
    case True
    then have "inorder_digests v = []" using length_inorder_digests [OF v(1)] by simp
    with True show ?thesis by (simp add: check_eytzinger_digests_def)
  next
    case False
    then have w: "hd (in_nodes ?n 1) = leftmost ?n 1" "walk_run ?n (in_nodes ?n 1) None"
      using in_nodes_root_walk [OF k] by auto
    have len: "length (in_nodes ?n 1) = ?n" using length_in_nodes [OF k at_height_root] k by simp
    from eytzinger_loop_walk [OF v(1) refl w(2) set_in_nodes, of ?n E 0 None] w(1) len False v(2)
    show ?thesis
      by (cases "check_list E v (inorder_digests v) 0 None")
        (simp_all add: check_eytzinger_digests_def inorder_digests_def)
  qed
qed

lemma check_digests_list:
  assumes "view_wf v" "\<not> omitted_keys (pv_layout v)"
  shows "check_digests E v = check_list E v (inorder_digests v) 0 None"
  using assms check_eytzinger_list [OF assms(1)] check_sorted_loop_list [OF assms(1), of 0]
  by (simp add: check_digests_def inorder_digests_def)

definition page_keys :: "PageView \<Rightarrow> bytes list" where
  "page_keys v = map (\<lambda>i. projr (entry_key v i)) [0..<pv_entry_count v]"

definition entry_ok :: "KeyEncoding \<Rightarrow> bytes \<Rightarrow> u64 \<Rightarrow> bool" where
  "entry_ok E key stored \<longleftrightarrow> validate_key E key = Ok () \<and> accepts_digest E key stored = Ok True"

lemma length_page_keys [simp]: "length (page_keys v) = pv_entry_count v"
  by (simp add: page_keys_def)

lemma check_entry_Ok_iff:
  "check_entry E previous key stored = Ok () \<longleftrightarrow>
     entry_ok E key stored \<and> (\<forall>p. previous = Some p \<longrightarrow> compare E p key = Ok Less)"
  by (cases previous) (auto simp: check_entry_def entry_ok_def check_stored_key_def check_ascending_def)

lemma check_list_facts:
  "check_list E v ss rank previous = Ok () \<Longrightarrow> rank \<le> pv_entry_count v \<Longrightarrow>
   pv_entry_count v - rank \<le> length ss \<Longrightarrow>
   \<exists>ks. length ks = pv_entry_count v - rank
     \<and> (\<forall>j < pv_entry_count v - rank. entry_key v (rank + j) = Ok (ks ! j) \<and> entry_ok E (ks ! j) (ss ! j))
     \<and> successively (\<lambda>a b. compare E a b = Ok Less) (case previous of None \<Rightarrow> ks | Some p \<Rightarrow> p # ks)
     \<and> (\<forall>j. pv_entry_count v - rank \<le> j \<longrightarrow> j < length ss \<longrightarrow> ss ! j = - 1)"
proof (induction ss arbitrary: rank previous)
  case Nil
  then show ?case by (auto split: option.split)
next
  case (Cons s ss)
  show ?case
  proof (cases "rank < pv_entry_count v")
    case True
    then obtain key where key: "entry_key v rank = Ok key" "check_entry E previous key s = Ok ()"
      "check_list E v ss (rank + 1) (Some key) = Ok ()" using Cons.prems(1) by auto
    define m where "m = pv_entry_count v - (rank + 1)"
    have m: "pv_entry_count v - rank = Suc m" using True by (simp add: m_def)
    have "rank + 1 \<le> pv_entry_count v" "pv_entry_count v - (rank + 1) \<le> length ss"
      using True Cons.prems(3) by simp_all
    from Cons.IH [OF key(3) this] obtain ks where ks: "length ks = m"
      "\<forall>j<m. entry_key v (rank + 1 + j) = Ok (ks ! j) \<and> entry_ok E (ks ! j) (ss ! j)"
      "successively (\<lambda>a b. compare E a b = Ok Less) (key # ks)"
      "\<forall>j. m \<le> j \<longrightarrow> j < length ss \<longrightarrow> ss ! j = - 1" by (auto simp: m_def)
    have "\<forall>j<Suc m. entry_key v (rank + j) = Ok ((key # ks) ! j) \<and> entry_ok E ((key # ks) ! j) ((s # ss) ! j)"
      using key(1,2) ks(2) by (auto simp: check_entry_Ok_iff less_Suc_eq_0_disj)
    moreover have "successively (\<lambda>a b. compare E a b = Ok Less)
        (case previous of None \<Rightarrow> key # ks | Some p \<Rightarrow> p # key # ks)"
      using key(2) ks(3) by (auto simp: check_entry_Ok_iff split: option.split)
    moreover have "\<forall>j. Suc m \<le> j \<longrightarrow> j < length (s # ss) \<longrightarrow> (s # ss) ! j = - 1"
      using ks(4) by (auto simp: nth_Cons split: nat.split)
    ultimately show ?thesis unfolding m using ks(1) by (intro exI [of _ "key # ks"]) simp
  next
    case False
    then have r: "rank = pv_entry_count v" using Cons.prems(2) by simp
    have "\<forall>j<length ss. ss ! j = - 1" if "check_list E v ss q p = Ok ()" "pv_entry_count v \<le> q" for q p ss
      using that by (induction ss arbitrary: q) (auto simp: less_Suc_eq_0_disj nth_Cons split: nat.split)
    from this [of "s # ss" rank previous] Cons.prems(1) r show ?thesis
      by (intro exI [of _ "[]"]) (auto split: option.split)
  qed
qed

text \<open>Searching a column of comparison results that is sorted: all \<open>Less\<close> first, then
  \<open>Equal\<close>, then \<open>Greater\<close>.\<close>

definition op_matches :: "SearchOp \<Rightarrow> ordering \<Rightarrow> bool" where
  "op_matches op c =
     (case op of OpEqual \<Rightarrow> c = Equal | OpLowerBound \<Rightarrow> c \<noteq> Less | OpUpperBound \<Rightarrow> c = Greater)"

definition column_sorted :: "(nat \<Rightarrow> ordering) \<Rightarrow> nat \<Rightarrow> bool" where
  "column_sorted c n \<longleftrightarrow>
     (\<forall>i j. i < j \<longrightarrow> j < n \<longrightarrow> (c i \<noteq> Less \<longrightarrow> c j \<noteq> Less) \<and> (c i = Greater \<longrightarrow> c j = Greater))"

lemma extend_run: "P s \<Longrightarrow> \<forall>j. Suc s \<le> j \<longrightarrow> j < q \<longrightarrow> P j \<Longrightarrow> \<forall>j. s \<le> j \<longrightarrow> j < q \<longrightarrow> P j"
  by (metis Suc_leI le_neq_implies_less)

lemma skip_while_spec:
  assumes "\<And>i. i < n \<Longrightarrow> at i = Ok (c i)"
  shows "s \<le> n \<Longrightarrow> \<exists>r. skip_while at keep n s = Ok r \<and> s \<le> r \<and> r \<le> n
    \<and> (\<forall>j. s \<le> j \<longrightarrow> j < r \<longrightarrow> keep (c j)) \<and> (r < n \<longrightarrow> \<not> keep (c r))"
proof (induction "n - s" arbitrary: s)
  case 0
  then show ?case by (subst skip_while.simps) auto
next
  case (Suc m)
  then have s: "s < n" and m: "m = n - Suc s" by simp_all
  show ?case
  proof (cases "keep (c s)")
    case True
    from Suc.hyps(1) [OF m] s obtain r where
      r: "skip_while at keep n (Suc s) = Ok r" "Suc s \<le> r" "r \<le> n"
      "\<forall>j. Suc s \<le> j \<longrightarrow> j < r \<longrightarrow> keep (c j)" "r < n \<longrightarrow> \<not> keep (c r)" by auto
    have "skip_while at keep n s = Ok r" using True s assms r(1) by (subst skip_while.simps) simp
    then show ?thesis using r extend_run [of "\<lambda>j. keep (c j)", OF True r(4)] by (intro exI [of _ r]) simp
  qed (use s assms in \<open>subst skip_while.simps; auto\<close>)
qed

lemma scan_equal_spec:
  assumes "\<And>i. i < n \<Longrightarrow> at i = Ok (c i)"
  shows "s \<le> n \<Longrightarrow> \<exists>r. scan_equal at n s = Ok r \<and> (case r of
      Some i \<Rightarrow> s \<le> i \<and> i < n \<and> c i = Equal \<and> (\<forall>j. s \<le> j \<longrightarrow> j < i \<longrightarrow> c j = Less)
    | None \<Rightarrow> \<exists>m. s \<le> m \<and> m \<le> n \<and> (\<forall>j. s \<le> j \<longrightarrow> j < m \<longrightarrow> c j = Less) \<and> (m < n \<longrightarrow> c m = Greater))"
proof (induction "n - s" arbitrary: s)
  case 0
  then show ?case by (subst scan_equal.simps) auto
next
  case (Suc m)
  then have s: "s < n" and m: "m = n - Suc s" by simp_all
  have unfold: "scan_equal at n s = (case c s of Equal \<Rightarrow> Ok (Some s) | Greater \<Rightarrow> Ok None
      | Less \<Rightarrow> scan_equal at n (Suc s))"
    using s assms by (subst scan_equal.simps) simp
  show ?case
  proof (cases "c s")
    case Less
    from Suc.hyps(1) [OF m] s obtain r where
      r: "scan_equal at n (Suc s) = Ok r" "case r of
      Some i \<Rightarrow> Suc s \<le> i \<and> i < n \<and> c i = Equal \<and> (\<forall>j. Suc s \<le> j \<longrightarrow> j < i \<longrightarrow> c j = Less)
    | None \<Rightarrow> \<exists>m. Suc s \<le> m \<and> m \<le> n \<and> (\<forall>j. Suc s \<le> j \<longrightarrow> j < m \<longrightarrow> c j = Less) \<and> (m < n \<longrightarrow> c m = Greater)"
      by auto
    have step: "\<forall>j. s \<le> j \<longrightarrow> j < q \<longrightarrow> c j = Less" if "\<forall>j. Suc s \<le> j \<longrightarrow> j < q \<longrightarrow> c j = Less" for q
      by (rule extend_run [OF Less that])
    show ?thesis
    proof (cases r)
      case None
      with r step show ?thesis unfolding unfold Less by (auto intro: Suc_leD)
    next
      case (Some i)
      with r step show ?thesis unfolding unfold Less by auto
    qed
  next
    case Equal
    then show ?thesis using s by (simp add: unfold)
  next
    case Greater
    then show ?thesis using s by (auto simp: unfold intro: exI [of _ s])
  qed
qed

lemma find_upt_Some: "find P [0..<n] = Some i \<longleftrightarrow> i < n \<and> P i \<and> (\<forall>j<i. \<not> P j)"
  by (auto simp: find_Some_iff)

lemma find_upt_None: "find P [0..<n] = None \<longleftrightarrow> (\<forall>i<n. \<not> P i)"
  by (auto simp: find_None_iff)

lemma find_boundary:
  assumes "r \<le> n" "\<And>j. j < r \<Longrightarrow> \<not> P j" "r < n \<Longrightarrow> P r"
  shows "find P [0..<n] = (if r < n then Some r else None)"
  using assms by (auto simp: find_upt_Some find_upt_None)

lemma skip_while_find:
  assumes "\<And>i. i < n \<Longrightarrow> at i = Ok (c i)" "s \<le> n" "\<And>i. i < s \<Longrightarrow> keep (c i)"
  shows "and_then (skip_while at keep n s) (\<lambda>i. Ok (if i < n then Some i else None))
    = Ok (find (\<lambda>i. \<not> keep (c i)) [0..<n])"
proof -
  obtain r where r: "skip_while at keep n s = Ok r" "s \<le> r" "r \<le> n"
    "\<forall>j. s \<le> j \<longrightarrow> j < r \<longrightarrow> keep (c j)" "r < n \<longrightarrow> \<not> keep (c r)"
    using skip_while_spec [of n at c s keep, OF assms(1,2)] by auto
  have "keep (c j)" if "j < r" for j using that assms(3) r(4) by (cases "j < s") auto
  then show ?thesis using r find_boundary [of r n "\<lambda>i. \<not> keep (c i)"] by simp
qed

lemma scan_equal_find:
  assumes at: "\<And>i. i < n \<Longrightarrow> at i = Ok (c i)" and s: "s \<le> n" "\<And>i. i < s \<Longrightarrow> c i = Less"
    and sorted: "column_sorted c n"
  shows "scan_equal at n s = Ok (find (\<lambda>i. c i = Equal) [0..<n])"
proof -
  obtain r where r: "scan_equal at n s = Ok r" and spec: "case r of
      Some i \<Rightarrow> s \<le> i \<and> i < n \<and> c i = Equal \<and> (\<forall>j. s \<le> j \<longrightarrow> j < i \<longrightarrow> c j = Less)
    | None \<Rightarrow> \<exists>m. s \<le> m \<and> m \<le> n \<and> (\<forall>j. s \<le> j \<longrightarrow> j < m \<longrightarrow> c j = Less) \<and> (m < n \<longrightarrow> c m = Greater)"
    using scan_equal_spec [of n at c s, OF at s(1)] by auto
  have "find (\<lambda>i. c i = Equal) [0..<n] = r"
  proof (cases r)
    case None
    with spec obtain m where m: "s \<le> m" "m \<le> n" "\<forall>j. s \<le> j \<longrightarrow> j < m \<longrightarrow> c j = Less"
      "m < n \<longrightarrow> c m = Greater" by auto
    have "c j \<noteq> Equal" if "j < n" for j
    proof -
      consider "j < s" | "s \<le> j" "j < m" | "j = m" | "m < j" by linarith
      then show ?thesis using m s(2) [of j] that sorted by cases (auto simp: column_sorted_def)
    qed
    then show ?thesis by (simp add: None find_upt_None)
  next
    case (Some i)
    with spec have i: "s \<le> i" "i < n" "c i = Equal" "\<forall>j. s \<le> j \<longrightarrow> j < i \<longrightarrow> c j = Less" by auto
    have "c j = Less" if "j < i" for j using that i(4) s(2) [of j] by (cases "j < s") auto
    then show ?thesis using i by (auto simp: Some find_upt_Some)
  qed
  with r show ?thesis by simp
qed

definition column_search :: "(nat \<Rightarrow> ordering result) \<Rightarrow> nat \<Rightarrow> nat \<Rightarrow> SearchOp \<Rightarrow> nat option result" where
  "column_search at count start op =
     (case op of
        OpEqual \<Rightarrow> scan_equal at count start
      | OpLowerBound \<Rightarrow> and_then (skip_while at (\<lambda>c. c = Less) count start)
          (\<lambda>i. Ok (if i < count then Some i else None))
      | OpUpperBound \<Rightarrow> and_then (skip_while at (\<lambda>c. c \<noteq> Greater) count start)
          (\<lambda>i. Ok (if i < count then Some i else None)))"

lemma column_search_find:
  assumes "\<And>i. i < n \<Longrightarrow> at i = Ok (c i)" "s \<le> n" "\<And>i. i < s \<Longrightarrow> c i = Less" "column_sorted c n"
  shows "column_search at n s op = Ok (find (\<lambda>i. op_matches op (c i)) [0..<n])"
  using skip_while_find [of n at c s "\<lambda>c. c = Less", OF assms(1,2)]
    skip_while_find [of n at c s "\<lambda>c. c \<noteq> Greater", OF assms(1,2)]
    scan_equal_find [of n at c s, OF assms] assms(3)
  by (cases op) (simp_all add: column_search_def op_matches_def)

lemma leaf_search_column:
  assumes "lower_bound_rank v d = Ok rank"
  shows "leaf_search E v key d op
    = column_search (\<lambda>i. compare_leaf E v i key d) (pv_entry_count v) (min rank (pv_entry_count v)) op"
  using assms by (cases op) (simp_all add: leaf_search_def column_search_def Let_def)

subsection \<open>Encodings whose pages can be searched\<close>

text \<open>
  A page may store, for a key, any digest the encoding accepts.  A search stays correct as
  long as an accepted digest is never below the digest of a search key that sorts at or
  before the stored key.  This is weaker than digests being sorted, and the pages of
  non-unique indexes that carry digests of the whole composite key need the difference.
\<close>

locale searchable_encoding = lawful_encoding +
  assumes accepted_valid: "validate_key E k = Ok () \<Longrightarrow> accepts_digest E k s = Ok b \<Longrightarrow> valid k"
    and accepted_ge: "valid a \<Longrightarrow> valid k \<Longrightarrow> compare E a k \<noteq> Ok Less \<Longrightarrow>
      accepts_digest E a s = Ok True \<Longrightarrow> digest E k = Ok d \<Longrightarrow> d \<le> s"
begin

lemma compare_le_trans:
  assumes v: "valid a" "valid b" "valid k" and ab: "compare E a b = Ok Less"
  shows "compare E a k \<noteq> Ok Less \<Longrightarrow> compare E b k \<noteq> Ok Less"
    "compare E a k = Ok Greater \<Longrightarrow> compare E b k = Ok Greater"
    "compare E a k = Ok Equal \<Longrightarrow> compare E b k = Ok Greater"
  using compare_trans [of a b k] compare_trans [of k a b] compare_cases [of a k] compare_cases [of b k]
    compare_cases [of k b] compare_Equal [of a k] assms by auto

definition ascending_keys :: "bytes list \<Rightarrow> bool" where
  "ascending_keys ks \<longleftrightarrow> (\<forall>k \<in> set ks. valid k) \<and> sorted_wrt (\<lambda>a b. compare E a b = Ok Less) ks"

lemma ascending_keys_successively:
  assumes "\<forall>k \<in> set ks. valid k" "successively (\<lambda>a b. compare E a b = Ok Less) ks"
  shows "ascending_keys ks"
proof -
  let ?P = "\<lambda>a b. valid a \<and> valid b \<and> compare E a b = Ok Less"
  have "transp ?P" by (rule transpI) (use compare_trans in blast)
  moreover have "successively ?P ks" using assms
    by (induction ks rule: induct_list012) auto
  ultimately have "sorted_wrt ?P ks" by (simp add: successively_conv_sorted_wrt)
  then show ?thesis using assms(1) unfolding ascending_keys_def
    by (auto intro: sorted_wrt_mono_rel [rotated])
qed

lemma check_digests_sound:
  assumes v: "view_wf v" "\<not> omitted_keys (pv_layout v)" and ok: "check_digests E v = Ok ()"
  shows "ascending_keys (page_keys v)"
    "\<And>i. i < pv_entry_count v \<Longrightarrow> entry_key v i = Ok (page_keys v ! i)"
    "\<And>i. i < pv_entry_count v \<Longrightarrow> accepts_digest E (page_keys v ! i) (inorder_digests v ! i) = Ok True"
    "\<And>i. pv_entry_count v \<le> i \<Longrightarrow> i < digest_slot_count v \<Longrightarrow> inorder_digests v ! i = - 1"
    "pv_entry_count v \<le> digest_slot_count v"
proof -
  have n: "pv_entry_count v \<le> digest_slot_count v"
    using v(1) complete_size_ge [of "pv_entry_count v"]
    by (auto simp: digest_slot_count_wf digest_slots_def view_wf_def Let_def)
  then show "pv_entry_count v \<le> digest_slot_count v" .
  have len: "length (inorder_digests v) = digest_slot_count v" using length_inorder_digests v(1) .
  from check_list_facts [of E v "inorder_digests v" 0 None] ok check_digests_list [OF v] n len
  obtain ks where ks: "length ks = pv_entry_count v"
    "\<forall>j<pv_entry_count v. entry_key v j = Ok (ks ! j) \<and> entry_ok E (ks ! j) (inorder_digests v ! j)"
    "successively (\<lambda>a b. compare E a b = Ok Less) ks"
    "\<forall>j. pv_entry_count v \<le> j \<longrightarrow> j < digest_slot_count v \<longrightarrow> inorder_digests v ! j = - 1" by auto
  have pk: "page_keys v = ks" using ks(1,2) by (auto simp: page_keys_def intro: nth_equalityI)
  show "\<And>i. i < pv_entry_count v \<Longrightarrow> entry_key v i = Ok (page_keys v ! i)" using ks pk by simp
  show "\<And>i. i < pv_entry_count v \<Longrightarrow> accepts_digest E (page_keys v ! i) (inorder_digests v ! i) = Ok True"
    using ks pk by (simp add: entry_ok_def)
  show "\<And>i. pv_entry_count v \<le> i \<Longrightarrow> i < digest_slot_count v \<Longrightarrow> inorder_digests v ! i = - 1"
    using ks(4) by simp
  have "\<forall>k \<in> set ks. valid k"
    using ks(1,2) by (auto simp: in_set_conv_nth entry_ok_def) (use accepted_valid in blast)
  with ks(3) show "ascending_keys (page_keys v)" by (simp add: pk ascending_keys_successively)
qed

lemma ascending_nth:
  "ascending_keys ks \<Longrightarrow> i < j \<Longrightarrow> j < length ks \<Longrightarrow> compare E (ks ! i) (ks ! j) = Ok Less"
  by (simp add: ascending_keys_def sorted_wrt_iff_nth_less)

lemma ascending_valid: "ascending_keys ks \<Longrightarrow> i < length ks \<Longrightarrow> valid (ks ! i)"
  by (simp add: ascending_keys_def)

definition order_of :: "bytes \<Rightarrow> bytes \<Rightarrow> ordering" where
  "order_of a b = projr (compare E a b)"

lemma compare_order_of: "valid a \<Longrightarrow> valid b \<Longrightarrow> compare E a b = Ok (order_of a b)"
  using compare_total [of a b] by (auto simp: order_of_def)

lemma order_column_sorted:
  assumes "ascending_keys ks" "valid key"
  shows "column_sorted (\<lambda>i. order_of (ks ! i) key) (length ks)"
  unfolding column_sorted_def
proof (intro allI impI)
  fix i j assume ij: "i < j" "j < length ks"
  have v: "valid (ks ! i)" "valid (ks ! j)" using ij ascending_valid [OF assms(1)] by auto
  note t = compare_le_trans [OF v assms(2) ascending_nth [OF assms(1) ij]]
  show "(order_of (ks ! i) key \<noteq> Less \<longrightarrow> order_of (ks ! j) key \<noteq> Less)
      \<and> (order_of (ks ! i) key = Greater \<longrightarrow> order_of (ks ! j) key = Greater)"
    using t compare_order_of [OF v(1) assms(2)] compare_order_of [OF v(2) assms(2)] by auto
qed

lemma rank_below:
  assumes v: "view_wf v" "\<not> omitted_keys (pv_layout v)" and ok: "check_digests E v = Ok ()"
    and key: "valid key" "digest E key = Ok d" and r: "is_rank (inorder_digests v) d r"
    and i: "i < min r (pv_entry_count v)"
  shows "order_of (page_keys v ! i) key = Less"
proof (rule ccontr)
  note S = check_digests_sound [OF v ok]
  let ?n = "pv_entry_count v" and ?ks = "page_keys v"
  define j where "j = min r ?n - 1"
  have j: "i \<le> j" "j < ?n" using i by (auto simp: j_def)
  have vi: "valid (?ks ! i)" "valid (?ks ! j)" using ascending_valid [OF S(1)] j by auto
  assume "order_of (?ks ! i) key \<noteq> Less"
  then have "compare E (?ks ! i) key \<noteq> Ok Less" using compare_order_of [OF vi(1) key(1)] by simp
  then have "compare E (?ks ! j) key \<noteq> Ok Less"
    using compare_le_trans(1) [OF vi key(1)] ascending_nth [OF S(1), of i j] j
    by (cases "i = j") auto
  then have d: "d \<le> inorder_digests v ! j" using accepted_ge [OF vi(2) key(1) _ S(3) [OF j(2)] key(2)] by blast
  have lt: "0 < r" "inorder_digests v ! (r - 1) < d" using r i by (auto simp: is_rank_def)
  show False
  proof (cases "r \<le> ?n")
    case True
    then have "j = r - 1" by (simp add: j_def)
    with d lt show False by simp
  next
    case False
    then have "inorder_digests v ! (r - 1) = - 1"
      using S(4) [of "r - 1"] r length_inorder_digests [OF v(1)] by (auto simp: is_rank_def)
    with lt(2) show False by simp
  qed
qed

text \<open>The search on a checked leaf finds the first entry that matches, or reports that
  there is none.\<close>

lemma leaf_search_correct:
  assumes v: "view_wf v" "\<not> omitted_keys (pv_layout v)" "pv_kind v = Leaf"
    and ok: "check_digests E v = Ok ()" and key: "valid key" "digest E key = Ok d"
  shows "leaf_search E v key d op
    = Ok (find (\<lambda>i. op_matches op (order_of (page_keys v ! i) key)) [0..<pv_entry_count v])"
proof -
  note S = check_digests_sound [OF v(1,2) ok]
  obtain r where r: "lower_bound_rank v d = Ok r" "is_rank (inorder_digests v) d r"
    using lower_bound_rank_is_rank [OF v(1)] by blast
  have at: "compare_leaf E v i key d = Ok (order_of (page_keys v ! i) key)" if "i < pv_entry_count v" for i
    using S(2) [OF that] v(2,3) compare_order_of [OF ascending_valid [OF S(1)] key(1), of i] that
    by (auto simp: compare_leaf_def entry_key_def)
  show ?thesis
    unfolding leaf_search_column [OF r(1)]
    using order_column_sorted [OF S(1) key(1)] rank_below [OF v(1,2) ok key r(2)]
    by (intro column_search_find) (auto simp: at)
qed

lemma child_index_count:
  assumes c: "column_sorted c n" and i: "i \<le> n" "\<And>j. j < i \<Longrightarrow> c j = Less" "i < n \<Longrightarrow> c i \<noteq> Less"
    and uniq: "\<And>j. i < j \<Longrightarrow> j < n \<Longrightarrow> c j = Greater"
  shows "length (filter (\<lambda>j. c j \<noteq> Greater) [0..<n]) = (if i < n \<and> c i = Equal then i + 1 else i)"
proof -
  let ?m = "if i < n \<and> c i = Equal then i + 1 else i"
  have "c j \<noteq> Greater \<longleftrightarrow> j < ?m" if "j < n" for j
  proof -
    consider "j < i" | "j = i" | "i < j" by linarith
    then show ?thesis using i(2,3) uniq that by cases (cases "c i"; auto)+
  qed
  moreover have "?m \<le> n" using i(1) by auto
  ultimately have "j < n \<and> c j \<noteq> Greater \<longleftrightarrow> j < ?m" for j by (meson order.strict_trans2)
  then have "{j. j < n \<and> c j \<noteq> Greater} = {..<?m}" by auto
  moreover have "length (filter (\<lambda>j. c j \<noteq> Greater) [0..<n]) = card {j. j < n \<and> c j \<noteq> Greater}"
    unfolding length_filter_conv_card by (rule arg_cong [where f = card]) auto
  ultimately show ?thesis by simp
qed

text \<open>The descent takes the child of the last separator at or below the key, or the first
  child when every separator is above it.\<close>

lemma internal_child_correct:
  assumes v: "view_wf v" "\<not> omitted_keys (pv_layout v)" "pv_kind v = Internal"
    and ok: "check_digests E v = Ok ()" and key: "valid key" "digest E key = Ok d"
  shows "internal_child_index E v key d
    = Ok (length (filter (\<lambda>k. compare E k key \<noteq> Ok Greater) (page_keys v)) - 1, False)"
proof -
  note S = check_digests_sound [OF v(1,2) ok]
  let ?n = "pv_entry_count v" and ?c = "\<lambda>i. order_of (page_keys v ! i) key"
  obtain r where r: "lower_bound_rank v d = Ok r" "is_rank (inorder_digests v) d r"
    using lower_bound_rank_is_rank [OF v(1)] by blast
  have cmp: "compare E (page_keys v ! i) key = Ok (?c i)" if "i < ?n" for i
    using compare_order_of [OF ascending_valid [OF S(1)] key(1), of i] that by simp
  have at: "compare_internal E v i key d = Ok (?c i)" if "i < ?n" for i
    using S(2) [OF that] v(2,3) cmp [OF that] by (auto simp: compare_internal_def entry_key_def)
  obtain i where i: "skip_while (\<lambda>i. compare_internal E v i key d) (\<lambda>c. c = Less) ?n (min r ?n) = Ok i"
    "min r ?n \<le> i" "i \<le> ?n" "\<forall>j. min r ?n \<le> j \<longrightarrow> j < i \<longrightarrow> ?c j = Less" "i < ?n \<longrightarrow> ?c i \<noteq> Less"
    using skip_while_spec [of ?n _ ?c "min r ?n" "\<lambda>c. c = Less", OF at] by auto
  have below: "?c j = Less" if "j < i" for j
    using that i(4) rank_below [OF v(1,2) ok key r(2), of j] by (cases "j < min r ?n") auto
  have above: "?c j = Greater" if j: "i < j" "j < ?n" for j
  proof -
    have vj: "valid (page_keys v ! i)" "valid (page_keys v ! j)" using ascending_valid [OF S(1)] j by auto
    show ?thesis using compare_le_trans(2,3) [OF vj key(1) ascending_nth [OF S(1)]] i(5) j cmp [of i] cmp [of j]
      by (cases "?c i") auto
  qed
  have "length (filter (\<lambda>k. compare E k key \<noteq> Ok Greater) (page_keys v))
      = length (filter (\<lambda>j. ?c j \<noteq> Greater) [0..<?n])"
    using cmp by (simp add: length_filter_conv_card) (rule arg_cong [where f = card], auto)
  also have "\<dots> = (if i < ?n \<and> ?c i = Equal then i + 1 else i)"
    using order_column_sorted [OF S(1) key(1)] i(3,5) below above by (intro child_index_count) auto
  finally show ?thesis using r(1) i(1) at [of i] v(2)
    by (auto simp: internal_child_index_def Let_def separators_are_inexact_def)
qed

end

lemma default_searchable:
  assumes "lawful_encoding E v" "accepts_digest E = default_accepts_digest (digest E)"
    "\<And>k. validate_key E k = Ok () \<Longrightarrow> v k"
  shows "searchable_encoding E v"
proof (intro searchable_encoding.intro searchable_encoding_axioms.intro assms(1), goal_cases)
  case (1 k s b)
  then show ?case by (simp add: assms(3))
next
  case (2 a k s d)
  then have "digest E a = Ok s" by (simp add: assms(2) default_accepts_digest_def)
  with 2 show ?case
    using lawful_encoding.compare_cases [OF assms(1), of a k]
      lawful_encoding.digest_mono [OF assms(1), of k a d s] by auto
qed

lemma dup_searchable:
  assumes L: "lawful_encoding E v"
    and len: "\<And>k s r. validate_key (DuplicateKeyEncoding E) k = Ok () \<Longrightarrow> dup_split k = Ok (s, r) \<Longrightarrow> v s"
    and whole: "\<And>s t r x d. v s \<Longrightarrow> v t \<Longrightarrow> compare E s t \<noteq> Ok Less \<Longrightarrow>
      digest E (dup_encode s r) = Ok x \<Longrightarrow> digest E t = Ok d \<Longrightarrow> d \<le> x"
  shows "searchable_encoding (DuplicateKeyEncoding E) (dup_valid v)"
proof (intro searchable_encoding.intro searchable_encoding_axioms.intro dup_lawful L, goal_cases)
  case (1 k s b)
  then obtain t r where "dup_split k = Ok (t, r)"
    by (cases "dup_split k") (auto simp: DuplicateKeyEncoding_def dup_accepts_digest_def dup_digest_def)
  with len [OF 1(1) this] show ?case by (simp add: dup_valid_def)
next
  case (2 a k s d)
  obtain a1 ra where a: "dup_split a = Ok (a1, ra)" "v a1" using 2(1) by (rule dup_validE)
  obtain k1 rk where k: "dup_split k = Ok (k1, rk)" "v k1" using 2(2) by (rule dup_validE)
  have d: "digest E k1 = Ok d" using 2(5) k by (simp add: DuplicateKeyEncoding_def dup_digest_def)
  have nl: "compare E a1 k1 \<noteq> Ok Less"
    using 2(3) a k by (auto simp: DuplicateKeyEncoding_def dup_compare_split)
  obtain a1d where a1d: "digest E a1 = Ok a1d" using lawful_encoding.digest_total [OF L a(2)] by blast
  from 2(4) a a1d consider "a1d = s" | "digest E a = Ok s"
    by (auto simp: DuplicateKeyEncoding_def dup_accepts_digest_def dup_digest_def split: if_splits)
  then show ?case
  proof cases
    case 1
    then show ?thesis
      using lawful_encoding.compare_cases [OF L a(2) k(2)] nl
        lawful_encoding.digest_mono [OF L k(2) a(2) _ d a1d] a1d d by auto
  next
    case 2
    moreover have "a = dup_encode a1 ra" using a(1) dup_split_iff by blast
    ultimately show ?thesis using whole [OF a(2) k(2) nl _ d] by blast
  qed
qed

lemma be_prefix_append: "be_prefix n s \<le> be_prefix n (s @ x)"
  by (induction n s rule: be_prefix.induct) auto

lemma ascii_digest_whole:
  assumes "cmp_bytes s t \<noteq> Less" shows "ascii_digest t \<le> ascii_digest (s @ x)"
proof -
  have "s = t \<or> cmp_bytes t s = Less"
    using assms cmp_bytes_reverse [of t s] by (cases "cmp_bytes s t") auto
  then have "be_prefix 8 t \<le> be_prefix 8 s" using be_prefix_mono by auto
  also have "\<dots> \<le> be_prefix 8 (s @ x)" by (rule be_prefix_append)
  finally show ?thesis by (simp add: word_le_nat ascii_digest_value)
qed

lemma dup_length: "dup_split k = Ok (s, r) \<Longrightarrow> length k = length s + 4"
  using dup_split_iff [of k s r] by (auto simp: dup_encode_def)

interpretation int64: searchable_encoding Int64Encoding "\<lambda>k. length k = 8"
  by (rule default_searchable [OF int64.lawful_encoding_axioms])
    (simp_all add: Int64Encoding_def default_validate_key_def)

interpretation ascii: searchable_encoding AsciiEncoding "\<lambda>_. True"
  by (rule default_searchable [OF ascii.lawful_encoding_axioms]) (simp_all add: AsciiEncoding_def)

interpretation uuid: searchable_encoding Uuidv7Encoding "\<lambda>k. length k = 16"
  by (rule default_searchable [OF uuid.lawful_encoding_axioms])
    (simp_all add: Uuidv7Encoding_def default_validate_key_def)

interpretation ulid: searchable_encoding UlidEncoding "\<lambda>_. True"
  by (rule default_searchable [OF ulid.lawful_encoding_axioms]) (simp_all add: UlidEncoding_def)

interpretation dup_int64: searchable_encoding "DuplicateKeyEncoding Int64Encoding" "dup_valid (\<lambda>k. length k = 8)"
  by (rule dup_searchable [OF int64.lawful_encoding_axioms])
    (auto simp: DuplicateKeyEncoding_def Int64Encoding_def default_validate_key_def RID_LEN_def
      int64_digest_def int64_decode_def need_len_def dup_encode_def dest: dup_length split: if_splits)

interpretation dup_ascii: searchable_encoding "DuplicateKeyEncoding AsciiEncoding" "dup_valid (\<lambda>_. True)"
  by (rule dup_searchable [OF ascii.lawful_encoding_axioms])
    (auto simp: AsciiEncoding_def dup_encode_def intro: ascii_digest_whole)

interpretation dup_uuid: searchable_encoding "DuplicateKeyEncoding Uuidv7Encoding" "dup_valid (\<lambda>k. length k = 16)"
  by (rule dup_searchable [OF uuid.lawful_encoding_axioms])
    (auto simp: DuplicateKeyEncoding_def Uuidv7Encoding_def default_validate_key_def RID_LEN_def
      uuid_digest_def uuid_fields_def need_len_def dup_encode_def dest: dup_length split: if_splits)

interpretation dup_ulid: searchable_encoding "DuplicateKeyEncoding UlidEncoding" "dup_valid (\<lambda>_. True)"
  by (rule dup_searchable [OF ulid.lawful_encoding_axioms])
    (auto simp: UlidEncoding_def dup_encode_def intro: ascii_digest_whole)

subsection \<open>Pages without key bytes\<close>

lemma check_omitted_facts:
  assumes v: "view_wf v" "\<not> eytzinger (pv_layout v)"
  shows "i \<le> pv_entry_count v \<Longrightarrow> check_omitted_loop strict v [i..<pv_entry_count v] p = Ok () \<Longrightarrow>
    sorted (case p of None \<Rightarrow> drop i (digests v) | Some q \<Rightarrow> q # drop i (digests v))
    \<and> (strict \<longrightarrow> distinct (case p of None \<Rightarrow> drop i (digests v) | Some q \<Rightarrow> q # drop i (digests v)))"
proof (induction "pv_entry_count v - i" arbitrary: i p)
  case 0
  then show ?case using v by (auto simp: digest_slot_count_wf digest_slots_def split: option.split)
next
  case (Suc m)
  then have i: "i < pv_entry_count v" and m: "m = pv_entry_count v - Suc i" by simp_all
  moreover have "length (digests v) = pv_entry_count v"
    using v by (simp add: digest_slot_count_wf digest_slots_def)
  ultimately have d: "drop i (digests v) = digests v ! i # drop (Suc i) (digests v)"
    by (simp add: Cons_nth_drop_Suc)
  from Suc.prems(2) i digest_at_wf [OF v i] have
    p: "\<not> (case p of None \<Rightarrow> False | Some q \<Rightarrow> digests v ! i < q \<or> strict \<and> digests v ! i = q)"
    and rest: "check_omitted_loop strict v [Suc i..<pv_entry_count v] (Some (digests v ! i)) = Ok ()"
    by (simp_all add: upt_conv_Cons)
  from Suc.hyps(1) [OF m _ rest] i have IH: "sorted (digests v ! i # drop (Suc i) (digests v))"
    "strict \<longrightarrow> distinct (digests v ! i # drop (Suc i) (digests v))" by auto
  show ?case
  proof (cases p)
    case None
    then show ?thesis using IH d by simp
  next
    case (Some q)
    with p have q: "q \<le> digests v ! i" "strict \<longrightarrow> q < digests v ! i" by auto
    with IH have "\<forall>x \<in> set (drop (Suc i) (digests v)). q \<le> x \<and> (strict \<longrightarrow> q < x)" by force
    with Some IH d q show ?thesis by auto
  qed
qed

lemma omitted_digests_sorted:
  assumes v: "view_wf v" "omitted_keys (pv_layout v)" and ok: "check_digests E v = Ok ()"
  shows "sorted (digests v)" "is_digest_exact E \<Longrightarrow> distinct (digests v)"
proof -
  have e: "\<not> eytzinger (pv_layout v)" using v by (simp add: view_wf_def Let_def)
  from check_omitted_facts [OF v(1) e, of 0 "is_digest_exact E" None] ok v(2) e
  show "sorted (digests v)" "is_digest_exact E \<Longrightarrow> distinct (digests v)"
    by (auto simp: check_digests_def)
qed

lemma digest_column_sorted:
  fixes d :: u64
  assumes "sorted ds" shows "column_sorted (\<lambda>i. cmp (ds ! i) d) (length ds)"
  unfolding column_sorted_def cmp_iff
proof (intro allI impI)
  fix i j assume "i < j" "j < length ds"
  then have "ds ! i \<le> ds ! j" using assms by (simp add: sorted_iff_nth_mono)
  then show "(\<not> ds ! i < d \<longrightarrow> \<not> ds ! j < d) \<and> (d < ds ! i \<longrightarrow> d < ds ! j)"
    by (auto simp: not_less)
qed

lemma omitted_leaf_search:
  assumes v: "view_wf v" "omitted_keys (pv_layout v)" and ok: "check_digests E v = Ok ()"
  shows "leaf_search E v key d op
    = Ok (find (\<lambda>i. op_matches op (cmp (digests v ! i) d)) [0..<pv_entry_count v])"
proof -
  have e: "\<not> eytzinger (pv_layout v)" using v by (simp add: view_wf_def Let_def)
  then have n: "digest_slot_count v = pv_entry_count v" "inorder_digests v = digests v"
    using v by (simp_all add: digest_slot_count_wf digest_slots_def inorder_digests_def)
  obtain r where r: "lower_bound_rank v d = Ok r" "is_rank (digests v) d r"
    using lower_bound_rank_is_rank [OF v(1), of d] n by auto
  have s: "sorted (digests v)" by (rule omitted_digests_sorted(1) [OF v ok])
  have at: "compare_leaf E v i key d = Ok (cmp (digests v ! i) d)" if "i < pv_entry_count v" for i
    using digest_at_wf [OF v(1) e that] v(2) by (simp add: compare_leaf_def)
  have below: "cmp (digests v ! i) d = Less" if "i < min r (pv_entry_count v)" for i
  proof -
    have "digests v ! i \<le> digests v ! (r - 1)"
      using that r(2) n(1) by (intro sorted_nth_mono [OF s]) (auto simp: is_rank_def)
    also have "\<dots> < d" using that r(2) by (auto simp: is_rank_def)
    finally show ?thesis by simp
  qed
  show ?thesis unfolding leaf_search_column [OF r(1)]
    using digest_column_sorted [OF s, of d] below n(1)
    by (intro column_search_find) (auto simp: at)
qed

lemma int64_rebuilt:
  assumes "int64_decode_key_from_digest d out = Ok k"
  shows "length k = 8" "int64_digest k = Ok d"
proof -
  let ?i = "sint (d XOR SIGN_BIT)"
  have k: "k = i64_to_le ?i" using assms by (simp add: int64_decode_key_from_digest_def)
  then show l: "length k = 8" by simp
  have b: "- (2 ^ 63) \<le> ?i" "?i < 2 ^ 63"
    using sint_ge [of "d XOR SIGN_BIT"] sint_lt [of "d XOR SIGN_BIT"] by simp_all
  have "to_signed 64 (le_nat k) = ?i"
    unfolding k le_nat_to_le using to_signed_of_signed [of 64 ?i] b by simp
  then show "int64_digest k = Ok d"
    using l by (simp add: int64_digest_def int64_decode_def need_len_def xor.assoc)
qed

lemma int64_compare_digest:
  assumes "length a = 8" "length b = 8" "int64_digest a = Ok d" "int64_digest b = Ok e"
  shows "compare Int64Encoding a b = Ok (cmp d e)"
proof -
  have dig: "digest Int64Encoding a = Ok d" "digest Int64Encoding b = Ok e"
    using assms by (simp_all add: Int64Encoding_def)
  have ab: "a = b" if "d = e"
    using int64_digest_exact [OF assms(1,3), of "[]"] int64_digest_exact [OF assms(2,4), of "[]"] that by simp
  consider "d < e" | "d = e" | "e < d" by (rule linorder_cases)
  then show ?thesis
  proof cases
    case 1
    then show ?thesis using int64.digest_less_imp [OF assms(1,2) dig] by (simp add: cmp_def)
  next
    case 2
    then show ?thesis using ab int64.compare_Equal [OF assms(1,2)] by (simp add: cmp_def)
  next
    case 3
    then have c: "cmp d e = Greater" by simp
    show ?thesis unfolding c using 3 int64.digest_less_imp [OF assms(2,1) dig(2,1)]
        int64.compare_less_iff_greater [OF assms(2,1)] by simp
  qed
qed

definition rebuilt_keys :: "KeyEncoding \<Rightarrow> PageView \<Rightarrow> bytes list" where
  "rebuilt_keys E v = map (\<lambda>i. snd (projr (rebuild_key E v i []))) [0..<pv_entry_count v]"

lemma int64_rebuild_key:
  assumes v: "view_wf v" "omitted_keys (pv_layout v)" and i: "i < pv_entry_count v"
  shows "rebuild_key Int64Encoding v i buf = Ok (True, rebuilt_keys Int64Encoding v ! i)"
    "length (rebuilt_keys Int64Encoding v ! i) = 8"
    "int64_digest (rebuilt_keys Int64Encoding v ! i) = Ok (digests v ! i)"
proof -
  have e: "\<not> eytzinger (pv_layout v)" using v by (simp add: view_wf_def Let_def)
  obtain k where k: "int64_decode_key_from_digest (digests v ! i) b = Ok k" for b
    by (simp add: int64_decode_key_from_digest_def)
  have r: "rebuild_key Int64Encoding v i b = Ok (True, k)" for b
    using digest_at_wf [OF v(1) e i] v(2) k by (simp add: rebuild_key_def Int64Encoding_def)
  then have "rebuilt_keys Int64Encoding v ! i = k" using i by (simp add: rebuilt_keys_def)
  with r k [of "[]"] show "rebuild_key Int64Encoding v i buf = Ok (True, rebuilt_keys Int64Encoding v ! i)"
    "length (rebuilt_keys Int64Encoding v ! i) = 8"
    "int64_digest (rebuilt_keys Int64Encoding v ! i) = Ok (digests v ! i)"
    using int64_rebuilt by auto
qed

text \<open>The choice of a child, whatever the separators are compared by.\<close>

lemma child_index_column:
  assumes at: "\<And>i. i < pv_entry_count v \<Longrightarrow> compare_internal E v i key d = Ok (c i)"
    and c: "column_sorted c (pv_entry_count v)" and uniq: "\<And>i j. i < j \<Longrightarrow> j < pv_entry_count v \<Longrightarrow> c i \<noteq> Less \<Longrightarrow> c j = Greater"
    and r: "lower_bound_rank v d = Ok r" "\<And>i. i < min r (pv_entry_count v) \<Longrightarrow> c i = Less"
    and ex: "\<not> separators_are_inexact E v"
  shows "internal_child_index E v key d = Ok (length (filter (\<lambda>j. c j \<noteq> Greater) [0..<pv_entry_count v]) - 1, False)"
proof -
  let ?n = "pv_entry_count v"
  obtain i where i: "skip_while (\<lambda>i. compare_internal E v i key d) (\<lambda>c. c = Less) ?n (min r ?n) = Ok i"
    "min r ?n \<le> i" "i \<le> ?n" "\<forall>j. min r ?n \<le> j \<longrightarrow> j < i \<longrightarrow> c j = Less" "i < ?n \<longrightarrow> c i \<noteq> Less"
    using skip_while_spec [of ?n _ c "min r ?n" "\<lambda>c. c = Less", OF at] by auto
  have below: "c j = Less" if "j < i" for j using that i(4) r(2) [of j] by (cases "j < min r ?n") auto
  have "length (filter (\<lambda>j. c j \<noteq> Greater) [0..<?n]) = (if i < ?n \<and> c i = Equal then i + 1 else i)"
    using c i(3,5) below uniq by (intro searchable_encoding.child_index_count [OF int64.searchable_encoding_axioms]) auto
  then show ?thesis using r(1) i(1) at [of i] ex by (auto simp: internal_child_index_def Let_def)
qed

lemma omitted_rank_below:
  assumes v: "view_wf v" "omitted_keys (pv_layout v)" and ok: "check_digests E v = Ok ()"
    and r: "is_rank (digests v) d r" and i: "i < min r (pv_entry_count v)"
  shows "cmp (digests v ! i) d = Less"
proof -
  have e: "\<not> eytzinger (pv_layout v)" using v by (simp add: view_wf_def Let_def)
  have "digests v ! i \<le> digests v ! (r - 1)"
    using i r e v(1) by (intro sorted_nth_mono [OF omitted_digests_sorted(1) [OF v ok]])
      (auto simp: is_rank_def digest_slot_count_wf digest_slots_def)
  also have "\<dots> < d" using i r by (auto simp: is_rank_def)
  finally show ?thesis by simp
qed

lemma omitted_child_index:
  assumes v: "view_wf v" "omitted_keys (pv_layout v)" and ok: "check_digests E v = Ok ()" and ex: "is_digest_exact E"
  shows "internal_child_index E v key d
    = Ok (length (filter (\<lambda>j. cmp (digests v ! j) d \<noteq> Greater) [0..<pv_entry_count v]) - 1, False)"
proof -
  have e: "\<not> eytzinger (pv_layout v)" using v by (simp add: view_wf_def Let_def)
  then have n: "digest_slot_count v = pv_entry_count v" "inorder_digests v = digests v"
    using v by (simp_all add: digest_slot_count_wf digest_slots_def inorder_digests_def)
  obtain r where r: "lower_bound_rank v d = Ok r" "is_rank (digests v) d r"
    using lower_bound_rank_is_rank [OF v(1), of d] n by auto
  note s = omitted_digests_sorted(1) [OF v ok] omitted_digests_sorted(2) [OF v ok ex]
  have lt: "digests v ! i < digests v ! j" if "i < j" "j < pv_entry_count v" for i j
    using sorted_nth_mono [OF s(1), of i j] nth_eq_iff_index_eq [OF s(2), of i j] that n(1) by force
  show ?thesis
  proof (rule child_index_column [OF _ _ _ r(1)])
    show "compare_internal E v i key d = Ok (cmp (digests v ! i) d)" if "i < pv_entry_count v" for i
      using digest_at_wf [OF v(1) e that] v(2) by (simp add: compare_internal_def)
    show "column_sorted (\<lambda>i. cmp (digests v ! i) d) (pv_entry_count v)"
      using digest_column_sorted [OF s(1), of d] n(1) by simp
    show "cmp (digests v ! j) d = Greater" if "i < j" "j < pv_entry_count v" "cmp (digests v ! i) d \<noteq> Less" for i j
      using lt [OF that(1,2)] that(3) by simp
    show "cmp (digests v ! i) d = Less" if "i < min r (pv_entry_count v)" for i
      by (rule omitted_rank_below [OF v ok r(2) that])
  qed (use ex in \<open>simp add: separators_are_inexact_def\<close>)
qed

text \<open>With inexact digests the choice is the last separator strictly below, and an equal digest is
  reported.\<close>

lemma sorted_below_count:
  fixes d :: u64
  assumes s: "sorted ds" and i: "i \<le> length ds" "\<And>j. j < i \<Longrightarrow> ds ! j < d" "i < length ds \<Longrightarrow> d \<le> ds ! i"
  shows "length (filter (\<lambda>s. s < d) ds) = i" "d \<in> set ds \<longleftrightarrow> i < length ds \<and> ds ! i = d"
proof -
  have above: "d \<le> ds ! j" if "i \<le> j" "j < length ds" for j
    using sorted_nth_mono [OF s that] i(3) that by (meson le_less_trans order_trans)
  have "{j. j < length ds \<and> ds ! j < d} = {..<i}"
  proof (intro set_eqI iffI)
    fix j assume "j \<in> {j. j < length ds \<and> ds ! j < d}"
    then show "j \<in> {..<i}" using above [of j] by (auto simp: not_le [symmetric])
  qed (use i(1,2) in auto)
  then show "length (filter (\<lambda>s. s < d) ds) = i" by (simp add: length_filter_conv_card)
  show "d \<in> set ds \<longleftrightarrow> i < length ds \<and> ds ! i = d"
  proof
    assume "d \<in> set ds"
    then obtain j where j: "j < length ds" "ds ! j = d" by (auto simp: in_set_conv_nth)
    then have "i \<le> j" using i(2) [of j] by (auto simp: not_less [symmetric])
    then show "i < length ds \<and> ds ! i = d" using j sorted_nth_mono [OF s, of i j] i(3) by force
  qed auto
qed

lemma omitted_child_inexact:
  assumes v: "view_wf v" "omitted_keys (pv_layout v)" and ok: "check_digests E v = Ok ()" and ex: "\<not> is_digest_exact E"
  shows "internal_child_index E v key d = Ok (length (filter (\<lambda>s. s < d) (digests v)) - 1, d \<in> set (digests v))"
proof -
  let ?n = "pv_entry_count v" and ?c = "\<lambda>i. cmp (digests v ! i) d"
  have e: "\<not> eytzinger (pv_layout v)" using v by (simp add: view_wf_def Let_def)
  then have n: "digest_slot_count v = ?n" "inorder_digests v = digests v"
    using v by (simp_all add: digest_slot_count_wf digest_slots_def inorder_digests_def)
  obtain r where r: "lower_bound_rank v d = Ok r" "is_rank (digests v) d r"
    using lower_bound_rank_is_rank [OF v(1), of d] n by auto
  have at: "compare_internal E v i key d = Ok (?c i)" if "i < ?n" for i
    using digest_at_wf [OF v(1) e that] v(2) by (simp add: compare_internal_def)
  obtain i where i: "skip_while (\<lambda>i. compare_internal E v i key d) (\<lambda>c. c = Less) ?n (min r ?n) = Ok i"
    "i \<le> ?n" "\<forall>j. min r ?n \<le> j \<longrightarrow> j < i \<longrightarrow> ?c j = Less" "i < ?n \<longrightarrow> ?c i \<noteq> Less"
    using skip_while_spec [of ?n _ ?c "min r ?n" "\<lambda>c. c = Less", OF at] by auto
  have "?c j = Less" if "j < i" for j
    using that i(3) omitted_rank_below [OF v ok r(2), of j] by (cases "j < min r ?n") auto
  then have below: "digests v ! j < d" if "j < i" for j using that by (simp add: cmp_iff)
  note cnt = sorted_below_count [OF omitted_digests_sorted(1) [OF v ok], of i d]
  have "length (filter (\<lambda>s. s < d) (digests v)) = i" "d \<in> set (digests v) \<longleftrightarrow> i < ?n \<and> digests v ! i = d"
    using cnt below i(2,4) n(1) by (auto simp: cmp_iff not_less)
  then show ?thesis using r(1) i(1) at [of i] v(2) ex
    by (auto simp: internal_child_index_def Let_def separators_are_inexact_def cmp_iff)
qed

subsection \<open>A concrete page\<close>

text \<open>A classic leaf of the composite keys \<open>(a, 255)\<close> and \<open>(a, 256)\<close>, whose stored digests
  are those of the whole composite keys and are therefore not ascending.\<close>

definition composite_leaf :: bytes where
  "composite_leaf =
     [70, 0, 0, 0,  0, 0, 0, 0,  2, 0, 0, 0,
      255, 255, 255, 255, 255, 255, 255, 255,  255, 255, 255, 255, 255, 255, 255, 255,
      0, 0, 0, 0, 0, 0, 255, 97,  0, 0, 0, 0, 0, 1, 0, 97,
      60, 0, 0, 0, 5, 0, 0, 0,  65, 0, 0, 0, 5, 0, 0, 0,
      97, 255, 0, 0, 0,  97, 0, 1, 0, 0]"

definition composite_view :: PageView where
  "composite_view = \<lparr>pv_bytes = composite_leaf,
     pv_header = \<lparr>kind = Leaf,
       layout = \<lparr>eytzinger = False, compact_meta = False, omitted_keys = False\<rparr>,
       entry_count = 2, left_sibling = None, right_sibling = None\<rparr>,
     meta_base = 44, payload_base = 60\<rparr>"

lemma composite_parse: "page_parse composite_leaf = Ok composite_view"
  by (simp add: composite_leaf_def composite_view_def page_eval)

lemma composite_digest: "ascii_digest [97, 0, 1, 0, 0] = 0x6100010000000000"
  "ascii_digest [97, 255, 0, 0, 0] = 0x61FF000000000000" "ascii_digest [97] = 0x6100000000000000"
  by (simp_all add: ascii_digest_def)

lemma composite_entries:
  "digest_at composite_view 0 = Ok 0x61FF000000000000"
  "digest_at composite_view 1 = Ok 0x6100010000000000"
  "entry_key composite_view 0 = Ok [97, 255, 0, 0, 0]" "entry_key composite_view 1 = Ok [97, 0, 1, 0, 0]"
  by (simp_all add: digest_at_def entry_key_def leaf_entry_def leaf_meta_def leaf_key_def read_slice_def
      slice_get_def composite_view_def composite_leaf_def page_eval)

lemma composite_check: "check_digests (DuplicateKeyEncoding AsciiEncoding) composite_view = Ok ()"
proof -
  have n: "[0..<pv_entry_count composite_view] = [0, 1]" by (simp add: composite_view_def upt_rec)
  have l: "\<not> eytzinger (pv_layout composite_view)" "\<not> omitted_keys (pv_layout composite_view)"
    by (simp_all add: composite_view_def)
  show ?thesis unfolding check_digests_def n using l composite_entries
    by (simp add: check_entry_def check_stored_key_def check_ascending_def DuplicateKeyEncoding_def
        AsciiEncoding_def default_validate_key_def dup_accepts_digest_def dup_digest_def dup_compare_def
        dup_split_def RID_LEN_def to_signed_def composite_digest cmp_def)
qed

lemma composite_keys: "page_keys composite_view = [[97, 255, 0, 0, 0], [97, 0, 1, 0, 0]]"
  using composite_entries by (simp add: page_keys_def composite_view_def upt_rec)

text \<open>An internal page with the separators \<open>a\<close> and \<open>m\<close>.\<close>

definition branch_page :: bytes where
  "branch_page =
     [74, 0, 0, 0,  1, 0, 0, 0,  2, 0, 0, 0,
      255, 255, 255, 255, 255, 255, 255, 255,  255, 255, 255, 255, 255, 255, 255, 255,
      0, 0, 0, 0, 0, 0, 0, 97,  0, 0, 0, 0, 0, 0, 0, 109,
      56, 0, 0, 0, 1, 0,  65, 0, 0, 0, 1, 0,
      97, 1, 0, 0, 0, 0, 0, 0, 0,  109, 2, 0, 0, 0, 0, 0, 0, 0]"

definition branch_view :: PageView where
  "branch_view = \<lparr>pv_bytes = branch_page,
     pv_header = \<lparr>kind = Internal,
       layout = \<lparr>eytzinger = False, compact_meta = False, omitted_keys = False\<rparr>,
       entry_count = 2, left_sibling = None, right_sibling = None\<rparr>,
     meta_base = 44, payload_base = 56\<rparr>"

lemma branch_parse: "page_parse branch_page = Ok branch_view"
  by (simp add: branch_page_def branch_view_def page_eval)

lemma branch_entries:
  "digest_at branch_view 0 = Ok 0x6100000000000000" "digest_at branch_view 1 = Ok 0x6D00000000000000"
  "entry_key branch_view 0 = Ok [97]" "entry_key branch_view 1 = Ok [109]"
  by (simp_all add: digest_at_def entry_key_def internal_entry_def internal_meta_def internal_key_def
      read_slice_def slice_get_def branch_view_def branch_page_def page_eval)

lemma branch_keys: "page_keys branch_view = [[97], [109]]"
  using branch_entries by (simp add: page_keys_def branch_view_def upt_rec)

lemma branch_check: "check_digests AsciiEncoding branch_view = Ok ()"
proof -
  have n: "[0..<pv_entry_count branch_view] = [0, 1]" by (simp add: branch_view_def upt_rec)
  have l: "\<not> eytzinger (pv_layout branch_view)" "\<not> omitted_keys (pv_layout branch_view)"
    by (simp_all add: branch_view_def)
  show ?thesis unfolding check_digests_def n using l branch_entries
    by (simp add: check_entry_def check_stored_key_def check_ascending_def AsciiEncoding_def
        default_validate_key_def default_accepts_digest_def ascii_digest_def cmp_def)
qed

text \<open>A leaf of the integer keys 5 and 9 that stores no key bytes.\<close>

definition int_page :: bytes where
  "int_page =
     [52, 0, 0, 0,  0, 12, 0, 0,  2, 0, 0, 0,
      255, 255, 255, 255, 255, 255, 255, 255,  255, 255, 255, 255, 255, 255, 255, 255,
      5, 0, 0, 0, 0, 0, 0, 128,  9, 0, 0, 0, 0, 0, 0, 128,
      50, 0, 51, 0, 52, 0,  1, 2]"

definition int_view :: PageView where
  "int_view = \<lparr>pv_bytes = int_page,
     pv_header = \<lparr>kind = Leaf,
       layout = \<lparr>eytzinger = False, compact_meta = True, omitted_keys = True\<rparr>,
       entry_count = 2, left_sibling = None, right_sibling = None\<rparr>,
     meta_base = 44, payload_base = 50\<rparr>"

lemma int_parse: "page_parse int_page = Ok int_view"
  by (simp add: int_page_def int_view_def page_eval)

lemma int_digests: "digest_at int_view 0 = Ok 0x8000000000000005" "digest_at int_view 1 = Ok 0x8000000000000009"
  by (simp_all add: digest_at_def int_view_def int_page_def page_eval)

lemma int_check: "check_digests Int64Encoding int_view = Ok ()"
proof -
  have n: "[0..<pv_entry_count int_view] = [0, 1]" by (simp add: int_view_def upt_rec)
  have l: "\<not> eytzinger (pv_layout int_view)" "omitted_keys (pv_layout int_view)"
    by (simp_all add: int_view_def)
  show ?thesis unfolding check_digests_def n using l int_digests
    by (simp add: rebuilt_key_capacity_def Int64Encoding_def)
qed

lemma int_rebuild:
  "rebuild_key Int64Encoding int_view 0 [] = Ok (True, [5, 0, 0, 0, 0, 0, 0, 0])"
  "rebuild_key Int64Encoding int_view 1 [] = Ok (True, [9, 0, 0, 0, 0, 0, 0, 0])"
proof -
  have "omitted_keys (pv_layout int_view)" by (simp add: int_view_def)
  then show "rebuild_key Int64Encoding int_view 0 [] = Ok (True, [5, 0, 0, 0, 0, 0, 0, 0])"
    "rebuild_key Int64Encoding int_view 1 [] = Ok (True, [9, 0, 0, 0, 0, 0, 0, 0])"
    using int_digests by (simp_all add: rebuild_key_def Int64Encoding_def int64_decode_key_from_digest_def
        SIGN_BIT_def i64_to_le_def of_signed_def le_bytes_numeral)
qed

text \<open>Of the two digest conventions the check accepts on a non-unique index page, the digests of
  whole composite keys do not follow the key order where the record id carries; this is why
  \<open>searchable_encoding\<close> asks for less than sorted digests.\<close>

lemma whole_key_digests_fall:
  "let D = DuplicateKeyEncoding AsciiEncoding; a = [97, 255, 0, 0, 0]; b = [97, 0, 1, 0, 0] in
   compare D a b = Ok Less \<and> accepts_digest D a (ascii_digest a) = Ok True
   \<and> accepts_digest D b (ascii_digest b) = Ok True \<and> ascii_digest b < ascii_digest a"
  by (simp add: DuplicateKeyEncoding_def AsciiEncoding_def dup_accepts_digest_def dup_digest_def
      dup_compare_def dup_split_def RID_LEN_def to_signed_def composite_digest cmp_def)

subsection \<open>Properties\<close>

text \<open>C6: under any key encoding that keeps the documented contract, on a parsed leaf that
  stores its keys and passes the digest check, each of the three searches returns the
  first entry, in page order, whose key compares to the searched key as the operation
  asks, and reports no entry exactly when there is none.  The stored digests need not be
  sorted.\<close>

theorem leaf_search_first_match:
  assumes "page_parse bs = Ok v" "pv_kind v = Leaf" "\<not> omitted_keys (pv_layout v)"
    "searchable_encoding E valid" "check_digests E v = Ok ()" "valid key" "digest E key = Ok d"
  shows "leaf_search E v key d op
    = Ok (find (\<lambda>i. \<exists>c. compare E (page_keys v ! i) key = Ok c \<and> op_matches op c)
        [0..<pv_entry_count v])"
proof -
  note L = searchable_encoding.axioms(1) [OF assms(4)]
  have wf: "view_wf v" using page_parse_wf [OF assms(1)] ..
  have "compare E (page_keys v ! i) key = Ok (searchable_encoding.order_of E (page_keys v ! i) key)"
    if "i < pv_entry_count v" for i
    using searchable_encoding.check_digests_sound(1) [OF assms(4) wf assms(3,5)] that
    by (intro searchable_encoding.compare_order_of [OF assms(4)] searchable_encoding.ascending_valid [OF assms(4)] assms(6)) simp_all
  then show ?thesis
    unfolding searchable_encoding.leaf_search_correct [OF assms(4) wf assms(3,2,5-7)]
    by (auto intro!: find_cong)
qed

theorem leaf_search_first_match_witness:
  "leaf_search (DuplicateKeyEncoding AsciiEncoding) composite_view (dup_encode [97] 256)
     0x6100000000000000 OpEqual = Ok (Some 1)"
proof -
  let ?D = "DuplicateKeyEncoding AsciiEncoding"
  have split: "dup_split (dup_encode [97] 256) = Ok ([97], 256)" by (simp add: dup_split_iff)
  have key: "dup_encode [97] 256 = [97, 0, 1, 0, 0]"
    by (simp add: dup_encode_def i32_to_le_def of_signed_def le_bytes_numeral)
  have dig: "digest ?D (dup_encode [97] 256) = Ok 0x6100000000000000"
    using split by (simp add: DuplicateKeyEncoding_def dup_digest_def AsciiEncoding_def composite_digest)
  have "leaf_search ?D composite_view (dup_encode [97] 256) 0x6100000000000000 OpEqual
    = Ok (find (\<lambda>i. \<exists>c. compare ?D (page_keys composite_view ! i) (dup_encode [97] 256) = Ok c
        \<and> op_matches OpEqual c) [0..<pv_entry_count composite_view])"
    by (rule leaf_search_first_match [OF composite_parse _ _ dup_ascii.searchable_encoding_axioms
          composite_check _ dig])
      (simp_all add: composite_view_def dup_valid_def split)
  then show ?thesis
    by (simp add: composite_keys key) (simp add: composite_view_def upt_rec op_matches_def
        DuplicateKeyEncoding_def dup_compare_def dup_split_def RID_LEN_def to_signed_def AsciiEncoding_def cmp_def)
qed

text \<open>C7: the child the descent takes on a checked internal page.  Where the page stores its
  separators it is the child of the last separator at or below the key, and the first child
  when all of them are above it.  Where the page stores digests only and the encoding's digests are exact,
  it is the child of the last digest at or below the key's.  Where they are not exact it is
  the child of the last digest strictly below the key's, since a row with the key may end the
  child before, and the choice is marked as uncertain exactly when some digest equals the key's.\<close>

theorem internal_child_choice:
  assumes "page_parse bs = Ok v" "pv_kind v = Internal"
    "searchable_encoding E valid" "check_digests E v = Ok ()" "valid key" "digest E key = Ok d"
  shows "internal_child_index E v key d = Ok (
      if \<not> omitted_keys (pv_layout v) then (length (filter (\<lambda>k. compare E k key \<noteq> Ok Greater) (page_keys v)) - 1, False)
      else if is_digest_exact E then (length (filter (\<lambda>s. s \<le> d) (digests v)) - 1, False)
      else (length (filter (\<lambda>s. s < d) (digests v)) - 1, d \<in> set (digests v)))"
proof -
  have wf: "view_wf v" using page_parse_wf [OF assms(1)] ..
  have "length (filter (\<lambda>j. cmp (digests v ! j) d \<noteq> Greater) [0..<pv_entry_count v]) = length (filter (\<lambda>s. s \<le> d) (digests v))"
    if "omitted_keys (pv_layout v)"
  proof -
    have "digest_slot_count v = pv_entry_count v"
      using wf that by (simp add: digest_slot_count_wf digest_slots_def) (simp add: view_wf_def Let_def)
    then have "digests v = map ((!) (digests v)) [0..<pv_entry_count v]" using map_nth [of "digests v"] by simp
    from arg_cong [OF this, of "\<lambda>ds. length (filter (\<lambda>s. s \<le> d) ds)"] show ?thesis
      unfolding filter_map length_map by (simp add: o_def cmp_iff not_less)
  qed
  note omitted = this
  show ?thesis
  proof (cases "omitted_keys (pv_layout v)")
    case False
    then show ?thesis using searchable_encoding.internal_child_correct [OF assms(3) wf False assms(2,4-6)] by simp
  next
    case True
    show ?thesis
    proof (cases "is_digest_exact E")
      case ex: True
      show ?thesis using omitted_child_index [OF wf True assms(4) ex, of key d] omitted [OF True] True ex by simp
    next
      case False
      then show ?thesis using omitted_child_inexact [OF wf True assms(4) False, of key d] True by simp
    qed
  qed
qed

theorem internal_child_choice_witness:
  "internal_child_index AsciiEncoding branch_view [98] 0x6200000000000000 = Ok (0, False)"
proof -
  have dig: "digest AsciiEncoding [98] = Ok 0x6200000000000000"
    by (simp add: AsciiEncoding_def ascii_digest_def)
  have l: "pv_kind branch_view = Internal" "\<not> omitted_keys (pv_layout branch_view)" by (simp_all add: branch_view_def)
  have "internal_child_index AsciiEncoding branch_view [98] 0x6200000000000000
    = Ok (length (filter (\<lambda>k. compare AsciiEncoding k [98] \<noteq> Ok Greater) (page_keys branch_view)) - 1, False)"
    using internal_child_choice [OF branch_parse l(1) ascii.searchable_encoding_axioms branch_check _ dig] l(2) by simp
  then show ?thesis by (simp add: branch_keys AsciiEncoding_def cmp_def)
qed

text \<open>C14: on a checked leaf of integer keys that stores no key bytes, searching the digests
  gives the same answer as searching the keys rebuilt from them.\<close>

theorem omitted_leaf_search_keys:
  assumes "page_parse bs = Ok v" "omitted_keys (pv_layout v)" "check_digests Int64Encoding v = Ok ()"
    "length key = 8" "digest Int64Encoding key = Ok d"
  shows "leaf_search Int64Encoding v key d op
    = Ok (find (\<lambda>i. \<exists>k c. rebuild_key Int64Encoding v i [] = Ok (True, k)
          \<and> compare Int64Encoding k key = Ok c \<and> op_matches op c) [0..<pv_entry_count v])"
proof -
  have wf: "view_wf v" using page_parse_wf [OF assms(1)] ..
  have d: "int64_digest key = Ok d" using assms(5) by (simp add: Int64Encoding_def)
  have "compare Int64Encoding (rebuilt_keys Int64Encoding v ! i) key = Ok (cmp (digests v ! i) d)"
    if "i < pv_entry_count v" for i
    by (rule int64_compare_digest [OF int64_rebuild_key(2) [OF wf assms(2) that] assms(4)
          int64_rebuild_key(3) [OF wf assms(2) that] d])
  then show ?thesis
    unfolding omitted_leaf_search [OF wf assms(2,3)]
    using int64_rebuild_key(1) [OF wf assms(2)] by (auto intro!: find_cong)
qed

theorem omitted_leaf_search_keys_witness:
  "leaf_search Int64Encoding int_view [9, 0, 0, 0, 0, 0, 0, 0] 0x8000000000000009 OpEqual = Ok (Some 1)"
proof -
  let ?key = "[9, 0, 0, 0, 0, 0, 0, 0] :: bytes"
  have dig: "digest Int64Encoding ?key = Ok 0x8000000000000009"
    by (simp add: Int64Encoding_def int64_digest_def int64_decode_def need_len_def to_signed_def SIGN_BIT_def)
  have "leaf_search Int64Encoding int_view ?key 0x8000000000000009 OpEqual
    = Ok (find (\<lambda>i. \<exists>k c. rebuild_key Int64Encoding int_view i [] = Ok (True, k)
          \<and> compare Int64Encoding k ?key = Ok c \<and> op_matches OpEqual c) [0..<pv_entry_count int_view])"
    by (rule omitted_leaf_search_keys [OF int_parse _ int_check _ dig]) (simp_all add: int_view_def)
  moreover have "[0..<pv_entry_count int_view] = [0, 1]" by (simp add: int_view_def upt_rec)
  moreover have "compare Int64Encoding [5, 0, 0, 0, 0, 0, 0, 0] ?key = Ok Less"
    "compare Int64Encoding ?key ?key = Ok Equal"
    by (simp_all add: Int64Encoding_def int64_compare_def int64_decode_def need_len_def to_signed_def cmp_def)
  ultimately show ?thesis using int_rebuild by (simp add: op_matches_def)
qed

text \<open>C13: the check of an Eytzinger page, which walks the tree without a stack, terminates
  within the number of slots and accepts exactly what one pass over the entries and
  padding in sorted order accepts, with the same error otherwise.\<close>

theorem eytzinger_check_in_order:
  assumes "page_parse bs = Ok v" "eytzinger (pv_layout v)"
  shows "check_eytzinger_digests E v = check_list E v (inorder_digests v) 0 None"
  using check_eytzinger_list page_parse_wf assms by blast

theorem eytzinger_check_in_order_witness:
  "check_eytzinger_digests AsciiEncoding sample_view
    = check_list AsciiEncoding sample_view [10, 20, - 1] 0 None"
  using eytzinger_check_in_order [OF sample_parse, of AsciiEncoding] by (simp add: sample_inorder) (simp add: sample_view_def)

end
