(* ===== verification/Btree.thy ===== *)
theory Btree
  imports Pages Btree_Page
begin

text \<open>
  Searching a whole tree (\<^verbatim>\<open>crates/drydb/src/btree.rs\<close>): the descent from the root, the walk along
  the leaves, lookups, the ends of the tree and the lookup that only uses cached pages.  The
  operations take the store's operations as an argument and thread its state.
\<close>

record Tree =
  tree_root :: "page_ordinal option"
  tree_encoding :: KeyEncoding
  tree_id :: nat
  tree_validate_digests :: bool

subsection \<open>Pages of a tree\<close>

definition check_page :: "'s StoreOps \<Rightarrow> Tree \<Rightarrow> PagePin \<Rightarrow> ('s, unit) op" where
  "check_page S T pin s =
     (if \<not> tree_validate_digests T \<or> st_digests_checked_by S pin (tree_id T) s then Some (Ok (), s)
      else op_bind (op_lift (pin_view pin)) (\<lambda>v.
           op_bind (op_lift (map_err (at_page (pin_ordinal pin)) (check_digests (tree_encoding T) v))) (\<lambda>_ s'.
           Some (Ok (), st_mark_digests_checked S pin (tree_id T) s'))) s)"

definition tree_page :: "'s StoreOps \<Rightarrow> Tree \<Rightarrow> page_ordinal \<Rightarrow> ('s, PagePin) op" where
  "tree_page S T ordinal =
     op_bind (st_page S ordinal) (\<lambda>pin. op_bind (check_page S T pin) (\<lambda>_. op_return pin))"

definition root_page :: "'s StoreOps \<Rightarrow> Tree \<Rightarrow> ('s, PagePin option) op" where
  "root_page S T s =
     (case tree_root T of
        None \<Rightarrow> Some (Ok None, s)
      | Some r \<Rightarrow>
          (case st_retained_root S (tree_id T) s of
             (Some pin, s') \<Rightarrow> Some (Ok (Some pin), s')
           | (None, s') \<Rightarrow>
               op_bind (tree_page S T r) (\<lambda>pin t.
                 Some (Ok (Some pin), if st_has_headroom_for S (pin_len pin) t
                                 then st_retain_root S (tree_id T) pin t else t)) s'))"

definition root_page_cached :: "'s StoreOps \<Rightarrow> Tree \<Rightarrow> ('s, PagePin option) op" where
  "root_page_cached S T s =
     (case st_retained_root S (tree_id T) s of
        (Some pin, s') \<Rightarrow> Some (Ok (Some pin), s')
      | (None, s') \<Rightarrow>
          (case tree_root T of
             None \<Rightarrow> Some (Ok None, s')
           | Some r \<Rightarrow>
               (case st_page_cached S r s' of
                  (None, t) \<Rightarrow> Some (Ok None, t)
                | (Some pin, t) \<Rightarrow> op_bind (check_page S T pin) (\<lambda>_. op_return (Some pin)) t)))"

definition leaf_page :: "'s StoreOps \<Rightarrow> Tree \<Rightarrow> page_ordinal \<Rightarrow> ('s, PagePin) op" where
  "leaf_page S T ordinal =
     op_bind (tree_page S T ordinal) (\<lambda>pin.
     op_bind (op_lift (pin_view pin)) (\<lambda>v.
     if pv_kind v \<noteq> Leaf then op_fail (at_page ordinal corrupt) else op_return pin))"

definition step_sibling ::
  "'s StoreOps \<Rightarrow> Tree \<Rightarrow> page_ordinal \<Rightarrow> page_ordinal \<Rightarrow> bool \<Rightarrow> ('s, PagePin) op" where
  "step_sibling S T from_page to_page ascending =
     op_bind (leaf_page S T to_page) (\<lambda>pin.
     op_bind (op_lift (pin_view pin)) (\<lambda>v.
     if (if ascending then left_sibling (pv_header v) else right_sibling (pv_header v)) \<noteq> Some from_page
     then op_fail (at_page to_page corrupt) else op_return pin))"

subsection \<open>Descents\<close>

definition take_page :: "'s StoreOps \<Rightarrow> Tree \<Rightarrow> PagePin option \<Rightarrow> page_ordinal \<Rightarrow> ('s, PagePin) op" where
  "take_page S T current ordinal =
     (case current of Some pin \<Rightarrow> op_return pin | None \<Rightarrow> tree_page S T ordinal)"

definition child_of :: "PageView \<Rightarrow> nat \<Rightarrow> page_ordinal \<Rightarrow> page_ordinal result" where
  "child_of v i ordinal =
     and_then (internal_entry v i) (\<lambda>e.
     if ie_child e = ordinal then Err (at_page ordinal corrupt) else Ok (ie_child e))"

fun descend_loop ::
  "'s StoreOps \<Rightarrow> Tree \<Rightarrow> bytes \<Rightarrow> u64 \<Rightarrow> nat \<Rightarrow> page_ordinal \<Rightarrow> PagePin option \<Rightarrow> bool \<Rightarrow> ('s, PagePin \<times> bool) op" where
  "descend_loop S T key d 0 ordinal current conservative = op_fail corrupt"
| "descend_loop S T key d (Suc n) ordinal current conservative =
     op_bind (take_page S T current ordinal) (\<lambda>pin.
     op_bind (op_lift (pin_view pin)) (\<lambda>v.
     case pv_kind v of
       Leaf \<Rightarrow> op_return (pin, conservative)
     | Internal \<Rightarrow>
         if pv_entry_count v = 0 then op_fail (at_page ordinal corrupt)
         else op_bind (op_lift (internal_child_index (tree_encoding T) v key d)) (\<lambda>(index, inexact).
              op_bind (op_lift (child_of v index ordinal)) (\<lambda>child.
              descend_loop S T key d n child None (conservative \<or> inexact)))))"

definition descend :: "'s StoreOps \<Rightarrow> Tree \<Rightarrow> bytes \<Rightarrow> u64 \<Rightarrow> ('s, (PagePin \<times> bool) option) op" where
  "descend S T key d =
     op_bind (root_page S T) (\<lambda>r.
     case r of
       None \<Rightarrow> op_return None
     | Some pin \<Rightarrow>
         op_bind (descend_loop S T key d (st_max_tree_depth S) (pin_ordinal pin) (Some pin) False)
           (\<lambda>x. op_return (Some x)))"

fun edge_loop ::
  "'s StoreOps \<Rightarrow> Tree \<Rightarrow> bool \<Rightarrow> nat \<Rightarrow> page_ordinal \<Rightarrow> PagePin option \<Rightarrow> ('s, (PagePin \<times> nat) option) op" where
  "edge_loop S T at_left 0 ordinal current = op_fail corrupt"
| "edge_loop S T at_left (Suc n) ordinal current =
     op_bind (take_page S T current ordinal) (\<lambda>pin.
     op_bind (op_lift (pin_view pin)) (\<lambda>v.
     let count = pv_entry_count v in
     case pv_kind v of
       Leaf \<Rightarrow> if count = 0 then op_return None
               else op_return (Some (pin, if at_left then 0 else count - 1))
     | Internal \<Rightarrow>
         if count = 0 then op_fail (at_page ordinal corrupt)
         else op_bind (op_lift (child_of v (if at_left then 0 else count - 1) ordinal)) (\<lambda>child.
              edge_loop S T at_left n child None)))"

definition edge_leaf :: "'s StoreOps \<Rightarrow> Tree \<Rightarrow> bool \<Rightarrow> ('s, (PagePin \<times> nat) option) op" where
  "edge_leaf S T at_left =
     op_bind (root_page S T) (\<lambda>r.
     case r of
       None \<Rightarrow> op_return None
     | Some pin \<Rightarrow> edge_loop S T at_left (st_max_tree_depth S) (pin_ordinal pin) (Some pin))"

definition min_leaf :: "'s StoreOps \<Rightarrow> Tree \<Rightarrow> ('s, (PagePin \<times> nat) option) op" where
  "min_leaf S T = edge_leaf S T True"

definition max_leaf :: "'s StoreOps \<Rightarrow> Tree \<Rightarrow> ('s, (PagePin \<times> nat) option) op" where
  "max_leaf S T = edge_leaf S T False"

definition ends_at :: "'s StoreOps \<Rightarrow> Tree \<Rightarrow> page_ordinal \<Rightarrow> bool \<Rightarrow> ('s, bool) op" where
  "ends_at S T ordinal ascending =
     op_bind (if ascending then max_leaf S T else min_leaf S T) (\<lambda>edge.
     op_return (case edge of Some (pin, _) \<Rightarrow> pin_ordinal pin = ordinal | None \<Rightarrow> True))"

subsection \<open>Search\<close>

datatype 'a turn = Done 'a | Step page_ordinal

text \<open>One leaf of a search: its answer, or the sibling to go on with.\<close>

definition search_turn ::
  "'s StoreOps \<Rightarrow> Tree \<Rightarrow> bytes \<Rightarrow> u64 \<Rightarrow> SearchOp \<Rightarrow> bool \<Rightarrow> PagePin \<Rightarrow> ('s, (PagePin \<times> nat) option turn) op" where
  "search_turn S T key d op conservative pin =
     op_bind (op_lift (pin_view pin)) (\<lambda>v.
     op_bind (op_lift (leaf_search (tree_encoding T) v key d op)) (\<lambda>found.
     case found of
       Some i \<Rightarrow> op_return (Done (Some (pin, i)))
     | None \<Rightarrow>
         op_bind (op_lift (if op = OpEqual then
                     (if conservative then and_then (ends_below (tree_encoding T) v key d) (\<lambda>b. Ok (\<not> b)) else Ok True)
                   else Ok False)) (\<lambda>stop.
         if stop then op_return (Done None)
         else case right_sibling (pv_header v) of
           Some right \<Rightarrow> op_return (Step right)
         | None \<Rightarrow>
             op_bind (ends_at S T (pin_ordinal pin) True) (\<lambda>ends.
             if \<not> ends then op_fail (at_page (pin_ordinal pin) corrupt) else op_return (Done None)))))"

fun search_loop ::
  "'s StoreOps \<Rightarrow> Tree \<Rightarrow> bytes \<Rightarrow> u64 \<Rightarrow> SearchOp \<Rightarrow> bool \<Rightarrow> nat \<Rightarrow> PagePin \<Rightarrow> ('s, (PagePin \<times> nat) option) op" where
  "search_loop S T key d op conservative 0 pin =
     op_bind (search_turn S T key d op conservative pin) (\<lambda>t.
     case t of Done r \<Rightarrow> op_return r | Step right \<Rightarrow> op_fail corrupt)"
| "search_loop S T key d op conservative (Suc steps_left) pin =
     op_bind (search_turn S T key d op conservative pin) (\<lambda>t.
     case t of
       Done r \<Rightarrow> op_return r
     | Step right \<Rightarrow>
         op_bind (step_sibling S T (pin_ordinal pin) right True) (\<lambda>next_pin.
         search_loop S T key d op conservative steps_left next_pin))"

definition search :: "'s StoreOps \<Rightarrow> Tree \<Rightarrow> bytes \<Rightarrow> SearchOp \<Rightarrow> ('s, (PagePin \<times> nat) option) op" where
  "search S T key op =
     op_bind (op_lift (digest (tree_encoding T) key)) (\<lambda>d.
     op_bind (descend S T key d) (\<lambda>r.
     case r of
       None \<Rightarrow> op_return None
     | Some (pin, conservative) \<Rightarrow>
         search_loop S T key d op conservative (saturating_add (st_page_count S) 1) pin))"

definition tree_find :: "'s StoreOps \<Rightarrow> Tree \<Rightarrow> bytes \<Rightarrow> ('s, (PagePin \<times> nat) option) op" where
  "tree_find S T key = search S T key OpEqual"

subsection \<open>Values\<close>

definition blob :: "'s StoreOps \<Rightarrow> page_ordinal \<Rightarrow> ('s, PagePin \<times> nat \<times> nat) op" where
  "blob S ordinal = op_bind (st_page S ordinal) (\<lambda>pin. op_lift (blob_from_pin pin))"

definition resolve_value :: "'s StoreOps \<Rightarrow> PagePin \<Rightarrow> LeafEntry \<Rightarrow> ('s, PagePin \<times> nat \<times> nat) op" where
  "resolve_value S leaf e =
     (case le_value e of
        Inline offset len \<Rightarrow> op_return (leaf, offset, offset + len)
      | Overflow page \<Rightarrow> blob S page)"

definition resolve_value_cached ::
  "'s StoreOps \<Rightarrow> PagePin \<Rightarrow> LeafEntry \<Rightarrow> ('s, (PagePin \<times> nat \<times> nat) option) op" where
  "resolve_value_cached S leaf e s =
     (case le_value e of
        Inline offset len \<Rightarrow> Some (Ok (Some (leaf, offset, offset + len)), s)
      | Overflow page \<Rightarrow>
          (case st_page_cached S page s of
             (None, s') \<Rightarrow> Some (Ok None, s')
           | (Some pin, s') \<Rightarrow> Some (and_then (blob_from_pin pin) (\<lambda>x. Ok (Some x)), s')))"

subsection \<open>Cached pages only\<close>

record CachedWalk =
  cw_ordinal :: page_ordinal
  cw_current :: "PagePin option"
  cw_conservative :: bool
  cw_steps_left :: nat
  cw_depth_left :: nat
  cw_descending :: bool

datatype 'a progress = Stop 'a | Go CachedWalk

text \<open>The rest of a turn, with the page in hand.\<close>

definition cached_visit ::
  "Tree \<Rightarrow> bytes \<Rightarrow> u64 \<Rightarrow> CachedWalk \<Rightarrow> PagePin \<Rightarrow> (PagePin \<times> nat) option option progress result" where
  "cached_visit T key d c pin =
     and_then (pin_view pin) (\<lambda>v.
     case pv_kind v of
       Leaf \<Rightarrow>
         and_then (leaf_search (tree_encoding T) v key d OpEqual) (\<lambda>found.
         case found of
           Some i \<Rightarrow> Ok (Stop (Some (Some (pin, i))))
         | None \<Rightarrow>
             and_then (if cw_conservative c then ends_below (tree_encoding T) v key d else Ok False) (\<lambda>go_on.
             if \<not> go_on then Ok (Stop (Some None))
             else case right_sibling (pv_header v) of
               None \<Rightarrow> Ok (Stop (Some None))
             | Some right \<Rightarrow>
                 if cw_steps_left c = 0 then Err corrupt
                 else Ok (Go (c\<lparr>cw_ordinal := right, cw_current := None, cw_descending := False,
                                cw_steps_left := cw_steps_left c - 1\<rparr>))))
     | Internal \<Rightarrow>
         if pv_entry_count v = 0 then Err (at_page (cw_ordinal c) corrupt)
         else and_then (internal_child_index (tree_encoding T) v key d) (\<lambda>(index, inexact).
              and_then (child_of v index (cw_ordinal c)) (\<lambda>child.
              Ok (Go (c\<lparr>cw_ordinal := child, cw_current := None,
                        cw_conservative := cw_conservative c \<or> inexact\<rparr>)))))"

definition cached_turn ::
  "'s StoreOps \<Rightarrow> Tree \<Rightarrow> bytes \<Rightarrow> u64 \<Rightarrow> CachedWalk \<Rightarrow> ('s, (PagePin \<times> nat) option option progress) op" where
  "cached_turn S T key d c s =
     (if cw_descending c \<and> cw_depth_left c = 0 then Some (Err corrupt, s)
      else let c' = (if cw_descending c then c\<lparr>cw_depth_left := cw_depth_left c - 1\<rparr> else c) in
      case cw_current c of
        Some pin \<Rightarrow> Some (cached_visit T key d c' pin, s)
      | None \<Rightarrow>
          (case st_page_cached S (cw_ordinal c) s of
             (None, s') \<Rightarrow> Some (Ok (Stop None), s')
           | (Some pin, s') \<Rightarrow>
               op_bind (check_page S T pin) (\<lambda>_. op_lift (cached_visit T key d c' pin)) s'))"

text \<open>The loop has no bound that every turn consumes; not ending is \<open>None\<close>.\<close>

partial_function (option) cached_loop ::
  "'s StoreOps \<Rightarrow> Tree \<Rightarrow> bytes \<Rightarrow> u64 \<Rightarrow> CachedWalk \<Rightarrow> ('s, (PagePin \<times> nat) option option) op" where
  "cached_loop S T key d c s =
     (case cached_turn S T key d c s of
        None \<Rightarrow> None
      | Some (Inl e, s') \<Rightarrow> Some (Err e, s')
      | Some (Inr (Stop r), s') \<Rightarrow> Some (Ok r, s')
      | Some (Inr (Go c'), s') \<Rightarrow> cached_loop S T key d c' s')"

declare cached_loop.simps [code]

definition find_cached ::
  "'s StoreOps \<Rightarrow> Tree \<Rightarrow> bytes \<Rightarrow> ('s, (PagePin \<times> nat) option option) op" where
  "find_cached S T key s =
     (if tree_root T = None then Some (Ok (Some None), s)
      else case digest (tree_encoding T) key of
        Inl e \<Rightarrow> Some (Err e, s)
      | Inr d \<Rightarrow>
          (case root_page_cached S T s of
             None \<Rightarrow> None
           | Some (Inl e, s') \<Rightarrow> Some (Err e, s')
           | Some (Inr None, s') \<Rightarrow> Some (Ok None, s')
           | Some (Inr (Some pin), s') \<Rightarrow>
               cached_loop S T key d
                 \<lparr>cw_ordinal = pin_ordinal pin, cw_current = Some pin, cw_conservative = False,
                  cw_steps_left = saturating_add (st_page_count S) 1,
                  cw_depth_left = st_max_tree_depth S, cw_descending = True\<rparr> s'))"

end
