(* ===== verification/Tree_Search.thy ===== *)
theory Tree_Search
  imports Tree_Build Btree
begin

text \<open>
  Searching a tree that the tree writer built (\<^verbatim>\<open>crates/drydb/src/btree.rs\<close> on files of
  \<^verbatim>\<open>crates/drydb/src/builder/tree.rs\<close>).  \<open>indexable_encoding\<close> is what an encoding has to promise; the
  built-in encodings and their composite forms do.  \<open>tree_store\<close> puts such an encoding over a store
  that keeps the contract \<open>page_store\<close>, and \<open>on_disk\<close> says that the store holds the pages of a
  built tree.  Then the descent reaches the leaf the key belongs to, \<open>search\<close> finds the first
  entry the operator accepts, \<open>find_cached\<close> never fails, and values resolve to what was pushed.
\<close>

subsection \<open>Pages that pass the check\<close>

lemma check_list_Ok:
  assumes keys: "\<And>j. j < length ks \<Longrightarrow> entry_key v j = Ok (ks ! j) \<and> entry_ok E (ks ! j) (ds ! j)"
    and asc: "\<And>i j. i < j \<Longrightarrow> j < length ks \<Longrightarrow> compare E (ks ! i) (ks ! j) = Ok Less"
    and n: "pv_entry_count v = length ks" "length ds = length ks"
  shows "r \<le> length ks + m \<Longrightarrow> (\<forall>p. q = Some p \<longrightarrow> r < length ks \<longrightarrow> 0 < r \<and> p = ks ! (r - 1)) \<Longrightarrow>
    check_list E v (drop r (ds @ replicate m (- 1))) r q = Ok ()"
proof (induction "length ks + m - r" arbitrary: r q)
  case 0
  then show ?case by (simp add: n)
next
  case (Suc k)
  let ?l = "ds @ replicate m (- 1)"
  have r: "r < length ?l" using Suc.hyps(2) n by simp
  have d: "drop r ?l = ?l ! r # drop (Suc r) ?l" using r by (rule Cons_nth_drop_Suc [symmetric])
  show ?case
  proof (cases "r < length ks")
    case True
    have "check_list E v (drop (Suc r) ?l) (Suc r) (Some (ks ! r)) = Ok ()"
      using Suc.hyps(2) True by (intro Suc.hyps(1)) simp_all
    moreover have "check_entry E q (ks ! r) (ds ! r) = Ok ()"
      unfolding check_entry_Ok_iff
    proof (intro conjI allI impI)
      show "entry_ok E (ks ! r) (ds ! r)" using keys [OF True] by simp
      fix p
      assume "q = Some p"
      then have "0 < r \<and> p = ks ! (r - 1)" using Suc.prems(2) True by simp
      then show "compare E p (ks ! r) = Ok Less" using asc [of "r - 1" r] True by simp
    qed
    moreover have "?l ! r = ds ! r" using True n by (simp add: nth_append)
    ultimately show ?thesis unfolding d using True keys [OF True] n(1) by simp
  next
    case False
    have "check_list E v (drop (Suc r) ?l) (Suc r) q = Ok ()"
      using Suc.hyps(2) False by (intro Suc.hyps(1)) simp_all
    moreover have "?l ! r = - 1" using False r n by (simp add: nth_append)
    ultimately show ?thesis unfolding d using False n(1) by simp
  qed
qed

lemma check_omitted_Ok:
  assumes v: "view_wf v" "\<not> eytzinger (pv_layout v)" and lt: "\<And>i j. i < j \<Longrightarrow> j < pv_entry_count v \<Longrightarrow> digests v ! i < digests v ! j"
  shows "r \<le> pv_entry_count v \<Longrightarrow> (\<forall>p. q = Some p \<longrightarrow> 0 < r \<and> p = digests v ! (r - 1)) \<Longrightarrow>
    check_omitted_loop strict v [r..<pv_entry_count v] q = Ok ()"
proof (induction "pv_entry_count v - r" arbitrary: r q)
  case 0
  then show ?case by simp
next
  case (Suc k)
  then have r: "r < pv_entry_count v" by simp
  have "check_omitted_loop strict v [Suc r..<pv_entry_count v] (Some (digests v ! r)) = Ok ()"
    using Suc.hyps(2) r by (intro Suc.hyps(1)) simp_all
  moreover have "\<not> (case q of None \<Rightarrow> False | Some p \<Rightarrow> digests v ! r < p \<or> strict \<and> digests v ! r = p)"
  proof (cases q)
    case (Some p)
    then have "0 < r" "p = digests v ! (r - 1)" using Suc.prems(2) by simp_all
    then have "p < digests v ! r" using lt [of "r - 1" r] r by simp
    then show ?thesis using Some less_not_sym by auto
  qed simp
  ultimately show ?case using digest_at_wf [OF v r] r by (simp add: upt_conv_Cons)
qed

subsection \<open>Encodings whose trees can be searched\<close>

text \<open>
  A tree stores, for each key, the digest the encoding computes.  Leaving keys out is only
  chosen for an encoding whose digests say everything about its keys.
\<close>

locale indexable_encoding = searchable_encoding +
  assumes own_digest: "valid k \<Longrightarrow> digest E k = Ok d \<Longrightarrow> accepts_digest E k d = Ok True"
    and exact_order: "is_digest_exact E \<Longrightarrow> valid a \<Longrightarrow> valid b \<Longrightarrow> digest E a = Ok d \<Longrightarrow> digest E b = Ok e \<Longrightarrow>
      compare E a b = Ok (cmp d e)"
    and exact_capacity: "is_digest_exact E \<Longrightarrow> max_rebuilt_key_len E \<noteq> None"
    and exact_decode: "is_digest_exact E \<Longrightarrow> valid k \<Longrightarrow> digest E k = Ok d \<Longrightarrow> decode_key_from_digest E d buf = Ok k"
begin

definition stored_keys :: "bytes list \<Rightarrow> bool" where
  "stored_keys ks \<longleftrightarrow> ascending_keys ks \<and> (\<forall>k \<in> set ks. validate_key E k = Ok ())"

lemma stored_keys_append: "stored_keys (xs @ ys @ zs) \<Longrightarrow> stored_keys ys"
  by (auto simp: stored_keys_def ascending_keys_def sorted_wrt_append)

lemma stored_keys_heads:
  "stored_keys (concat xss) \<Longrightarrow> (\<And>xs. xs \<in> set xss \<Longrightarrow> xs \<noteq> []) \<Longrightarrow> stored_keys (map hd xss)"
proof (induction xss)
  case (Cons a xss)
  have a: "stored_keys a" "stored_keys (concat xss)" using Cons.prems(1) stored_keys_append [of "[]" a "concat xss"]
      stored_keys_append [of a "concat xss" "[]"] by simp_all
  have IH: "stored_keys (map hd xss)" using Cons.IH [OF a(2)] Cons.prems(2) by simp
  have "\<forall>x \<in> set xss. compare E (hd a) (hd x) = Ok Less"
    using Cons.prems by (auto simp: stored_keys_def ascending_keys_def sorted_wrt_append)
  then show ?case using IH a(1) Cons.prems(2) [of a] by (auto simp: stored_keys_def ascending_keys_def)
qed (simp add: stored_keys_def ascending_keys_def)

text \<open>The view of a node the tree writer wrote.\<close>

lemma node_page:
  fixes l :: "'e Level"
  assumes wf: "level_wf E lay psize gs (h = 0) l ents" and ok: "settings_ok lay psize" "length gs \<le> 2147483647"
    and rt: "case rt of None \<Rightarrow> True | Some p \<Rightarrow> p < length gs"
    and keys: "stored_keys (map fst ents)" and exact: "omitted_keys lay \<longrightarrow> is_digest_exact E"
  defines "v \<equiv> image_view lay (h = 0) (base_of lay (h = 0) (lv_entry_count l)) rt l"
  shows "page_parse (gbytes lay (NodePage h rt l ents)) = Ok v" "pv_kind v = (if h = 0 then Leaf else Internal)"
    "pv_entry_count v = length ents" "left_sibling (pv_header v) = lv_prev_ordinal l" "right_sibling (pv_header v) = rt"
    "check_digests E v = Ok ()"
    "\<And>key d op. valid key \<Longrightarrow> digest E key = Ok d \<Longrightarrow> h = 0 \<Longrightarrow>
      leaf_search E v key d op = Ok (find (\<lambda>i. op_matches op (order_of (fst (ents ! i)) key)) [0..<length ents])"
    "\<And>key d. valid key \<Longrightarrow> digest E key = Ok d \<Longrightarrow> h \<noteq> 0 \<Longrightarrow>
      internal_child_index E v key d = Ok (length (filter (\<lambda>e. order_of (fst e) key \<noteq> Greater) ents) - 1, False)"
    "\<And>i p. h \<noteq> 0 \<Longrightarrow> i < length ents \<Longrightarrow> snd (ents ! i) = Child p \<Longrightarrow> \<exists>e. internal_entry v i = Ok e \<and> ie_child e = p"
proof -
  let ?b = "base_of lay (h = 0) (lv_entry_count l)"
  have om: "omitted_keys lay \<Longrightarrow> is_digest_exact E" using exact by simp
  have n: "lv_entry_count l = length ents" "length (lv_digests l) = length ents" and hl: "holds E lay l ents"
    using wf level_wf_count [OF wf] by (auto simp: level_wf_def holds_def dest: arg_cong [of _ _ length])
  have g: "length gs \<le> 2 ^ 31" using ok(2) by simp
  note img = level_image [OF wf ok(1) g]
  have rt': "ordinal_ok rt" using rt ok(2) by (auto split: option.splits)
  show parse: "page_parse (gbytes lay (NodePage h rt l ents)) = Ok v"
    using page_image_parses [OF img(1) rt'] by (simp add: v_def)
  have vw: "view_wf v" using page_parse_wf [OF parse] by simp
  show k: "pv_kind v = (if h = 0 then Leaf else Internal)" and c: "pv_entry_count v = length ents"
    and "left_sibling (pv_header v) = lv_prev_ordinal l" and "right_sibling (pv_header v) = rt"
    by (simp_all add: v_def image_view_def n)
  have lay: "pv_layout v = lay" by (simp add: v_def image_view_def)
  have st: "stored_key l i = key_bytes lay (fst (ents ! i))" "stored_val l i = item_bytes (snd (ents ! i))" if "i < length ents" for i
    using holds_stored [OF hl that] by simp_all
  show "\<exists>e. internal_entry v i = Ok e \<and> ie_child e = p" if "h \<noteq> 0" "i < length ents" "snd (ents ! i) = Child p" for i p
  proof -
    note h = that
    obtain e where e: "internal_entry v i = Ok e" "ie_child e < 2 ^ 63" "stored_val l i = i64_to_le (int (ie_child e))"
      using image_internal_entry [of lay ?b l i rt] img h(1,2) n by (auto simp: v_def)
    have "snd (ents ! i) \<in> snd ` set ents" using that(2) by simp
    then have p: "p < length gs" using wf that by (force simp: level_wf_def)
    have "i64_to_le (int p) = i64_to_le (int (ie_child e))"
      using e(3) st(2) [OF that(2)] that(3) p ok(2) by (simp add: as_i64_small)
    then have "int p = int (ie_child e)" using e(2) p ok(2) arg_cong [of _ _ le_nat] le_nat_i64 [of p] le_nat_i64 [of "ie_child e"]
      by (simp add: as_i64_small)
    then show ?thesis using e(1) by auto
  qed
  have ev: "valid (fst (ents ! i))" "validate_key E (fst (ents ! i)) = Ok ()" if "i < length ents" for i
    using keys that ascending_valid [of "map fst ents" i] by (auto simp: stored_keys_def)
  have dg: "digest E (fst (ents ! i)) = Ok (lv_digests l ! i)" if "i < length ents" for i by (rule image_digest_at [OF wf that])
  have ek: "entry_key v i = Ok (fst (ents ! i))" if "\<not> omitted_keys lay" "i < length ents" for i
    using image_leaf_entry [of lay ?b l i rt] image_internal_entry [of lay ?b l i rt] img that n st(1) [OF that(2)] k
    by (cases "h = 0") (auto simp: v_def entry_key_def key_bytes_def)
  have omd: "\<not> eytzinger lay" "digests v = lv_digests l" if "omitted_keys lay"
    using that ok(1) image_digests [OF img(1) rt'] by (auto simp: settings_ok_def v_def)
  have lt: "lv_digests l ! i < lv_digests l ! j" if "omitted_keys lay" "i < j" "j < length ents" for i j
    using exact_order [OF om ev(1) ev(1) dg dg, of i j] ascending_nth [of "map fst ents" i j] keys that
    by (auto simp: stored_keys_def)
  show main: "check_digests E v = Ok ()"
  proof (cases "omitted_keys lay")
    case True
    then show ?thesis
      using check_omitted_Ok [OF vw, of 0 None "is_digest_exact E"] lt omd exact_capacity [OF om] c lay
      by (auto simp: check_digests_def rebuilt_key_capacity_def ok_or_def)
  next
    case False
    obtain m where m: "inorder_digests v = lv_digests l @ replicate m (- 1)"
      using image_inorder_digests [OF img(1) rt'] by (auto simp: v_def)
    have "check_list E v (drop 0 (lv_digests l @ replicate m (- 1))) 0 None = Ok ()"
      using ek [OF False] ev own_digest [OF ev(1) dg] c n ascending_nth [of "map fst ents"] keys
      by (intro check_list_Ok [of "map fst ents"]) (auto simp: entry_ok_def stored_keys_def)
    then show ?thesis using check_digests_list [OF vw, of E] False lay m by simp
  qed
  have oc: "cmp (digests v ! i) d = order_of (fst (ents ! i)) key"
    if "omitted_keys lay" "i < length ents" "valid key" "digest E key = Ok d" for i key d
    using exact_order [OF om ev(1) that(3) dg that(4), of i] omd that by (simp add: order_of_def)
  have pk: "page_keys v = map fst ents" if "\<not> omitted_keys lay"
    using ek [OF that] c by (auto simp: page_keys_def intro: nth_equalityI)
  show "leaf_search E v key d op = Ok (find (\<lambda>i. op_matches op (order_of (fst (ents ! i)) key)) [0..<length ents])"
    if "valid key" "digest E key = Ok d" "h = 0" for key d op
  proof (cases "omitted_keys lay")
    case True
    show ?thesis using omitted_leaf_search [OF vw _ main, of key d op] True lay c oc [OF True _ that(1,2)]
      by (auto intro!: find_cong)
  next
    case False
    show ?thesis using leaf_search_correct [OF vw _ _ main that(1,2), of op] False lay k that(3) c pk
      by (auto intro!: find_cong)
  qed
  show "internal_child_index E v key d = Ok (length (filter (\<lambda>e. order_of (fst e) key \<noteq> Greater) ents) - 1, False)"
    if "valid key" "digest E key = Ok d" "h \<noteq> 0" for key d
  proof (cases "omitted_keys lay")
    case True
    have "length (filter (\<lambda>j. order_of (fst (ents ! j)) key \<noteq> Greater) [0..<length ents])
        = length (filter (\<lambda>e. order_of (fst e) key \<noteq> Greater) (map ((!) ents) [0..<length ents]))"
      by (simp add: filter_map o_def)
    moreover have "filter (\<lambda>j. cmp (digests v ! j) d \<noteq> Greater) [0..<length ents]
        = filter (\<lambda>j. order_of (fst (ents ! j)) key \<noteq> Greater) [0..<length ents]"
      using oc [OF True _ that(1,2)] by (intro filter_cong) auto
    ultimately show ?thesis
      using omitted_child_index [OF vw _ main om, of key d] True lay c by (simp add: map_nth)
  next
    case False
    have "filter (\<lambda>k. compare E k key \<noteq> Ok Greater) (map fst ents) = filter (\<lambda>k. order_of k key \<noteq> Greater) (map fst ents)"
      using keys compare_order_of [OF _ that(1)]
      by (intro filter_cong) (auto simp: stored_keys_def ascending_keys_def simp del: set_map)
    then show ?thesis
      using internal_child_correct [OF vw _ _ main that(1,2)] False lay k that(3) pk by (simp add: filter_map o_def)
  qed
qed

end


lemma plain_indexable:
  assumes "searchable_encoding E v" "\<And>k d. v k \<Longrightarrow> digest E k = Ok d \<Longrightarrow> accepts_digest E k d = Ok True" "\<not> is_digest_exact E"
  shows "indexable_encoding E v"
  using assms by (intro indexable_encoding.intro indexable_encoding_axioms.intro) auto

interpretation int64: indexable_encoding Int64Encoding "\<lambda>k. length k = 8"
proof (intro indexable_encoding.intro indexable_encoding_axioms.intro int64.searchable_encoding_axioms, goal_cases)
  case (2 a b d e)
  then show ?case by (intro int64_compare_digest) (simp_all add: Int64Encoding_def)
qed (auto simp: Int64Encoding_def default_accepts_digest_def intro: int64_digest_exact)

interpretation ascii: indexable_encoding AsciiEncoding "\<lambda>_. True"
  by (rule plain_indexable [OF ascii.searchable_encoding_axioms])
    (simp_all add: AsciiEncoding_def default_accepts_digest_def)

interpretation uuid: indexable_encoding Uuidv7Encoding "\<lambda>k. length k = 16"
  by (rule plain_indexable [OF uuid.searchable_encoding_axioms])
    (simp_all add: Uuidv7Encoding_def default_accepts_digest_def)

interpretation ulid: indexable_encoding UlidEncoding "\<lambda>_. True"
  by (rule plain_indexable [OF ulid.searchable_encoding_axioms])
    (simp_all add: UlidEncoding_def default_accepts_digest_def)

lemma dup_own_digest:
  "digest (DuplicateKeyEncoding E) k = Ok d \<Longrightarrow> accepts_digest (DuplicateKeyEncoding E) k d = Ok True"
  by (simp add: DuplicateKeyEncoding_def dup_accepts_digest_def)

lemma dup_inexact: "\<not> is_digest_exact (DuplicateKeyEncoding E)"
  by (simp add: DuplicateKeyEncoding_def)

interpretation dup_int64: indexable_encoding "DuplicateKeyEncoding Int64Encoding" "dup_valid (\<lambda>k. length k = 8)"
  by (rule plain_indexable [OF dup_int64.searchable_encoding_axioms]) (simp_all add: dup_own_digest dup_inexact)

interpretation dup_ascii: indexable_encoding "DuplicateKeyEncoding AsciiEncoding" "dup_valid (\<lambda>_. True)"
  by (rule plain_indexable [OF dup_ascii.searchable_encoding_axioms]) (simp_all add: dup_own_digest dup_inexact)

interpretation dup_uuid: indexable_encoding "DuplicateKeyEncoding Uuidv7Encoding" "dup_valid (\<lambda>k. length k = 16)"
  by (rule plain_indexable [OF dup_uuid.searchable_encoding_axioms]) (simp_all add: dup_own_digest dup_inexact)

interpretation dup_ulid: indexable_encoding "DuplicateKeyEncoding UlidEncoding" "dup_valid (\<lambda>_. True)"
  by (rule plain_indexable [OF dup_ulid.searchable_encoding_axioms]) (simp_all add: dup_own_digest dup_inexact)

subsection \<open>Choosing along a partition\<close>

text \<open>The index of the last element with \<open>P\<close>, or 0: on a list where \<open>P\<close> holds up to a point, it can
  be found by first choosing a part by its head.\<close>

definition pick :: "('a \<Rightarrow> bool) \<Rightarrow> 'a list \<Rightarrow> nat" where
  "pick P xs = length (filter P xs) - 1"

definition downward :: "('a \<Rightarrow> bool) \<Rightarrow> 'a list \<Rightarrow> bool" where
  "downward P xs \<longleftrightarrow> sorted_wrt (\<lambda>a b. P b \<longrightarrow> P a) xs"

lemma pick_less: "xs \<noteq> [] \<Longrightarrow> pick P xs < length xs"
  using length_filter_le [of P xs] by (cases xs) (auto simp: pick_def simp del: length_filter_le)

lemma pick_concat:
  assumes "downward P (concat xss)" "xss \<noteq> []" "\<And>xs. xs \<in> set xss \<Longrightarrow> xs \<noteq> []"
  shows "pick P (concat xss)
    = length (concat (take (pick P (map hd xss)) xss)) + pick P (xss ! pick P (map hd xss))"
  using assms
proof (induction xss)
  case (Cons a rest)
  have a: "a \<noteq> []" using Cons.prems(3) by simp
  show ?case
  proof (cases rest)
    case Nil
    then show ?thesis by (simp add: pick_def)
  next
    case (Cons b rest')
    have b: "b \<noteq> []" using Cons Cons.prems(3) by simp
    have d: "downward P (concat rest)" "\<And>x y. x \<in> set a \<Longrightarrow> y \<in> set (concat rest) \<Longrightarrow> P y \<Longrightarrow> P x"
      using Cons.prems(1) by (auto simp: downward_def sorted_wrt_append)
    show ?thesis
    proof (cases "P (hd b)")
      case True
      have hb: "hd b \<in> set (concat rest)" using b Cons by simp
      then have fa: "filter P a = a" using d(2) True by (auto intro: filter_True)
      have ha: "P (hd a)" using d(2) [OF _ hb True] a by simp
      have pos: "filter P (map hd rest) \<noteq> []" "filter P (concat rest) \<noteq> []"
        using True hb Cons by (auto simp: filter_empty_conv)
      have k: "pick P (map hd (a # rest)) = Suc (pick P (map hd rest))"
        using ha pos(1) unfolding length_greater_0_conv [symmetric] by (simp add: pick_def)
      have "pick P (concat (a # rest)) = length a + pick P (concat rest)"
        using fa pos(2) by (cases "filter P (concat rest)") (auto simp: pick_def)
      then show ?thesis using Cons.IH [OF d(1)] Cons Cons.prems(3) k by simp
    next
      case False
      have "\<not> P y" if "y \<in> set (concat rest)" for y
        using that False d(1) Cons b by (cases b) (auto simp: downward_def)
      then have n: "filter P (concat rest) = []" "filter P (map hd rest) = []"
        using Cons.prems(3) hd_in_set by (fastforce simp: filter_empty_conv)+
      then have "pick P (map hd (a # rest)) = 0" by (simp add: pick_def)
      then show ?thesis using n by (simp add: pick_def)
    qed
  qed
qed simp

subsection \<open>Levels of a built tree\<close>

definition first_key :: "'e gpage list \<Rightarrow> nat \<Rightarrow> bytes" where
  "first_key gs p = fst (hd (node_entries (gs ! p)))"

definition entries_of :: "'e gpage list \<Rightarrow> nat \<Rightarrow> entry list list" where
  "entries_of gs h = map (\<lambda>p. node_entries (gs ! p)) (nodes gs h)"

text \<open>The position, among the nodes of a height, of the node to visit.\<close>

definition target :: "(bytes \<Rightarrow> bool) \<Rightarrow> 'e gpage list \<Rightarrow> nat \<Rightarrow> nat" where
  "target P gs h = pick P (map (first_key gs) (nodes gs h))"

lemma content_entries: "content gs h = concat (entries_of gs h)"
  by (simp add: content_def entries_of_def)

lemma length_entries_of [simp]: "length (entries_of gs h) = length (nodes gs h)"
  by (simp add: entries_of_def)

lemma built_level:
  assumes "built E lay psize gs ht rt kvs" "h \<le> ht"
  shows "nodes gs h \<noteq> []" "chained gs h" "map fst (content gs 0) = map fst kvs" "nodes gs ht = [rt]"
    "settings_ok lay psize" "length gs \<le> 2147483647"
    "\<And>p. p \<in> set (nodes gs h) \<Longrightarrow> level_wf E lay psize gs (h = 0) (node_level (gs ! p)) (node_entries (gs ! p))"
    "\<And>j. Suc j \<le> ht \<Longrightarrow> content gs (Suc j) = separators gs j"
    "\<And>j p. Suc j \<le> ht \<Longrightarrow> p \<in> set (nodes gs j) \<Longrightarrow> node_entries (gs ! p) \<noteq> []"
    "length kvs = length (content gs 0)"
proof -
  show "nodes gs h \<noteq> []" using assms by (cases "h = ht") (auto simp: built_def)
  have k: "map plain (content gs 0) = kvs" using assms(1) by (simp add: built_def)
  show "map fst (content gs 0) = map fst kvs" unfolding k [symmetric] by (simp add: plain_def o_def)
  show "length kvs = length (content gs 0)" unfolding k [symmetric] by simp
  show "node_entries (gs ! p) \<noteq> []" if "Suc j \<le> ht" "p \<in> set (nodes gs j)" for j p
    using assms(1) that unfolding built_def by (meson Suc_le_lessD)
qed (use assms in \<open>auto simp: built_def\<close>)

lemma nth_concat:
  assumes "k < length xss" "i < length (xss ! k)"
  shows "concat xss ! (length (concat (take k xss)) + i) = xss ! k ! i" "length (concat (take k xss)) + i < length (concat xss)"
  using assms(2) by (subst concat_split [OF assms(1)], simp add: nth_append)+

lemma target_top: "built E lay psize gs ht rt kvs \<Longrightarrow> target P gs ht = 0"
  by (simp add: target_def pick_def built_def)

lemma target_less: "nodes gs h \<noteq> [] \<Longrightarrow> target P gs h < length (nodes gs h)"
  using pick_less [of "map (first_key gs) (nodes gs h)" P] by (simp add: target_def)

lemma built_nonempty:
  assumes "built E lay psize gs ht rt kvs" "Suc h \<le> ht" "p \<in> set (nodes gs (Suc h))"
  shows "node_entries (gs ! p) \<noteq> []"
proof (cases "Suc (Suc h) \<le> ht")
  case True
  then show ?thesis using built_level(9) [OF assms(1,2) True assms(3)] by simp
next
  case False
  then have "Suc h = ht" using assms(2) by simp
  then have "nodes gs (Suc h) = [rt]" using built_level(4) [OF assms(1,2)] by simp
  then have "content gs (Suc h) = node_entries (gs ! p)" using assms(3) by (simp add: content_def)
  moreover have "content gs (Suc h) \<noteq> []"
    using built_level(8) [OF assms(1,2) assms(2)] built_level(1) [OF assms(1), of h] assms(2) by (simp add: separators_def)
  ultimately show ?thesis by simp
qed

lemma target_split:
  assumes down: "downward (\<lambda>e. P (fst e)) (content gs h)" and n: "nodes gs h \<noteq> []"
    and ne: "\<And>p. p \<in> set (nodes gs h) \<Longrightarrow> node_entries (gs ! p) \<noteq> []"
  shows "pick (\<lambda>e. P (fst e)) (content gs h) = length (concat (take (target P gs h) (entries_of gs h)))
    + pick (\<lambda>e. P (fst e)) (node_entries (gs ! (nodes gs h ! target P gs h)))"
proof -
  have "pick (\<lambda>e. P (fst e)) (map hd (entries_of gs h)) = target P gs h"
    by (simp add: pick_def target_def first_key_def entries_of_def filter_map o_def)
  moreover have "entries_of gs h ! target P gs h = node_entries (gs ! (nodes gs h ! target P gs h))"
    using target_less [OF n] by (simp add: entries_of_def)
  moreover have "xs \<noteq> []" if "xs \<in> set (entries_of gs h)" for xs using that ne by (auto simp: entries_of_def)
  moreover have "entries_of gs h \<noteq> []" using n by (simp add: entries_of_def)
  ultimately show ?thesis
    using pick_concat [of "\<lambda>e. P (fst e)" "entries_of gs h"] down unfolding content_entries by simp
qed

lemma target_step:
  assumes b: "built E lay psize gs ht rt kvs" "Suc h \<le> ht"
    and down: "downward (\<lambda>e. P (fst e)) (content gs (Suc h))"
  defines "q \<equiv> nodes gs (Suc h) ! target P gs (Suc h)"
  defines "i \<equiv> pick (\<lambda>e. P (fst e)) (node_entries (gs ! q))"
  shows "i < length (node_entries (gs ! q))" "snd (node_entries (gs ! q) ! i) = Child (nodes gs h ! target P gs h)"
proof -
  have n: "nodes gs (Suc h) \<noteq> []" "nodes gs h \<noteq> []" using built_level(1) [OF b(1)] b(2) by auto
  have k: "target P gs (Suc h) < length (nodes gs (Suc h))" by (rule target_less [OF n(1)])
  then have q: "q \<in> set (nodes gs (Suc h))" by (simp add: q_def)
  note ne = built_nonempty [OF b]
  show i: "i < length (node_entries (gs ! q))" unfolding i_def by (rule pick_less [OF ne [OF q]])
  have e: "entries_of gs (Suc h) ! target P gs (Suc h) = node_entries (gs ! q)" using k by (simp add: entries_of_def q_def)
  have sep: "content gs (Suc h) = separators gs h" by (rule built_level(8) [OF b(1,2) b(2)])
  have "pick (\<lambda>e. P (fst e)) (content gs (Suc h)) = target P gs h"
    unfolding sep by (simp add: pick_def target_def first_key_def separators_def filter_map o_def)
  then have t: "target P gs h = length (concat (take (target P gs (Suc h)) (entries_of gs (Suc h)))) + i"
    using target_split [OF down n(1) ne] by (simp add: i_def q_def)
  have "content gs (Suc h) ! target P gs h = node_entries (gs ! q) ! i"
    unfolding content_entries t using nth_concat(1) [of "target P gs (Suc h)" "entries_of gs (Suc h)" i] k i e by simp
  moreover have "content gs (Suc h) ! target P gs h = (first_key gs (nodes gs h ! target P gs h), Child (nodes gs h ! target P gs h))"
    unfolding sep using target_less [OF n(2), of P] by (simp add: separators_def first_key_def)
  ultimately show "snd (node_entries (gs ! q) ! i) = Child (nodes gs h ! target P gs h)" by (metis snd_conv)
qed

text \<open>The ends of the tree are the targets of the two constant choices.\<close>

lemma target_ends: "target (\<lambda>_. False) gs h = 0" "target (\<lambda>_. True) gs h = length (nodes gs h) - 1"
  by (simp_all add: target_def pick_def)

lemma downward_const: "downward (\<lambda>_. c) xs"
  by (simp add: downward_def sorted_wrt_iff_nth_less)

lemma node_page_at:
  assumes "p \<in> set (nodes gs h)"
  shows "gs ! p = NodePage h (node_right (gs ! p)) (node_level (gs ! p)) (node_entries (gs ! p))" "p < length gs"
  using assms by (cases "gs ! p"; auto simp: in_nodes_iff Tree_Build.at_height_def)+

subsection \<open>Stores that hold a built tree\<close>

text \<open>The node's view, as the reader parses it.\<close>

definition node_view :: "NodeLayout \<Rightarrow> 'e gpage \<Rightarrow> PageView" where
  "node_view lay g = image_view lay (node_height g = 0) (base_of lay (node_height g = 0) (lv_entry_count (node_level g)))
     (node_right g) (node_level g)"

locale tree_store = page_store S I disk SE roots + indexable_encoding E valid
  for S :: "'s StoreOps" and I disk SE roots E valid
begin

definition on_disk :: "Tree \<Rightarrow> NodeLayout \<Rightarrow> nat \<Rightarrow> 'e gpage list \<Rightarrow> nat \<Rightarrow> page_ordinal \<Rightarrow> (bytes \<times> bytes) list \<Rightarrow> bool" where
  "on_disk T lay psize gs ht rt kvs \<longleftrightarrow> tree_encoding T = E \<and> tree_root T = Some rt \<and> roots (tree_id T) = Some rt
     \<and> ht < st_max_tree_depth S \<and> length gs \<le> st_page_count S \<and> built E lay psize gs ht rt kvs
     \<and> (\<forall>h \<le> ht. \<forall>p \<in> set (nodes gs h). disk p = Some (gbytes lay (gs ! p)))
     \<and> (\<forall>p < length gs. \<forall>val. gs ! p = BlobPage val \<longrightarrow> PAGE_PREFIX_LEN + length val < 2 ^ 31 \<longrightarrow> disk p = Some (blob_image val)) \<and> stored_keys (map fst kvs) \<and> (omitted_keys lay \<longrightarrow> is_digest_exact E)"

lemma stored_level:
  assumes "built E lay psize gs ht rt kvs" "stored_keys (map fst kvs)"
  shows "h \<le> ht \<Longrightarrow> stored_keys (map fst (content gs h))"
proof (induction h)
  case 0
  then show ?case using assms built_level(3) [OF assms(1), of 0] by simp
next
  case (Suc h)
  then have IH: "stored_keys (map fst (content gs h))" by simp
  have ne: "\<And>p. p \<in> set (nodes gs h) \<Longrightarrow> node_entries (gs ! p) \<noteq> []" using built_level(9) [OF assms(1), of h h] Suc.prems by simp
  have c: "map fst (content gs h) = concat (map (\<lambda>p. map fst (node_entries (gs ! p))) (nodes gs h))"
    by (simp add: content_def map_concat o_def)
  have "map fst (content gs (Suc h)) = map hd (map (\<lambda>p. map fst (node_entries (gs ! p))) (nodes gs h))"
    using built_level(8) [OF assms(1) Suc.prems Suc.prems] ne by (auto simp: separators_def hd_map)
  moreover have "stored_keys \<dots>" using stored_keys_heads [of "map (\<lambda>p. map fst (node_entries (gs ! p))) (nodes gs h)"] IH ne
    unfolding c by auto
  ultimately show ?case by simp
qed

lemma stored_node:
  assumes "built E lay psize gs ht rt kvs" "stored_keys (map fst kvs)" "h \<le> ht" "p \<in> set (nodes gs h)"
  shows "stored_keys (map fst (node_entries (gs ! p)))"
proof -
  obtain as bs where "nodes gs h = as @ p # bs" using assms(4) by (meson split_list)
  then have c: "map fst (content gs h) = map fst (concat (map (\<lambda>p. node_entries (gs ! p)) as)) @ map fst (node_entries (gs ! p))
      @ map fst (concat (map (\<lambda>p. node_entries (gs ! p)) bs))" by (simp add: content_def)
  show ?thesis by (rule stored_keys_append [OF stored_level [OF assms(1-3), unfolded c]])
qed

lemma stored_downward:
  assumes "stored_keys (map fst ents)" "valid key"
  shows "downward (\<lambda>e. order_of (fst e) key \<noteq> Greater) ents"
  unfolding downward_def sorted_wrt_iff_nth_less
proof (intro allI impI)
  fix i j
  assume ij: "i < j" "j < length ents" "order_of (fst (ents ! j)) key \<noteq> Greater"
  have "ascending_keys (map fst ents)" using assms(1) by (simp add: stored_keys_def)
  from order_column_sorted [OF this assms(2)]
  have "order_of (map fst ents ! i) key = Greater \<longrightarrow> order_of (map fst ents ! j) key = Greater"
    using ij(1,2) by (simp add: column_sorted_def)
  then show "order_of (fst (ents ! i)) key \<noteq> Greater" using ij by simp
qed

lemma on_disk_built:
  assumes "on_disk T lay psize gs ht rt kvs"
  shows "built E lay psize gs ht rt kvs" "stored_keys (map fst kvs)" "tree_encoding T = E" "tree_root T = Some rt"
    "roots (tree_id T) = Some rt" "ht < st_max_tree_depth S" "length gs \<le> st_page_count S"
  using assms by (simp_all add: on_disk_def)

lemma chained_at:
  assumes "chained gs h" "k < length (nodes gs h)"
  shows "lv_prev_ordinal (node_level (gs ! (nodes gs h ! k))) = (if k = 0 then None else Some (nodes gs h ! (k - 1)))"
    "node_right (gs ! (nodes gs h ! k)) = (if k + 1 < length (nodes gs h) then Some (nodes gs h ! (k + 1)) else None)"
  using assms unfolding chained_def Let_def by blast+

text \<open>What the reader makes of a node of the tree.\<close>

lemma node_at:
  assumes d: "on_disk T lay psize gs ht rt kvs" and h: "h \<le> ht" and p: "p \<in> set (nodes gs h)"
  defines "v \<equiv> node_view lay (gs ! p)" and "ents \<equiv> node_entries (gs ! p)"
  shows "\<And>pin. genuine p pin \<Longrightarrow> pin_view pin = Ok v" "pv_kind v = (if h = 0 then Leaf else Internal)"
    "pv_entry_count v = length ents" "left_sibling (pv_header v) = lv_prev_ordinal (node_level (gs ! p))"
    "right_sibling (pv_header v) = node_right (gs ! p)" "check_digests E v = Ok ()"
    "\<And>key d op. valid key \<Longrightarrow> digest E key = Ok d \<Longrightarrow> h = 0 \<Longrightarrow>
      leaf_search E v key d op = Ok (find (\<lambda>i. op_matches op (order_of (fst (ents ! i)) key)) [0..<length ents])"
    "\<And>key d. valid key \<Longrightarrow> digest E key = Ok d \<Longrightarrow> h \<noteq> 0 \<Longrightarrow>
      internal_child_index E v key d = Ok (pick (\<lambda>e. order_of (fst e) key \<noteq> Greater) ents, False)"
    "\<And>i q. h \<noteq> 0 \<Longrightarrow> i < length ents \<Longrightarrow> snd (ents ! i) = Child q \<Longrightarrow> \<exists>e. internal_entry v i = Ok e \<and> ie_child e = q"
    "disk p \<noteq> None"
proof -
  note b = on_disk_built [OF d]
  obtain k where k: "k < length (nodes gs h)" "p = nodes gs h ! k" using p by (auto simp: in_set_conv_nth)
  have r: "case node_right (gs ! p) of None \<Rightarrow> True | Some q \<Rightarrow> q < length gs"
    using chained_at(2) [OF built_level(2) [OF b(1) h] k(1)] nth_mem [of "k + 1" "nodes gs h"] in_nodes_iff [of _ gs h] k(2)
    by (auto split: option.split if_splits)
  have om: "omitted_keys lay \<longrightarrow> is_digest_exact E" using d by (simp add: on_disk_def)
  note np = node_page [OF built_level(7) [OF b(1) h p] built_level(5) [OF b(1) h] built_level(6) [OF b(1) h] r stored_node [OF b(1,2) h p] om]
  have g: "gs ! p = NodePage h (node_right (gs ! p)) (node_level (gs ! p)) ents" "p < length gs"
    using node_page_at [OF p] by (simp_all add: ents_def)
  have hh: "node_height (gs ! p) = h" by (subst g(1)) simp
  have v: "v = image_view lay (h = 0) (base_of lay (h = 0) (lv_entry_count (node_level (gs ! p)))) (node_right (gs ! p)) (node_level (gs ! p))"
    by (simp add: v_def node_view_def hh)
  note np = np [folded v ents_def]
  have dp: "disk p = Some (gbytes lay (gs ! p))" using d h p by (simp add: on_disk_def)
  then show "disk p \<noteq> None" by simp
  show "pin_view pin = Ok v" if "genuine p pin" for pin
    using that dp np(1) g(1) by (simp add: genuine_def pin_view_def del: gbytes.simps)
  show "internal_child_index E v key d = Ok (pick (\<lambda>e. order_of (fst e) key \<noteq> Greater) ents, False)"
    if "valid key" "digest E key = Ok d" "h \<noteq> 0" for key d
    using np(8) [OF that] by (simp add: pick_def)
  show "pv_kind v = (if h = 0 then Leaf else Internal)" "pv_entry_count v = length ents"
    "left_sibling (pv_header v) = lv_prev_ordinal (node_level (gs ! p))" "right_sibling (pv_header v) = node_right (gs ! p)"
    "check_digests E v = Ok ()"
    "\<And>key d op. valid key \<Longrightarrow> digest E key = Ok d \<Longrightarrow> h = 0 \<Longrightarrow>
      leaf_search E v key d op = Ok (find (\<lambda>i. op_matches op (order_of (fst (ents ! i)) key)) [0..<length ents])"
    "\<And>i q. h \<noteq> 0 \<Longrightarrow> i < length ents \<Longrightarrow> snd (ents ! i) = Child q \<Longrightarrow> \<exists>e. internal_entry v i = Ok e \<and> ie_child e = q"
    by (fact np(2) np(3) np(4) np(5) np(6) np(7) np(9))+
qed

end

context tree_store
begin

lemma check_page_ok:
  assumes d: "on_disk T lay psize gs ht rt kvs" and h: "h \<le> ht" "p \<in> set (nodes gs h)" and g: "genuine p pin"
  shows "yields I SE (\<lambda>_. True) (check_page S T pin)"
  unfolding yields_def
proof (intro allI impI)
  fix s
  assume s: "I s"
  note n = node_at [OF d h]
  have "check_page S T pin s = Some (Ok (), s) \<or> check_page S T pin s = Some (Ok (), st_mark_digests_checked S pin (tree_id T) s)"
    using n(1) [OF g] n(6) on_disk_built(3) [OF d] by (auto simp: check_page_def)
  then show "\<exists>r s'. check_page S T pin s = Some (r, s') \<and> I s' \<and> (case r of Inl e \<Rightarrow> SE e | Inr v \<Rightarrow> True)"
    using s mark_sound [OF s] by auto
qed

lemma tree_page_ok:
  assumes d: "on_disk T lay psize gs ht rt kvs" and h: "h \<le> ht" "p \<in> set (nodes gs h)"
  shows "yields I SE (genuine p) (tree_page S T p)"
  unfolding tree_page_def
proof (rule yields_bind [OF page_genuine [OF node_at(10) [OF d h]]])
  fix pin
  assume g: "genuine p pin"
  show "yields I SE (genuine p) (op_bind (check_page S T pin) (\<lambda>_. op_return pin))"
    by (rule yields_bind [OF check_page_ok [OF d h g]]) (rule yields_return [of "genuine p", OF g])
qed

lemma root_in: "on_disk T lay psize gs ht rt kvs \<Longrightarrow> rt \<in> set (nodes gs ht)"
  using on_disk_built(1) [of T lay psize gs ht rt kvs] by (simp add: built_def)

lemma root_page_ok:
  assumes d: "on_disk T lay psize gs ht rt kvs"
  shows "yields I SE (\<lambda>r. \<exists>pin. r = Some pin \<and> genuine rt pin) (root_page S T)"
  unfolding yields_def
proof (intro allI impI)
  fix s
  assume s: "I s"
  note b = on_disk_built [OF d]
  show "\<exists>r s'. root_page S T s = Some (r, s') \<and> I s' \<and> (case r of Inl e \<Rightarrow> SE e | Inr v \<Rightarrow> \<exists>pin. v = Some pin \<and> genuine rt pin)"
  proof (cases "fst (st_retained_root S (tree_id T) s)")
    case (Some pin)
    then obtain s1 where r: "st_retained_root S (tree_id T) s = (Some pin, s1)" by (metis prod.collapse)
    then show ?thesis using retained_sound [OF s r] b(4,5) by (auto simp: root_page_def genuine_def)
  next
    case no: None
    then obtain s1 where None: "st_retained_root S (tree_id T) s = (None, s1)" by (metis prod.collapse)
    have s1: "I s1" using retained_sound [OF s None] by simp
    obtain q t where q: "tree_page S T rt s1 = Some (q, t)" "I t" "case q of Inl e \<Rightarrow> SE e | Inr pin \<Rightarrow> genuine rt pin"
      using tree_page_ok [OF d order_refl root_in [OF d]] s1 by (rule yieldsD)
    show ?thesis
    proof (cases q)
      case (Inl e)
      then show ?thesis using q None b(4) by (auto simp: root_page_def op_bind_def)
    next
      case (Inr pin)
      then have "I (st_retain_root S (tree_id T) pin t)" using q b(5) by (auto simp: genuine_def intro: retain_sound)
      then show ?thesis using q None b(4) Inr by (auto simp: root_page_def op_bind_def)
    qed
  qed
qed

definition in_hand :: "page_ordinal \<Rightarrow> PagePin option \<Rightarrow> bool" where
  "in_hand p current \<longleftrightarrow> (\<forall>pin. current = Some pin \<longrightarrow> genuine p pin)"

lemma take_page_ok:
  assumes d: "on_disk T lay psize gs ht rt kvs" and h: "h \<le> ht" "p \<in> set (nodes gs h)" and c: "in_hand p current"
  shows "yields I SE (genuine p) (take_page S T current p)"
  using tree_page_ok [OF d h] c yields_return [of "genuine p"] by (auto simp: take_page_def in_hand_def split: option.split)

lemma child_ok:
  assumes d: "on_disk T lay psize gs ht rt kvs" and h: "Suc h \<le> ht" "p \<in> set (nodes gs (Suc h))"
    and i: "i < length (node_entries (gs ! p))" "snd (node_entries (gs ! p) ! i) = Child q" "q \<in> set (nodes gs h)"
  shows "child_of (node_view lay (gs ! p)) i p = Ok q"
proof -
  have "p \<noteq> q" using h(2) i(3) by (auto simp: in_nodes_iff Tree_Build.at_height_def split: gpage.splits)
  then show ?thesis using node_at(9) [OF d h(1) h(2) _ i(1,2)] by (auto simp: child_of_def)
qed

text \<open>The descent and the walks to the ends follow the targets of their choice of children.\<close>

lemma descend_loop_ok:
  assumes d: "on_disk T lay psize gs ht rt kvs" and key: "valid key" "digest E key = Ok dig"
  defines "P \<equiv> \<lambda>k. order_of k key \<noteq> Greater"
  shows "h \<le> ht \<Longrightarrow> h < n \<Longrightarrow> in_hand (nodes gs h ! target P gs h) current \<Longrightarrow>
    yields I SE (\<lambda>(pin, c). genuine (nodes gs 0 ! target P gs 0) pin \<and> \<not> c)
      (descend_loop S T key dig n (nodes gs h ! target P gs h) current False)"
proof (induction h arbitrary: n current)
  case 0
  note b = on_disk_built [OF d]
  let ?p = "nodes gs 0 ! target P gs 0"
  obtain m where m: "n = Suc m" using 0 by (cases n) auto
  have p: "?p \<in> set (nodes gs 0)" using target_less [OF built_level(1) [OF b(1) 0(1)]] by simp
  note na = node_at [OF d 0(1) p]
  show ?case unfolding m descend_loop.simps
  proof (rule yields_bind [OF take_page_ok [OF d 0(1) p 0(3)]], goal_cases)
    case (1 pin)
    then show ?case using na(1) [OF 1] na(2) by (simp add: yields_return)
  qed
next
  case (Suc h)
  note b = on_disk_built [OF d]
  let ?p = "nodes gs (Suc h) ! target P gs (Suc h)" and ?q = "nodes gs h ! target P gs h"
  obtain m where m: "n = Suc m" "h < m" using Suc.prems by (cases n) auto
  have p: "?p \<in> set (nodes gs (Suc h))" using target_less [OF built_level(1) [OF b(1) Suc.prems(1)]] by simp
  have q: "?q \<in> set (nodes gs h)" using target_less [OF built_level(1) [OF b(1), of h]] Suc.prems(1) by simp
  note na = node_at [OF d Suc.prems(1) p]
  have down: "downward (\<lambda>e. P (fst e)) (content gs (Suc h))"
    unfolding P_def by (rule stored_downward [OF stored_level [OF b(1,2) Suc.prems(1)] key(1)])
  note st = target_step [OF b(1) Suc.prems(1) down]
  have "internal_child_index E (node_view lay (gs ! ?p)) key dig = Ok (pick (\<lambda>e. P (fst e)) (node_entries (gs ! ?p)), False)"
    using na(8) [OF key] by (simp add: P_def)
  moreover have "child_of (node_view lay (gs ! ?p)) (pick (\<lambda>e. P (fst e)) (node_entries (gs ! ?p))) ?p = Ok ?q"
    by (rule child_ok [OF d Suc.prems(1) p st q])
  ultimately have step: "op_bind (op_lift (internal_child_index E (node_view lay (gs ! ?p)) key dig)) (\<lambda>(index, inexact).
        op_bind (op_lift (child_of (node_view lay (gs ! ?p)) index ?p)) (\<lambda>child. descend_loop S T key dig m child None (False \<or> inexact)))
      = descend_loop S T key dig m ?q None False"
    by simp
  show ?case unfolding m(1) descend_loop.simps
  proof (rule yields_bind [OF take_page_ok [OF d Suc.prems(1) p Suc.prems(3)]], goal_cases)
    case (1 pin)
    have "yields I SE (\<lambda>(pin, c). genuine (nodes gs 0 ! target P gs 0) pin \<and> \<not> c) (descend_loop S T key dig m ?q None False)"
      using Suc.IH [of m None] Suc.prems(1) m(2) by (simp add: in_hand_def)
    then show ?case using na(1) [OF 1] na(2,3) st(1) b(3) step by auto
  qed
qed

lemma descend_ok:
  assumes d: "on_disk T lay psize gs ht rt kvs" and key: "valid key" "digest E key = Ok dig"
  defines "P \<equiv> \<lambda>k. order_of k key \<noteq> Greater"
  shows "yields I SE (\<lambda>r. \<exists>pin. r = Some (pin, False) \<and> genuine (nodes gs 0 ! target P gs 0) pin) (descend S T key dig)"
  unfolding descend_def
proof (rule yields_bind [OF root_page_ok [OF d]], goal_cases)
  case (1 r)
  note b = on_disk_built [OF d]
  from 1 obtain pin where r: "r = Some pin" "genuine rt pin" by blast
  have q: "nodes gs ht ! target P gs ht = rt" using b(1) target_top [OF b(1)] by (simp add: built_def)
  have "in_hand rt (Some pin)" using r by (simp add: in_hand_def)
  note dl = descend_loop_ok [OF d key order_refl b(6), folded P_def, unfolded q, OF this]
  have o: "pin_ordinal pin = rt" using r(2) by (simp add: genuine_def)
  show ?case unfolding r(1) option.case o by (rule yields_bind [OF dl]) (auto intro: yields_return)
qed

lemma edge_loop_ok:
  assumes d: "on_disk T lay psize gs ht rt kvs"
  defines "P \<equiv> \<lambda>c (_ :: bytes). \<not> c"
  defines "last_index \<equiv> \<lambda>c (n :: nat). if c then 0 else n - 1"
  shows "h \<le> ht \<Longrightarrow> h < n \<Longrightarrow> in_hand (nodes gs h ! target (P c) gs h) current \<Longrightarrow>
    yields I SE (\<lambda>r. let p = nodes gs 0 ! target (P c) gs 0; m = length (node_entries (gs ! p)) in
        if m = 0 then r = None else \<exists>pin. r = Some (pin, last_index c m) \<and> genuine p pin)
      (edge_loop S T c n (nodes gs h ! target (P c) gs h) current)"
proof (induction h arbitrary: n current)
  case 0
  note b = on_disk_built [OF d]
  let ?p = "nodes gs 0 ! target (P c) gs 0"
  obtain m where m: "n = Suc m" using 0 by (cases n) auto
  have p: "?p \<in> set (nodes gs 0)" using target_less [OF built_level(1) [OF b(1) 0(1)]] by simp
  note na = node_at [OF d 0(1) p]
  show ?case unfolding m edge_loop.simps
  proof (rule yields_bind [OF take_page_ok [OF d 0(1) p 0(3)]], goal_cases)
    case (1 pin)
    then show ?case using na(1) [OF 1] na(2,3) by (simp add: yields_return last_index_def)
  qed
next
  case (Suc h)
  note b = on_disk_built [OF d]
  let ?p = "nodes gs (Suc h) ! target (P c) gs (Suc h)" and ?q = "nodes gs h ! target (P c) gs h"
  obtain m where m: "n = Suc m" "h < m" using Suc.prems by (cases n) auto
  have p: "?p \<in> set (nodes gs (Suc h))" using target_less [OF built_level(1) [OF b(1) Suc.prems(1)]] by simp
  have q: "?q \<in> set (nodes gs h)" using target_less [OF built_level(1) [OF b(1), of h]] Suc.prems(1) by simp
  note na = node_at [OF d Suc.prems(1) p]
  have down: "downward (\<lambda>e. P c (fst e)) (content gs (Suc h))" unfolding P_def by (rule downward_const)
  note st = target_step [OF b(1) Suc.prems(1) down]
  have "pick (\<lambda>e. P c (fst e)) (node_entries (gs ! ?p)) = last_index c (length (node_entries (gs ! ?p)))"
    by (simp add: pick_def P_def last_index_def)
  then have ch: "child_of (node_view lay (gs ! ?p)) (last_index c (length (node_entries (gs ! ?p)))) ?p = Ok ?q"
    using child_ok [OF d Suc.prems(1) p st q] by simp
  show ?case unfolding m(1) edge_loop.simps
  proof (rule yields_bind [OF take_page_ok [OF d Suc.prems(1) p Suc.prems(3)]], goal_cases)
    case (1 pin)
    have "in_hand ?q None" by (simp add: in_hand_def)
    from Suc.IH [OF _ m(2) this] show ?case using Suc.prems(1) na(1) [OF 1] na(2,3) st(1) ch
      by (auto simp: last_index_def)
  qed
qed

lemma edge_leaf_ok:
  fixes c :: bool
  assumes d: "on_disk T lay psize gs ht rt kvs"
  defines "p \<equiv> nodes gs 0 ! (if c then 0 else length (nodes gs 0) - 1)"
  defines "m \<equiv> length (node_entries (gs ! p))"
  shows "yields I SE (\<lambda>r. if m = 0 then r = None else \<exists>pin. r = Some (pin, if c then 0 else m - 1) \<and> genuine p pin) (edge_leaf S T c)"
  unfolding edge_leaf_def
proof (rule yields_bind [OF root_page_ok [OF d]], goal_cases)
  case (1 r)
  note b = on_disk_built [OF d]
  from 1 obtain pin where r: "r = Some pin" "genuine rt pin" by blast
  have q: "nodes gs ht ! target (\<lambda>_. \<not> c) gs ht = rt" using b(1) target_top [OF b(1)] by (simp add: built_def)
  have p: "nodes gs 0 ! target (\<lambda>_. \<not> c) gs 0 = p" using target_ends [of gs 0] by (cases c) (simp_all add: p_def)
  have "in_hand rt (Some pin)" using r by (simp add: in_hand_def)
  note el = edge_loop_ok [OF d order_refl b(6), of c, unfolded q p Let_def, OF this, folded m_def]
  have o: "pin_ordinal pin = rt" using r(2) by (simp add: genuine_def)
  show ?case unfolding r(1) option.case o by (rule el)
qed

lemma ends_at_ok:
  assumes d: "on_disk T lay psize gs ht rt kvs" and p: "p \<in> set (nodes gs 0)"
  shows "yields I SE (\<lambda>e. (p = nodes gs 0 ! (if asc then length (nodes gs 0) - 1 else 0)) \<longrightarrow> e) (ends_at S T p asc)"
proof -
  have e: "ends_at S T p asc = op_bind (edge_leaf S T (\<not> asc)) (\<lambda>edge.
     op_return (case edge of Some (pin, _) \<Rightarrow> pin_ordinal pin = p | None \<Rightarrow> True))"
    by (cases asc) (simp_all add: ends_at_def max_leaf_def min_leaf_def)
  show ?thesis unfolding e
    by (rule yields_bind [OF edge_leaf_ok [OF d, of "\<not> asc"]])
      (auto intro!: yields_return simp: genuine_def split: if_splits)
qed

lemma step_sibling_ok:
  assumes d: "on_disk T lay psize gs ht rt kvs" and k: "k < length (nodes gs 0)" "l < length (nodes gs 0)"
    "if asc then l = k + 1 else k = l + 1"
  shows "yields I SE (genuine (nodes gs 0 ! l)) (step_sibling S T (nodes gs 0 ! k) (nodes gs 0 ! l) asc)"
proof -
  have l: "nodes gs 0 ! l \<in> set (nodes gs 0)" using k(2) by simp
  note na = node_at [OF d le0 l] and c = chained_at [OF built_level(2) [OF on_disk_built(1) [OF d] le0] k(2)]
  have leaf: "yields I SE (genuine (nodes gs 0 ! l)) (leaf_page S T (nodes gs 0 ! l))"
    unfolding leaf_page_def
  proof (rule yields_bind [OF tree_page_ok [OF d le0 l]], goal_cases)
    case (1 pin)
    then show ?case using na(1) [OF 1] na(2) by (simp add: yields_return)
  qed
  have link: "(if asc then left_sibling (pv_header (node_view lay (gs ! (nodes gs 0 ! l))))
      else right_sibling (pv_header (node_view lay (gs ! (nodes gs 0 ! l))))) = Some (nodes gs 0 ! k)"
    using c k na(4,5) by (cases asc) simp_all
  show ?thesis unfolding step_sibling_def
  proof (rule yields_bind [OF leaf], goal_cases)
    case (1 pin)
    then show ?case unfolding na(1) [OF 1] op_simps link by (simp add: yields_return)
  qed
qed

end

subsection \<open>Search\<close>

lemma downward_filter: "downward P xs \<Longrightarrow> i < length xs \<Longrightarrow> P (xs ! i) \<longleftrightarrow> i < length (filter P xs)"
proof (induction xs arbitrary: i)
  case (Cons x xs)
  have d: "downward P xs" "\<And>y. y \<in> set xs \<Longrightarrow> P y \<Longrightarrow> P x" using Cons.prems(1) by (auto simp: downward_def)
  show ?case
  proof (cases "P x")
    case True
    then show ?thesis using Cons.IH [OF d(1)] Cons.prems(2) by (cases i) auto
  next
    case False
    then have n: "filter P (x # xs) = []" using d(2) by (auto simp: filter_empty_conv)
    then have "\<not> P ((x # xs) ! i)" using nth_mem [OF Cons.prems(2)] by (simp only: filter_empty_conv) blast
    then show ?thesis using n by simp
  qed
qed simp

text \<open>The number of entries before the \<open>k\<close>-th leaf.\<close>

definition leaf_start :: "'e gpage list \<Rightarrow> nat \<Rightarrow> nat" where
  "leaf_start gs k = length (concat (take k (entries_of gs 0)))"

abbreviation leaf_entries :: "'e gpage list \<Rightarrow> nat \<Rightarrow> entry list" where
  "leaf_entries gs k \<equiv> node_entries (gs ! (nodes gs 0 ! k))"

lemma leaf_start_simps:
  "leaf_start gs 0 = 0" "k < length (nodes gs 0) \<Longrightarrow> leaf_start gs (Suc k) = leaf_start gs k + length (leaf_entries gs k)"
  by (simp_all add: leaf_start_def take_Suc_conv_app_nth entries_of_def)

lemma leaf_start_end: "leaf_start gs (length (nodes gs 0)) = length (content gs 0)"
  by (simp add: leaf_start_def content_entries)

lemma leaf_nth:
  assumes "k < length (nodes gs 0)" "j < length (leaf_entries gs k)"
  shows "content gs 0 ! (leaf_start gs k + j) = leaf_entries gs k ! j" "leaf_start gs k + j < length (content gs 0)"
  using nth_concat [of k "entries_of gs 0" j] assms by (simp_all add: leaf_start_def content_entries entries_of_def)

lemma leaf_end_le: "k < length (nodes gs 0) \<Longrightarrow> leaf_start gs k + length (leaf_entries gs k) \<le> length (content gs 0)"
  using concat_split [of k "entries_of gs 0"] by (simp add: leaf_start_def content_entries entries_of_def)

context tree_store
begin

definition first_match :: "SearchOp \<Rightarrow> bytes \<Rightarrow> (bytes \<times> bytes) list \<Rightarrow> nat option" where
  "first_match op key kvs = find (\<lambda>i. op_matches op (order_of (fst (kvs ! i)) key)) [0..<length kvs]"

text \<open>Entry \<open>j\<close> of the pinned page is entry \<open>i\<close> of the tree.\<close>

definition located :: "'e gpage list \<Rightarrow> PagePin \<Rightarrow> nat \<Rightarrow> nat \<Rightarrow> bool" where
  "located gs pin j i \<longleftrightarrow> (\<exists>k < length (nodes gs 0). genuine (nodes gs 0 ! k) pin \<and> j < length (leaf_entries gs k)
     \<and> i = leaf_start gs k + j)"

definition finds :: "'e gpage list \<Rightarrow> nat option \<Rightarrow> (PagePin \<times> nat) option \<Rightarrow> bool" where
  "finds gs m r = (case m of None \<Rightarrow> r = None | Some i \<Rightarrow> \<exists>pin j. r = Some (pin, j) \<and> located gs pin j i)"

lemma on_disk_keys:
  assumes "on_disk T lay psize gs ht rt kvs"
  shows "length kvs = length (content gs 0)" "i < length kvs \<Longrightarrow> fst (kvs ! i) = fst (content gs 0 ! i)"
proof -
  note b = on_disk_built [OF assms]
  show l: "length kvs = length (content gs 0)" by (rule built_level(10) [OF b(1) le0])
  show "fst (kvs ! i) = fst (content gs 0 ! i)" if "i < length kvs"
    using arg_cong [OF built_level(3) [OF b(1) le0], of "\<lambda>l. l ! i"] that l by simp
qed

text \<open>Around the leaf the descent ends on: before it keys are below the search key, after it
  they are above.\<close>

lemma target_leaf:
  assumes d: "on_disk T lay psize gs ht rt kvs" and key: "valid key"
  defines "k \<equiv> target (\<lambda>k. order_of k key \<noteq> Greater) gs 0"
  shows "k < length (nodes gs 0)" "\<And>i. i < leaf_start gs k \<Longrightarrow> order_of (fst (kvs ! i)) key = Less"
    "\<And>i. leaf_start gs k + length (leaf_entries gs k) \<le> i \<Longrightarrow> i < length kvs \<Longrightarrow> order_of (fst (kvs ! i)) key = Greater"
proof -
  note b = on_disk_built [OF d] and kv = on_disk_keys [OF d]
  let ?P = "\<lambda>e :: entry. order_of (fst e) key \<noteq> Greater" and ?c = "content gs 0"
  have n: "nodes gs 0 \<noteq> []" by (rule built_level(1) [OF b(1) le0])
  show k: "k < length (nodes gs 0)" unfolding k_def by (rule target_less [OF n])
  have st: "stored_keys (map fst ?c)" by (rule stored_level [OF b(1,2) le0])
  have down: "downward ?P ?c" by (rule stored_downward [OF st key])
  have split: "pick ?P ?c = leaf_start gs k + pick ?P (leaf_entries gs k)" and
    ne: "?c \<noteq> [] \<Longrightarrow> leaf_entries gs k \<noteq> []"
  proof -
    have "pick ?P ?c = leaf_start gs k + pick ?P (leaf_entries gs k) \<and> (?c \<noteq> [] \<longrightarrow> leaf_entries gs k \<noteq> [])"
    proof (cases "1 \<le> ht")
      case True
      then have ne: "\<And>p. p \<in> set (nodes gs 0) \<Longrightarrow> node_entries (gs ! p) \<noteq> []" using built_level(9) [OF b(1) le0, of 0] by simp
      show ?thesis using target_split [OF down n ne] ne [of "nodes gs 0 ! k"] k by (simp add: k_def leaf_start_def)
    next
      case False
      then have "ht = 0" by simp
      then have "nodes gs 0 = [rt]" using b(1) by (simp add: built_def)
      then show ?thesis using k by (simp add: content_def leaf_start_def)
    qed
    then show "pick ?P ?c = leaf_start gs k + pick ?P (leaf_entries gs k)" "?c \<noteq> [] \<Longrightarrow> leaf_entries gs k \<noteq> []" by auto
  qed
  show "order_of (fst (kvs ! i)) key = Less" if i: "i < leaf_start gs k" for i
  proof -
    let ?m = "pick ?P ?c"
    have "0 < length ?c" using i leaf_end_le [OF k] by linarith
    then have m: "i < ?m" "?m < length ?c" using i split pick_less [of ?c ?P] by auto
    then have "?m < length (filter ?P ?c)" by (simp add: pick_def)
    then have pm: "?P (?c ! ?m)" using downward_filter [OF down m(2)] by simp
    have asc: "ascending_keys (map fst ?c)" using st by (simp add: stored_keys_def)
    note v = ascending_valid [OF asc, of i] ascending_valid [OF asc, of ?m]
    have "compare E (fst (?c ! i)) (fst (?c ! ?m)) = Ok Less" using ascending_nth [OF asc m(1)] m by simp
    then show ?thesis using compare_le_trans [of "fst (?c ! i)" "fst (?c ! ?m)" key] pm m v key kv i
        compare_order_of [of "fst (?c ! i)" key] compare_order_of [of "fst (?c ! ?m)" key] by (cases "order_of (fst (?c ! i)) key") auto
  qed
  show "order_of (fst (kvs ! i)) key = Greater" if i: "leaf_start gs k + length (leaf_entries gs k) \<le> i" "i < length kvs" for i
  proof -
    have c: "?c \<noteq> []" using i kv(1) by auto
    have "pick ?P (leaf_entries gs k) < length (leaf_entries gs k)" by (rule pick_less [OF ne [OF c]])
    then have "pick ?P ?c < i" using split i by simp
    then have "\<not> i < length (filter ?P ?c)" by (simp add: pick_def)
    then show ?thesis using downward_filter [OF down, of i] i kv by simp
  qed
qed

lemma first_match_leaf:
  assumes d: "on_disk T lay psize gs ht rt kvs" and k: "k < length (nodes gs 0)"
    and none: "\<And>i. i < leaf_start gs k \<Longrightarrow> \<not> op_matches op (order_of (fst (kvs ! i)) key)"
  defines "f \<equiv> find (\<lambda>j. op_matches op (order_of (fst (leaf_entries gs k ! j)) key)) [0..<length (leaf_entries gs k)]"
  shows "f = Some j \<Longrightarrow> first_match op key kvs = Some (leaf_start gs k + j) \<and> j < length (leaf_entries gs k)"
    "f = None \<Longrightarrow> i < leaf_start gs (Suc k) \<Longrightarrow> \<not> op_matches op (order_of (fst (kvs ! i)) key)"
proof -
  note kv = on_disk_keys [OF d]
  have at: "fst (kvs ! (leaf_start gs k + j)) = fst (leaf_entries gs k ! j)" "leaf_start gs k + j < length kvs"
    if "j < length (leaf_entries gs k)" for j
    using leaf_nth [OF k that] kv(2) [of "leaf_start gs k + j"] kv(1) by simp_all
  show "first_match op key kvs = Some (leaf_start gs k + j) \<and> j < length (leaf_entries gs k)" if "f = Some j"
  proof -
    have j: "j < length (leaf_entries gs k)" "op_matches op (order_of (fst (leaf_entries gs k ! j)) key)"
      "\<And>l. l < j \<Longrightarrow> \<not> op_matches op (order_of (fst (leaf_entries gs k ! l)) key)"
      using that by (auto simp: f_def find_upt_Some)
    have "\<not> op_matches op (order_of (fst (kvs ! i)) key)" if "i < leaf_start gs k + j" for i
      using none [of i] j(3) [of "i - leaf_start gs k"] at(1) [of "i - leaf_start gs k"] that j(1)
      by (cases "i < leaf_start gs k") auto
    then show ?thesis using j(1,2) at [OF j(1)] by (simp add: first_match_def find_upt_Some)
  qed
  show "\<not> op_matches op (order_of (fst (kvs ! i)) key)" if "f = None" "i < leaf_start gs (Suc k)"
    using none [of i] at(1) [of "i - leaf_start gs k"] that leaf_start_simps(2) [OF k]
    by (cases "i < leaf_start gs k") (auto simp: f_def find_upt_None)
qed

lemma first_match_none:
  assumes "\<And>i. i < length kvs \<Longrightarrow> \<not> op_matches op (order_of (fst (kvs ! i)) key)"
  shows "first_match op key kvs = None"
  using assms by (simp add: first_match_def find_upt_None)

definition turn_ok :: "'e gpage list \<Rightarrow> SearchOp \<Rightarrow> bytes \<Rightarrow> (bytes \<times> bytes) list \<Rightarrow> nat \<Rightarrow> (PagePin \<times> nat) option turn \<Rightarrow> bool" where
  "turn_ok gs op key kvs k t = (case t of Done r \<Rightarrow> finds gs (first_match op key kvs) r
     | Step right \<Rightarrow> op \<noteq> OpEqual \<and> Suc k < length (nodes gs 0) \<and> right = nodes gs 0 ! Suc k
         \<and> (\<forall>i < leaf_start gs (Suc k). \<not> op_matches op (order_of (fst (kvs ! i)) key)))"

lemma search_turn_ok:
  assumes d: "on_disk T lay psize gs ht rt kvs" and key: "valid key" "digest E key = Ok dig"
    and k: "k < length (nodes gs 0)" and g: "genuine (nodes gs 0 ! k) pin"
    and none: "\<And>i. i < leaf_start gs k \<Longrightarrow> \<not> op_matches op (order_of (fst (kvs ! i)) key)"
    and eq: "op = OpEqual \<Longrightarrow> k = target (\<lambda>k. order_of k key \<noteq> Greater) gs 0"
  shows "yields I SE (turn_ok gs op key kvs k) (search_turn S T key dig op False pin)"
proof -
  note b = on_disk_built [OF d] and kv = on_disk_keys [OF d]
  have p: "nodes gs 0 ! k \<in> set (nodes gs 0)" using k by simp
  note na = node_at [OF d le0 p]
  let ?f = "find (\<lambda>j. op_matches op (order_of (fst (leaf_entries gs k ! j)) key)) [0..<length (leaf_entries gs k)]"
  have v: "pin_view pin = Ok (node_view lay (gs ! (nodes gs 0 ! k)))" by (rule na(1) [OF g])
  have ls: "leaf_search (tree_encoding T) (node_view lay (gs ! (nodes gs 0 ! k))) key dig op = Ok ?f"
    using na(7) [OF key] b(3) by simp
  have o: "pin_ordinal pin = nodes gs 0 ! k" using g by (simp add: genuine_def)
  have rs: "right_sibling (pv_header (node_view lay (gs ! (nodes gs 0 ! k))))
      = (if k + 1 < length (nodes gs 0) then Some (nodes gs 0 ! (k + 1)) else None)"
    using na(5) chained_at(2) [OF built_level(2) [OF b(1) le0] k] by simp
  show ?thesis
  proof (cases ?f)
    case (Some j)
    then have "turn_ok gs op key kvs k (Done (Some (pin, j)))"
      using first_match_leaf(1) [OF d k none Some] k g by (auto simp: turn_ok_def finds_def located_def)
    then show ?thesis unfolding search_turn_def v ls op_simps Some option.case by (rule yields_return)
  next
    case None
    note after = first_match_leaf(2) [OF d k none None]
    show ?thesis
    proof (cases "op = OpEqual")
      case True
      have "first_match op key kvs = None"
      proof (rule first_match_none)
        show "\<not> op_matches op (order_of (fst (kvs ! i)) key)" if "i < length kvs" for i
          using after [of i] target_leaf(3) [OF d key(1), of i] eq [OF True] that leaf_start_simps(2) [OF k] True
          by (cases "i < leaf_start gs (Suc k)") (auto simp: op_matches_def)
      qed
      then have "turn_ok gs op key kvs k (Done None)" by (simp add: turn_ok_def finds_def)
      then show ?thesis unfolding search_turn_def v ls op_simps None option.case using True by (simp add: yields_return)
    next
      case ne: False
      show ?thesis
      proof (cases "k + 1 < length (nodes gs 0)")
        case True
        then have "turn_ok gs op key kvs k (Step (nodes gs 0 ! (k + 1)))" using ne after by (simp add: turn_ok_def)
        then show ?thesis unfolding search_turn_def v ls op_simps None option.case using ne rs True by (simp add: yields_return)
      next
        case False
        then have e: "Suc k = length (nodes gs 0)" using k by simp
        then have "first_match op key kvs = None" using after leaf_start_end [of gs] kv(1) by (intro first_match_none) simp
        then have "turn_ok gs op key kvs k (Done None)" by (simp add: turn_ok_def finds_def)
        moreover have "k = length (nodes gs 0) - 1" using e by simp
        ultimately have "yields I SE (turn_ok gs op key kvs k) (if \<not> ends then op_fail (at_page (nodes gs 0 ! k) corrupt) else op_return (Done None))"
          if "nodes gs 0 ! k = nodes gs 0 ! (if True then length (nodes gs 0) - 1 else 0) \<longrightarrow> ends" for ends
          using that by (simp add: yields_return)
        from yields_bind [OF ends_at_ok [OF d p, of True] this]
        show ?thesis unfolding search_turn_def v ls op_simps None option.case rs o using ne False by simp
      qed
    qed
  qed
qed

lemma search_loop_ok:
  assumes d: "on_disk T lay psize gs ht rt kvs" and key: "valid key" "digest E key = Ok dig"
  shows "k < length (nodes gs 0) \<Longrightarrow> length (nodes gs 0) \<le> k + Suc n \<Longrightarrow> genuine (nodes gs 0 ! k) pin \<Longrightarrow>
    (\<And>i. i < leaf_start gs k \<Longrightarrow> \<not> op_matches op (order_of (fst (kvs ! i)) key)) \<Longrightarrow>
    (op = OpEqual \<Longrightarrow> k = target (\<lambda>k. order_of k key \<noteq> Greater) gs 0) \<Longrightarrow>
    yields I SE (finds gs (first_match op key kvs)) (search_loop S T key dig op False n pin)"
proof (induction n arbitrary: k pin)
  case 0
  show ?case unfolding search_loop.simps
  proof (rule yields_bind [OF search_turn_ok [OF d key 0(1,3,4,5)]], goal_cases)
    case (3 t)
    then show ?case using 0(1,2) by (cases t) (auto simp: turn_ok_def intro: yields_return)
  qed
next
  case (Suc n)
  show ?case unfolding search_loop.simps
  proof (rule yields_bind [OF search_turn_ok [OF d key Suc.prems(1,3,4,5)]], goal_cases)
    case (3 t)
    show ?case
    proof (cases t)
      case (Done r)
      then show ?thesis using 3 by (simp add: turn_ok_def yields_return)
    next
      case (Step right)
      then have t: "op \<noteq> OpEqual" "Suc k < length (nodes gs 0)" "right = nodes gs 0 ! Suc k"
        "\<And>i. i < leaf_start gs (Suc k) \<Longrightarrow> \<not> op_matches op (order_of (fst (kvs ! i)) key)"
        using 3 by (auto simp: turn_ok_def)
      have o: "pin_ordinal pin = nodes gs 0 ! k" using Suc.prems(3) by (simp add: genuine_def)
      have l: "length (nodes gs 0) \<le> Suc k + Suc n" using Suc.prems(2) by simp
      have ss: "yields I SE (genuine (nodes gs 0 ! Suc k)) (step_sibling S T (nodes gs 0 ! k) (nodes gs 0 ! Suc k) True)"
        by (rule step_sibling_ok [OF d Suc.prems(1) t(2)]) simp
      show ?thesis unfolding Step turn.case o t(3)
        by (rule yields_bind [OF ss]) (rule Suc.IH [OF t(2) l _ t(4)], use t(1) in auto)
    qed
  qed
qed

lemma search_ok:
  assumes d: "on_disk T lay psize gs ht rt kvs" and key: "valid key"
  shows "yields I SE (finds gs (first_match op key kvs)) (search S T key op)"
proof -
  note b = on_disk_built [OF d]
  obtain dig where dig: "digest E key = Ok dig" using digest_total [OF key] by blast
  let ?k = "target (\<lambda>k. order_of k key \<noteq> Greater) gs 0"
  note tl = target_leaf [OF d key]
  have n: "length (nodes gs 0) \<le> ?k + Suc (saturating_add (st_page_count S) 1)"
  proof -
    have "length (nodes gs 0) \<le> length gs" using length_filter_le [of "\<lambda>i. Tree_Build.at_height 0 (gs ! i)" "[0..<length gs]"] by (simp add: nodes_def)
    then show ?thesis using b(7) built_level(6) [OF b(1) le0] by (simp add: saturating_add_def usize_max_def)
  qed
  have none: "\<not> op_matches op (order_of (fst (kvs ! i)) key)" if "i < leaf_start gs ?k" for i
    using tl(2) [OF that] by (cases op) (simp_all add: op_matches_def)
  show ?thesis unfolding search_def b(3) dig op_simps
  proof (rule yields_bind [OF descend_ok [OF d key dig]], goal_cases)
    case (1 r)
    then obtain pin where r: "r = Some (pin, False)" "genuine (nodes gs 0 ! ?k) pin" by blast
    have "yields I SE (finds gs (first_match op key kvs)) (search_loop S T key dig op False (saturating_add (st_page_count S) 1) pin)"
      by (rule search_loop_ok [OF d key dig tl(1) n r(2) none]) simp_all
    then show ?case by (simp add: r(1))
  qed
qed

end

subsection \<open>Values\<close>

lemma blob_image_parses:
  assumes "PAGE_PREFIX_LEN + length val < 2 ^ 31"
  shows "\<exists>v. page_parse (blob_image val) = Ok v \<and> pv_kind v = Leaf \<and> pv_entry_count v = 0"
proof -
  let ?img = "blob_image val"
  have len: "length ?img = 28 + length val" "28 + length val < 2 ^ 31"
    using slice_blob_image(2) [of val] assms by (simp_all add: PAGE_PREFIX_LEN_def)
  have "has_at ?img 0 ?img" using len by (intro has_at_self) (simp add: usize_max_def)
  then have f: "has_at ?img 0 (i32_to_le (int (28 + length val)))" "has_at ?img 4 (i32_to_le 0)" "has_at ?img 8 (i32_to_le 0)"
    "has_at ?img 12 (i64_to_le (- 1))" "has_at ?img 20 (i64_to_le (- 1))"
    using len by (simp_all add: blob_image_def at_append as_i32_small PAGE_PREFIX_LEN_def)
  note r = read_has_at(2) [OF f(1)] read_has_at(2) [OF f(2)] read_has_at(2) [OF f(3)] read_has_at(3) [OF f(4)] read_has_at(3) [OF f(5)]
  have k: "parse_kind 0 = Ok Leaf" "(0 :: int) AND FLAG_LEGACY_KEY_DIGESTS = 0" "(0 :: int) AND NOT (KIND_MASK OR KNOWN_FLAGS) = 0"
    "parse_layout 0 = \<lparr>eytzinger = False, compact_meta = False, omitted_keys = False\<rparr>"
    by (simp_all add: parse_kind_def parse_layout_def)
  show ?thesis
    using r len k by (simp add: page_parse_def format_consts Let_def checked_len_def ordinal_from_i64_def digest_area_size_def
      digest_slots_def meta_size_def leaf_meta_size_def checked_add_def checked_mul_def usize_max_def del: and_then_Ok_iff)
qed

context tree_store
begin

lemma leaf_value_at:
  assumes d: "on_disk T lay psize gs ht rt kvs" and k: "k < length (nodes gs 0)" and j: "j < length (leaf_entries gs k)"
    and g: "genuine (nodes gs 0 ! k) pin"
  defines "v \<equiv> node_view lay (gs ! (nodes gs 0 ! k))" and "val \<equiv> item_value (snd (leaf_entries gs k ! j))"
  shows "\<exists>e. leaf_entry v j = Ok e \<and> leaf_key v e = Ok (key_bytes lay (fst (leaf_entries gs k ! j)))
    \<and> ((\<exists>a. le_value e = Inline a (length val) \<and> a + length val \<le> pin_len pin \<and> slice (pin_bytes pin) a (length val) = val)
       \<or> (\<exists>p. le_value e = Overflow p \<and> (PAGE_PREFIX_LEN + length val < 2 ^ 31 \<longrightarrow> disk p = Some (blob_image val))))"
proof -
  note b = on_disk_built [OF d]
  let ?p = "nodes gs 0 ! k" and ?ents = "leaf_entries gs k"
  have p: "?p \<in> set (nodes gs 0)" using k by simp
  let ?l = "node_level (gs ! ?p)"
  let ?b = "base_of lay True (lv_entry_count ?l)"
  have wf: "level_wf E lay psize gs True ?l ?ents" using built_level(7) [OF b(1) le0 p] by simp
  have ok: "settings_ok lay psize" "length gs \<le> 2147483647" using built_level(5,6) [OF b(1) le0] by auto
  then have gl: "length gs \<le> 2 ^ 31" by simp
  note img = level_image [OF wf ok(1) gl]
  have h: "holds E lay ?l ?ents" and it: "item_ok gs True (snd (?ents ! j))" using wf j by (auto simp: level_wf_def)
  have hh: "node_height (gs ! ?p) = 0" using node_page_at(1) [OF p] by (cases "gs ! ?p") auto
  have v: "v = image_view lay True ?b (node_right (gs ! ?p)) ?l" by (simp add: v_def node_view_def hh)
  have jl: "j < lv_entry_count ?l" using j level_wf_count [OF wf] by simp
  note st = holds_stored [OF h j]
  have bytes: "pv_bytes v = pin_bytes pin"
    using page_parse_wf [of "pin_bytes pin" v] node_at(1) [OF d le0 p g] unfolding v_def by (auto simp: pin_view_def)
  obtain e where e: "leaf_entry v j = Ok e" "leaf_key v e = Ok (stored_key ?l j)"
    "if lv_overflow ?l ! j = None
     then \<exists>off. le_value e = Inline off (entry_val_len ?l j)
       \<and> off = ?b + entry_start ?l j + entry_key_len ?l j \<and> inline_value v off (entry_val_len ?l j) = Ok (stored_val ?l j)
     else \<exists>p < 2 ^ 63. le_value e = Overflow p \<and> stored_val ?l j = i64_to_le (int p)"
    using image_leaf_entry [OF img jl, of "node_right (gs ! ?p)"] unfolding v by blast
  have ov: "lv_overflow ?l ! j = item_ref (snd (?ents ! j))" using h j by (simp add: holds_def)
  show ?thesis
  proof (cases "snd (?ents ! j)")
    case (Stored x)
    then have "\<exists>off. le_value e = Inline off (length val) \<and> inline_value v off (length val) = Ok val"
      using e(3) ov st by (auto simp: val_def)
    then obtain off where o: "le_value e = Inline off (length val)" "inline_value v off (length val) = Ok val" by blast
    have "off + length val \<le> length (pin_bytes pin) \<and> slice (pin_bytes pin) off (length val) = val"
      using o(2) bytes by (auto simp: inline_value_def read_slice_Ok_iff fits_def)
    then show ?thesis using e(1,2) st(1) o(1) by (auto simp: pin_len_def)
  next
    case (Spilled q x)
    then obtain q' where q': "q' < 2 ^ 63" "le_value e = Overflow q'" "i64_to_le (as_i64 q) = i64_to_le (int q')"
      using e(3) ov st by auto
    have q: "q < length gs" "gs ! q = BlobPage x" using it Spilled by auto
    have "q = q'" using q'(1,3) q(1) ok(2) le_nat_i64 [of q] le_nat_i64 [of q'] by (simp add: as_i64_small)
    moreover have "PAGE_PREFIX_LEN + length x < 2 ^ 31 \<longrightarrow> disk q = Some (blob_image x)" using d q by (simp add: on_disk_def)
    ultimately show ?thesis using e(1,2) st(1) q'(2) Spilled by (auto simp: val_def)
  next
    case (Child q)
    then show ?thesis using it by simp
  qed
qed

text \<open>The value of a located entry, wherever it is stored.\<close>

definition range_holds :: "bytes \<Rightarrow> PagePin \<times> nat \<times> nat \<Rightarrow> bool" where
  "range_holds val = (\<lambda>(pin, a, b). a \<le> b \<and> b \<le> pin_len pin \<and> slice (pin_bytes pin) a (b - a) = val)"

lemma blob_pin_ok:
  assumes "PAGE_PREFIX_LEN + length val < 2 ^ 31" "pin_bytes pin = blob_image val"
  shows "\<exists>x. blob_from_pin pin = Ok x \<and> range_holds val x"
  using blob_image_parses [OF assms(1)] slice_blob_image [of val] assms(2)
  by (auto simp: blob_from_pin_def pin_view_def range_holds_def pin_len_def)

lemma on_disk_values:
  assumes "on_disk T lay psize gs ht rt kvs" "k < length (nodes gs 0)" "j < length (leaf_entries gs k)"
  shows "kvs ! (leaf_start gs k + j) = plain (leaf_entries gs k ! j)" "leaf_start gs k + j < length kvs"
proof -
  have "kvs = map plain (content gs 0)" using on_disk_built(1) [OF assms(1)] by (simp add: built_def)
  then show "kvs ! (leaf_start gs k + j) = plain (leaf_entries gs k ! j)" "leaf_start gs k + j < length kvs"
    using leaf_nth [OF assms(2,3)] by simp_all
qed

lemma located_entry:
  assumes d: "on_disk T lay psize gs ht rt kvs" and l: "located gs pin j i"
  shows "i < length kvs" "\<exists>v. pin_view pin = Ok v \<and> pv_kind v = Leaf \<and> j < pv_entry_count v \<and> (\<exists>e. leaf_entry v j = Ok e
    \<and> leaf_key v e = Ok (key_bytes lay (fst (kvs ! i)))
    \<and> (PAGE_PREFIX_LEN + length (snd (kvs ! i)) < 2 ^ 31 \<longrightarrow> yields I SE (range_holds (snd (kvs ! i))) (resolve_value S pin e)))"
proof -
  obtain k where k: "k < length (nodes gs 0)" "genuine (nodes gs 0 ! k) pin" "j < length (leaf_entries gs k)" "i = leaf_start gs k + j"
    using l by (auto simp: located_def)
  note kv = on_disk_values [OF d k(1,3), folded k(4)]
  have p: "nodes gs 0 ! k \<in> set (nodes gs 0)" using k(1) by simp
  note na = node_at [OF d le0 p]
  show "i < length kvs" by (rule kv(2))
  obtain e where e: "leaf_entry (node_view lay (gs ! (nodes gs 0 ! k))) j = Ok e"
    "leaf_key (node_view lay (gs ! (nodes gs 0 ! k))) e = Ok (key_bytes lay (fst (kvs ! i)))"
    "(\<exists>a. le_value e = Inline a (length (snd (kvs ! i))) \<and> a + length (snd (kvs ! i)) \<le> pin_len pin
        \<and> slice (pin_bytes pin) a (length (snd (kvs ! i))) = snd (kvs ! i))
     \<or> (\<exists>p. le_value e = Overflow p \<and> (PAGE_PREFIX_LEN + length (snd (kvs ! i)) < 2 ^ 31 \<longrightarrow> disk p = Some (blob_image (snd (kvs ! i)))))"
    using leaf_value_at [OF d k(1,3,2)] by (auto simp: kv(1) plain_def)
  have "yields I SE (range_holds (snd (kvs ! i))) (resolve_value S pin e)" if big: "PAGE_PREFIX_LEN + length (snd (kvs ! i)) < 2 ^ 31"
    using e(3)
  proof (elim disjE exE conjE)
    fix a
    assume a: "le_value e = Inline a (length (snd (kvs ! i)))" "a + length (snd (kvs ! i)) \<le> pin_len pin"
      "slice (pin_bytes pin) a (length (snd (kvs ! i))) = snd (kvs ! i)"
    then show ?thesis by (auto simp: resolve_value_def range_holds_def intro: yields_return)
  next
    fix q
    assume q': "le_value e = Overflow q" "PAGE_PREFIX_LEN + length (snd (kvs ! i)) < 2 ^ 31 \<longrightarrow> disk q = Some (blob_image (snd (kvs ! i)))"
    then have q: "le_value e = Overflow q" "disk q = Some (blob_image (snd (kvs ! i)))" using big by simp_all
    show ?thesis unfolding resolve_value_def q(1) LeafValue.case blob_def
    proof (rule yields_bind [OF page_genuine], goal_cases)
      case (2 bp)
      then have "pin_bytes bp = blob_image (snd (kvs ! i))" using q(2) by (simp add: genuine_def)
      from blob_pin_ok [OF big this] show ?case by (auto intro: yields_lift)
    qed (simp add: q(2))
  qed
  then show "\<exists>v. pin_view pin = Ok v \<and> pv_kind v = Leaf \<and> j < pv_entry_count v \<and> (\<exists>e. leaf_entry v j = Ok e
    \<and> leaf_key v e = Ok (key_bytes lay (fst (kvs ! i)))
    \<and> (PAGE_PREFIX_LEN + length (snd (kvs ! i)) < 2 ^ 31 \<longrightarrow> yields I SE (range_holds (snd (kvs ! i))) (resolve_value S pin e)))"
    using na(1) [OF k(2)] na(2,3) e(1,2) k(3) by auto
qed

subsection \<open>Lookups that only use cached pages\<close>

lemma check_page_exact:
  assumes d: "on_disk T lay psize gs ht rt kvs" and h: "h \<le> ht" "p \<in> set (nodes gs h)" and g: "genuine p pin" and s: "I s"
  shows "\<exists>s'. check_page S T pin s = Some (Ok (), s') \<and> I s'"
proof -
  obtain r s' where r: "check_page S T pin s = Some (r, s')" "I s'" using check_page_ok [OF d h g] s by (rule yieldsD)
  note n = node_at [OF d h]
  have "r = Ok ()" using n(1) [OF g] n(6) on_disk_built(3) [OF d] r(1)
    by (auto simp: check_page_def op_return_def op_bind_def op_lift_def split: if_splits)
  then show ?thesis using r by auto
qed

lemma cached_turn_ok:
  assumes d: "on_disk T lay psize gs ht rt kvs" and h: "h \<le> ht" "cw_ordinal c \<in> set (nodes gs h)"
    and c: "in_hand (cw_ordinal c) (cw_current c)" "cw_descending c" "0 < cw_depth_left c" and s: "I s"
  shows "\<exists>s'. I s' \<and> (cached_turn S T key dig c s = Some (Ok (Stop None), s') \<or> (\<exists>pin. genuine (cw_ordinal c) pin
    \<and> cached_turn S T key dig c s = Some (cached_visit T key dig (c\<lparr>cw_depth_left := cw_depth_left c - 1\<rparr>) pin, s')))"
proof (cases "cw_current c")
  case (Some pin)
  then show ?thesis using c s by (auto simp: cached_turn_def in_hand_def)
next
  case None
  obtain r t where r: "st_page_cached S (cw_ordinal c) s = (r, t)" by fastforce
  note cs = cached_sound [OF s r]
  show ?thesis
  proof (cases r)
    case none: None
    then show ?thesis using None r cs c by (auto simp: cached_turn_def)
  next
    case (Some pin)
    then have g: "genuine (cw_ordinal c) pin" "I t" using cs by (auto simp: genuine_def)
    obtain t' where "check_page S T pin t = Some (Ok (), t')" "I t'" using check_page_exact [OF d h g] by blast
    then show ?thesis using None r c Some g(1) by (intro exI [of _ t']) (auto simp: cached_turn_def op_bind_def op_lift_def)
  qed
qed

lemma cached_loop_ok:
  assumes d: "on_disk T lay psize gs ht rt kvs" and key: "valid key" "digest E key = Ok dig"
  defines "P \<equiv> \<lambda>k. order_of k key \<noteq> Greater"
  shows "h \<le> ht \<Longrightarrow> cw_ordinal c = nodes gs h ! target P gs h \<Longrightarrow> in_hand (cw_ordinal c) (cw_current c) \<Longrightarrow>
    cw_descending c \<Longrightarrow> h < cw_depth_left c \<Longrightarrow> \<not> cw_conservative c \<Longrightarrow> I s \<Longrightarrow>
    \<exists>r s'. cached_loop S T key dig c s = Some (Ok r, s') \<and> I s' \<and> (\<forall>q. r = Some q \<longrightarrow> finds gs (first_match OpEqual key kvs) q)"
proof (induction h arbitrary: c s)
  case 0
  note b = on_disk_built [OF d] and tl = target_leaf [OF d key(1), folded P_def]
  let ?k = "target P gs 0"
  have p: "cw_ordinal c \<in> set (nodes gs 0)" using 0(2) tl(1) by simp
  note na = node_at [OF d le0 p]
  let ?f = "find (\<lambda>j. op_matches OpEqual (order_of (fst (leaf_entries gs ?k ! j)) key)) [0..<length (leaf_entries gs ?k)]"
  have none: "\<And>i. i < leaf_start gs ?k \<Longrightarrow> \<not> op_matches OpEqual (order_of (fst (kvs ! i)) key)"
    using tl(2) by (simp add: op_matches_def)
  have fin: "finds gs (first_match OpEqual key kvs) (map_option (\<lambda>j. (pin, j)) ?f)" if "genuine (cw_ordinal c) pin" for pin
  proof (cases ?f)
    case None
    have "first_match OpEqual key kvs = None"
    proof (rule first_match_none)
      show "\<not> op_matches OpEqual (order_of (fst (kvs ! i)) key)" if "i < length kvs" for i
        using first_match_leaf(2) [OF d tl(1) none None, of i] tl(3) [of i] that leaf_start_simps(2) [OF tl(1)]
        by (cases "i < leaf_start gs (Suc ?k)") (auto simp: op_matches_def)
    qed
    then show ?thesis using None by (simp add: finds_def)
  next
    case (Some j)
    then show ?thesis using first_match_leaf(1) [OF d tl(1) none Some] tl(1) that 0(2) by (auto simp: finds_def located_def)
  qed
  have vis: "cached_visit T key dig (c\<lparr>cw_depth_left := n\<rparr>) pin = Ok (Stop (Some (map_option (\<lambda>j. (pin, j)) ?f)))"
    if "genuine (cw_ordinal c) pin" for pin n
    using na(1) [OF that] na(2) na(7) [OF key, of OpEqual] b(3) 0(2,6) by (cases ?f) (simp_all add: cached_visit_def)
  have "0 < cw_depth_left c" using 0(5) by simp
  then obtain s' where s': "I s'" "cached_turn S T key dig c s = Some (Ok (Stop None), s') \<or> (\<exists>pin. genuine (cw_ordinal c) pin
      \<and> cached_turn S T key dig c s = Some (cached_visit T key dig (c\<lparr>cw_depth_left := cw_depth_left c - 1\<rparr>) pin, s'))"
    using cached_turn_ok [OF d le0 p 0(3,4) _ 0(7)] by blast
  then show ?case using fin by (subst cached_loop.simps) (auto simp: vis)
next
  case (Suc h)
  note b = on_disk_built [OF d]
  let ?p = "cw_ordinal c" and ?q = "nodes gs h ! target P gs h"
  have p: "?p \<in> set (nodes gs (Suc h))" using target_less [OF built_level(1) [OF b(1) Suc.prems(1)]] Suc.prems(2) by simp
  have q: "?q \<in> set (nodes gs h)" using target_less [OF built_level(1) [OF b(1), of h]] Suc.prems(1) by simp
  note na = node_at [OF d Suc.prems(1) p]
  have down: "downward (\<lambda>e. P (fst e)) (content gs (Suc h))"
    unfolding P_def by (rule stored_downward [OF stored_level [OF b(1,2) Suc.prems(1)] key(1)])
  note st = target_step [OF b(1) Suc.prems(1) down, folded Suc.prems(2)]
  have ix: "internal_child_index E (node_view lay (gs ! ?p)) key dig = Ok (pick (\<lambda>e. P (fst e)) (node_entries (gs ! ?p)), False)"
    using na(8) [OF key] by (simp add: P_def)
  note ch = child_ok [OF d Suc.prems(1) p st q]
  let ?c = "c\<lparr>cw_depth_left := cw_depth_left c - 1, cw_ordinal := ?q, cw_current := None\<rparr>"
  have vis: "cached_visit T key dig (c\<lparr>cw_depth_left := cw_depth_left c - 1\<rparr>) pin = Ok (Go ?c)" if "genuine ?p pin" for pin
    using na(1) [OF that] na(2,3) ix ch b(3) st(1) Suc.prems(6) by (auto simp: cached_visit_def)
  have IH: "\<exists>r s'. cached_loop S T key dig ?c t = Some (Ok r, s') \<and> I s' \<and> (\<forall>q. r = Some q \<longrightarrow> finds gs (first_match OpEqual key kvs) q)"
    if "I t" for t
    using Suc.prems that by (intro Suc.IH) (auto simp: in_hand_def)
  have "0 < cw_depth_left c" using Suc.prems(5) by simp
  then obtain s' where s': "I s'" "cached_turn S T key dig c s = Some (Ok (Stop None), s') \<or> (\<exists>pin. genuine (cw_ordinal c) pin
      \<and> cached_turn S T key dig c s = Some (cached_visit T key dig (c\<lparr>cw_depth_left := cw_depth_left c - 1\<rparr>) pin, s'))"
    using cached_turn_ok [OF d Suc.prems(1) p Suc.prems(3,4) _ Suc.prems(7)] by blast
  from s'(2) show ?case
  proof (elim disjE exE conjE)
    assume "cached_turn S T key dig c s = Some (Ok (Stop None), s')"
    then show ?thesis using s'(1) by (subst cached_loop.simps) simp
  next
    fix pin
    assume "genuine ?p pin" "cached_turn S T key dig c s = Some (cached_visit T key dig (c\<lparr>cw_depth_left := cw_depth_left c - 1\<rparr>) pin, s')"
    then show ?thesis using IH [OF s'(1)] vis by (subst cached_loop.simps) simp
  qed
qed

lemma find_cached_ok:
  assumes d: "on_disk T lay psize gs ht rt kvs" and key: "valid key" and s: "I s"
  shows "\<exists>r s'. find_cached S T key s = Some (Ok r, s') \<and> I s' \<and> (\<forall>q. r = Some q \<longrightarrow> finds gs (first_match OpEqual key kvs) q)"
proof -
  note b = on_disk_built [OF d]
  obtain dig where dig: "digest E key = Ok dig" using digest_total [OF key] by blast
  have "\<exists>r t. root_page_cached S T s = Some (Ok r, t) \<and> I t \<and> (\<forall>pin. r = Some pin \<longrightarrow> genuine rt pin)"
  proof (cases "fst (st_retained_root S (tree_id T) s)")
    case (Some pin)
    then obtain s1 where r: "st_retained_root S (tree_id T) s = (Some pin, s1)" by (metis prod.collapse)
    then show ?thesis using retained_sound [OF s r] b(5) by (auto simp: root_page_cached_def genuine_def)
  next
    case no: None
    then obtain s1 where None: "st_retained_root S (tree_id T) s = (None, s1)" by (metis prod.collapse)
    have s1: "I s1" using retained_sound [OF s None] by simp
    obtain r t where r: "st_page_cached S rt s1 = (r, t)" by fastforce
    note cs = cached_sound [OF s1 r]
    show ?thesis
    proof (cases r)
      case none: None
      then show ?thesis using None r cs b(4) by (auto simp: root_page_cached_def)
    next
      case (Some pin)
      then have g: "genuine rt pin" "I t" using cs by (auto simp: genuine_def)
      obtain t' where "check_page S T pin t = Some (Ok (), t')" "I t'" using check_page_exact [OF d order_refl root_in [OF d] g] by blast
      then show ?thesis using None r Some g(1) b(4) by (auto simp: root_page_cached_def op_bind_def op_return_def)
    qed
  qed
  then obtain r t where r: "root_page_cached S T s = Some (Ok r, t)" "I t" "\<And>pin. r = Some pin \<Longrightarrow> genuine rt pin" by blast
  show ?thesis
  proof (cases r)
    case None
    then show ?thesis using r b(3,4) dig by (simp add: find_cached_def)
  next
    case (Some pin)
    have q: "nodes gs ht ! target (\<lambda>k. order_of k key \<noteq> Greater) gs ht = rt" using b(1) target_top [OF b(1)] by (simp add: built_def)
    let ?c = "\<lparr>cw_ordinal = pin_ordinal pin, cw_current = Some pin, cw_conservative = False,
        cw_steps_left = saturating_add (st_page_count S) 1, cw_depth_left = st_max_tree_depth S, cw_descending = True\<rparr>"
    have "\<exists>r s'. cached_loop S T key dig ?c t = Some (Ok r, s') \<and> I s' \<and> (\<forall>q. r = Some q \<longrightarrow> finds gs (first_match OpEqual key kvs) q)"
      using r(2,3) Some b(6) q by (intro cached_loop_ok [OF d key dig order_refl]) (auto simp: in_hand_def genuine_def)
    then show ?thesis using r(1) Some b(3,4) dig by (simp add: find_cached_def)
  qed
qed

end

end
