(* ===== verification/Memory.thy ===== *)
theory Memory
  imports Pages Budget "HOL-Library.Multiset"
begin

text \<open>
  The buffers of \<^verbatim>\<open>crates/drydb/src/page.rs\<close> as counted objects, with the budget their charges
  draw on.  A buffer is a number; a \<open>PagePin\<close> holds one reference to it, and its charge goes
  back to the budget with the last reference.  The lemmas keep one account: the charges of
  the live buffers, and \<open>h\<close> bytes that are charged for anything else, are what the budget has
  given out.
\<close>

record Memory =
  mem_budget :: Budget
  mem_count :: "nat \<Rightarrow> nat"
  mem_charge :: "nat \<Rightarrow> charge"
  mem_checked :: "nat \<Rightarrow> nat"
  mem_next :: nat

definition memory_new :: "Budget \<Rightarrow> Memory" where
  "memory_new b = \<lparr>mem_budget = b, mem_count = \<lambda>_. 0, mem_charge = \<lambda>_. 0, mem_checked = \<lambda>_. 0, mem_next = 0\<rparr>"

text \<open>A new buffer takes over the charge reserved for it.\<close>

definition buffer_new :: "page_ordinal \<Rightarrow> bytes \<Rightarrow> charge \<Rightarrow> Memory \<Rightarrow> PagePin \<times> Memory" where
  "buffer_new ordinal data c m =
     (\<lparr>pin_buffer = mem_next m, pin_ordinal = ordinal, pin_bytes = data\<rparr>,
      m\<lparr>mem_count := (mem_count m)(mem_next m := 1), mem_charge := (mem_charge m)(mem_next m := c),
        mem_checked := (mem_checked m)(mem_next m := 0), mem_next := mem_next m + 1\<rparr>)"

definition pin_clone :: "PagePin \<Rightarrow> Memory \<Rightarrow> Memory" where
  "pin_clone pin m = m\<lparr>mem_count := (mem_count m)(pin_buffer pin := mem_count m (pin_buffer pin) + 1)\<rparr>"

definition pin_drop :: "PagePin \<Rightarrow> Memory \<Rightarrow> Memory" where
  "pin_drop pin m =
     (let b = pin_buffer pin; m' = m\<lparr>mem_count := (mem_count m)(b := mem_count m b - 1)\<rparr> in
      if mem_count m b = 1 then m'\<lparr>mem_budget := charge_drop (mem_charge m b) (mem_budget m)\<rparr> else m')"

definition digests_checked_by :: "PagePin \<Rightarrow> nat \<Rightarrow> Memory \<Rightarrow> bool" where
  "digests_checked_by pin tree m \<longleftrightarrow> mem_checked m (pin_buffer pin) = tree"

definition mark_digests_checked :: "PagePin \<Rightarrow> nat \<Rightarrow> Memory \<Rightarrow> Memory" where
  "mark_digests_checked pin tree m = m\<lparr>mem_checked := (mem_checked m)(pin_buffer pin := tree)\<rparr>"

definition mem_reserve :: "nat \<Rightarrow> Memory \<Rightarrow> (charge \<times> Memory) result" where
  "mem_reserve n m = and_then (try_reserve (mem_budget m) n) (\<lambda>(c, b). Ok (c, m\<lparr>mem_budget := b\<rparr>))"

definition mem_release :: "charge \<Rightarrow> Memory \<Rightarrow> Memory" where
  "mem_release c m = m\<lparr>mem_budget := charge_drop c (mem_budget m)\<rparr>"

subsection \<open>The account\<close>

definition live_bytes :: "Memory \<Rightarrow> nat" where
  "live_bytes m = (\<Sum>b<mem_next m. if 0 < mem_count m b then mem_charge m b else 0)"

text \<open>\<open>R\<close> is who holds a reference to which buffer.\<close>

definition mem_inv :: "nat \<Rightarrow> Memory \<Rightarrow> nat multiset \<Rightarrow> nat \<Rightarrow> bool" where
  "mem_inv lim m R h \<longleftrightarrow> mem_count m = count R \<and> (\<forall>b \<in># R. b < mem_next m)
     \<and> limit (mem_budget m) = lim \<and> accounts (mem_budget m) (live_bytes m + h)"

lemma live_bytes_cong:
  "mem_next m = mem_next m' \<Longrightarrow> mem_charge m = mem_charge m' \<Longrightarrow> (\<And>b. 0 < mem_count m b \<longleftrightarrow> 0 < mem_count m' b) \<Longrightarrow>
    live_bytes m = live_bytes m'"
  by (simp add: live_bytes_def cong: if_cong)

lemma live_bytes_simps [simp]:
  "live_bytes (m\<lparr>mem_budget := b\<rparr>) = live_bytes m" "live_bytes (m\<lparr>mem_checked := f\<rparr>) = live_bytes m"
  by (rule live_bytes_cong; simp)+

lemma mem_inv_new: "lim \<le> usize_max \<Longrightarrow> mem_inv lim (memory_new (budget_new lim)) {#} 0"
  by (simp add: mem_inv_def memory_new_def budget_new_def accounts_def live_bytes_def fun_eq_iff)

lemma pin_clone_inv:
  assumes "mem_inv lim m R h" "pin_buffer pin \<in># R"
  shows "mem_inv lim (pin_clone pin m) (add_mset (pin_buffer pin) R) h"
proof -
  have "0 < mem_count m (pin_buffer pin)" using assms by (simp add: mem_inv_def)
  then have "live_bytes (pin_clone pin m) = live_bytes m" by (intro live_bytes_cong) (auto simp: pin_clone_def)
  then show ?thesis using assms by (auto simp: mem_inv_def pin_clone_def)
qed

lemma pin_drop_inv:
  assumes "mem_inv lim m (add_mset (pin_buffer pin) R) h"
  shows "mem_inv lim (pin_drop pin m) R h"
proof -
  let ?b = "pin_buffer pin"
  have c: "mem_count m = (count R)(?b := Suc (count R ?b))" and b: "?b < mem_next m" and r: "\<forall>b \<in># R. b < mem_next m"
    and a: "limit (mem_budget m) = lim" "accounts (mem_budget m) (live_bytes m + h)"
    using assms by (auto simp: mem_inv_def)
  show ?thesis
  proof (cases "count R ?b = 0")
    case True
    let ?f = "\<lambda>x. if 0 < mem_count m x then mem_charge m x else 0" and ?g = "\<lambda>x. if 0 < count R x then mem_charge m x else 0"
    have "(\<Sum>x<mem_next m. ?f x) = ?f ?b + (\<Sum>x\<in>{..<mem_next m} - {?b}. ?f x)"
      using b by (intro sum.remove) auto
    moreover have "(\<Sum>x<mem_next m. ?g x) = ?g ?b + (\<Sum>x\<in>{..<mem_next m} - {?b}. ?g x)"
      using b by (intro sum.remove) auto
    moreover have "(\<Sum>x\<in>{..<mem_next m} - {?b}. ?f x) = (\<Sum>x\<in>{..<mem_next m} - {?b}. ?g x)"
      by (rule sum.cong) (auto simp: c)
    ultimately have l: "live_bytes m = mem_charge m ?b + (\<Sum>x<mem_next m. ?g x)"
      using True by (simp add: live_bytes_def c)
    let ?m = "pin_drop pin m"
    have "mem_budget ?m = budget_release (mem_budget m) (mem_charge m ?b)" "mem_count ?m = count R" "mem_next ?m = mem_next m"
      "mem_charge ?m = mem_charge m"
      using True by (auto simp: pin_drop_def c Let_def charge_drop_def)
    moreover have "accounts (budget_release (mem_budget m) (mem_charge m ?b)) (live_bytes m + h - mem_charge m ?b)"
      using budget_release_accounts [OF a(2), of "mem_charge m ?b"] l by simp
    ultimately show ?thesis using a r l by (simp add: mem_inv_def live_bytes_def cong: if_cong)
  next
    case False
    then have m: "pin_drop pin m = m\<lparr>mem_count := count R\<rparr>" by (simp add: pin_drop_def c Let_def count_eq_zero_iff)
    have "live_bytes (pin_drop pin m) = live_bytes m" using False by (intro live_bytes_cong) (auto simp: m c)
    then show ?thesis using a r by (simp add: mem_inv_def m)
  qed
qed

lemma buffer_new_inv:
  assumes "mem_inv lim m R (h + c)" "buffer_new ordinal data c m = (pin, m')"
  shows "mem_inv lim m' (add_mset (pin_buffer pin) R) h" "pin_ordinal pin = ordinal" "pin_bytes pin = data"
proof -
  let ?b = "mem_next m"
  have p: "pin = \<lparr>pin_buffer = ?b, pin_ordinal = ordinal, pin_bytes = data\<rparr>" and m: "m' = m\<lparr>mem_count := (mem_count m)(?b := 1),
      mem_charge := (mem_charge m)(?b := c), mem_checked := (mem_checked m)(?b := 0), mem_next := ?b + 1\<rparr>"
    using assms(2) by (auto simp: buffer_new_def)
  have f: "?b \<notin># R" "\<forall>b \<in># R. b < ?b" "mem_count m = count R" using assms(1) by (auto simp: mem_inv_def)
  have "(\<Sum>b<?b. if 0 < mem_count m' b then mem_charge m' b else 0) = live_bytes m"
    unfolding live_bytes_def by (rule sum.cong) (auto simp: m cong: if_cong)
  moreover have "mem_next m' = Suc ?b" "mem_count m' ?b = 1" "mem_charge m' ?b = c" by (simp_all add: m)
  ultimately have "live_bytes m' = live_bytes m + c" unfolding live_bytes_def [of m'] by simp
  moreover have "mem_count m' = count (add_mset ?b R)" using f(1,3) by (auto simp: m fun_eq_iff not_in_iff)
  ultimately show "mem_inv lim m' (add_mset (pin_buffer pin) R) h"
    using assms(1) f(2) by (auto simp: mem_inv_def m p add.commute add.left_commute)
  show "pin_ordinal pin = ordinal" "pin_bytes pin = data" by (simp_all add: p)
qed

lemma mark_inv: "mem_inv lim m R h \<Longrightarrow> mem_inv lim (mark_digests_checked pin tree m) R h"
  by (simp add: mem_inv_def mark_digests_checked_def)

lemma mem_reserve_inv:
  assumes "mem_inv lim m R h"
  shows "mem_reserve n m = Ok (c, m') \<Longrightarrow> c = n \<and> mem_inv lim m' R (h + n)"
    "mem_reserve n m = Err e \<Longrightarrow> err_kind e = BudgetExceeded"
  using assms budget_take_Ok_accounts [of "mem_budget m" "live_bytes m + h" n] budget_take_accounts [of "mem_budget m" "live_bytes m + h" n]
  by (auto simp: mem_reserve_def try_reserve_def mem_inv_def add.assoc split: if_splits)

lemma mem_release_inv: "mem_inv lim m R (h + c) \<Longrightarrow> mem_inv lim (mem_release c m) R h"
  using budget_release_accounts [of "mem_budget m" "live_bytes m + (h + c)" c]
  by (auto simp: mem_release_def charge_drop_def mem_inv_def)

lemma settle_inv:
  assumes "mem_inv lim m R (h + bookkeeping_bytes k)" "bookkeeping_settle k want (mem_budget m) = Ok (k', b')"
  shows "mem_inv lim (m\<lparr>mem_budget := b'\<rparr>) R (h + bookkeeping_bytes k')"
  using bookkeeping_settle_accounts [of "mem_budget m" "live_bytes m + h" k want k' b'] assms
  by (auto simp: mem_inv_def add.assoc)

text \<open>The budget is never exceeded, whatever is held.\<close>

lemma mem_inv_bounded: "mem_inv lim m R h \<Longrightarrow> used (mem_budget m) = live_bytes m + h \<and> used (mem_budget m) \<le> lim \<and> peak (mem_budget m) \<le> lim"
  by (auto simp: mem_inv_def accounts_def)

end
