(* ===== verification/Cache.thy ===== *)
theory Cache
  imports Memory
begin

text \<open>
  The sharded page cache (\<^verbatim>\<open>crates/drydb/src/cache.rs\<close>), used by one caller at a time.  A shard
  is a map from ordinals to slots and the ring of the CLOCK policy; it is charged for what
  both have allocated.  What the standard library allocates for a map or a ring is its own
  business, so the capacities they report after an operation are parameters (\<open>Alloc\<close>), as
  are the sizes the compiler gives to the entries.
\<close>

subsection \<open>Maps\<close>

definition map_insert :: "'k \<Rightarrow> 'v \<Rightarrow> ('k \<times> 'v) list \<Rightarrow> ('k \<times> 'v) list" where
  "map_insert k v al = (k, v) # filter (\<lambda>x. fst x \<noteq> k) al"

definition map_remove :: "'k \<Rightarrow> ('k \<times> 'v) list \<Rightarrow> ('k \<times> 'v) list" where
  "map_remove k al = filter (\<lambda>x. fst x \<noteq> k) al"

definition map_modify :: "'k \<Rightarrow> ('v \<Rightarrow> 'v) \<Rightarrow> ('k \<times> 'v) list \<Rightarrow> ('k \<times> 'v) list" where
  "map_modify k f al = map (\<lambda>(k', v). (k', if k' = k then f v else v)) al"

record Alloc =
  map_cap_insert :: "nat \<Rightarrow> nat \<Rightarrow> nat"
  map_cap_remove :: "nat \<Rightarrow> nat \<Rightarrow> nat"
  map_cap_shrink :: "nat \<Rightarrow> nat \<Rightarrow> nat"
  ring_cap_push :: "nat \<Rightarrow> nat \<Rightarrow> nat"
  ring_cap_shrink :: "nat \<Rightarrow> nat \<Rightarrow> nat"
  slot_bytes :: nat
  shard_bytes :: nat
  root_entry_bytes :: nat

subsection \<open>A shard\<close>

datatype Slot = Ready PagePin nat bool | Loading

record ShardInner =
  sh_map :: "(page_ordinal \<times> Slot) list"
  sh_clock :: "page_ordinal list"
  sh_resident :: nat
  sh_map_slots :: nat
  sh_pending_pushes :: nat
  sh_book :: bookkeeping
  sh_map_capacity :: nat
  sh_clock_capacity :: nat

definition MAX_SHARDS :: nat where "MAX_SHARDS = 1024"
definition LOADING_SLOT_BYTES :: nat where "LOADING_SLOT_BYTES = 128"
definition RING_MIN_CAPACITY :: nat where "RING_MIN_CAPACITY = 4"
definition RESERVE_ATTEMPTS :: nat where "RESERVE_ATTEMPTS = 8"

definition shard_new :: ShardInner where
  "shard_new = \<lparr>sh_map = [], sh_clock = [], sh_resident = 0, sh_map_slots = 0, sh_pending_pushes = 0,
     sh_book = None, sh_map_capacity = 0, sh_clock_capacity = 0\<rparr>"

definition slots_insert :: "Alloc \<Rightarrow> page_ordinal \<Rightarrow> Slot \<Rightarrow> ShardInner \<Rightarrow> ShardInner" where
  "slots_insert A ordinal slot sh =
     (let al = map_insert ordinal slot (sh_map sh) in
      sh\<lparr>sh_map := al, sh_map_capacity := map_cap_insert A (sh_map_capacity sh) (length al)\<rparr>)"

definition slots_remove :: "Alloc \<Rightarrow> page_ordinal \<Rightarrow> ShardInner \<Rightarrow> ShardInner" where
  "slots_remove A ordinal sh =
     (let al = map_remove ordinal (sh_map sh) in
      sh\<lparr>sh_map := al, sh_map_capacity := map_cap_remove A (sh_map_capacity sh) (length al)\<rparr>)"

definition clock_push :: "Alloc \<Rightarrow> page_ordinal \<Rightarrow> ShardInner \<Rightarrow> ShardInner" where
  "clock_push A ordinal sh =
     sh\<lparr>sh_clock := sh_clock sh @ [ordinal],
        sh_clock_capacity := ring_cap_push A (sh_clock_capacity sh) (length (sh_clock sh) + 1)\<rparr>"

subsection \<open>What a shard costs\<close>

definition ring_bytes :: "nat \<Rightarrow> nat" where "ring_bytes capacity = capacity * 8"

function ring_grown :: "nat \<Rightarrow> nat \<Rightarrow> nat" where
  "ring_grown grown entries =
     (if grown < min entries usize_max then ring_grown (max (saturating_mul grown 2) RING_MIN_CAPACITY) entries else grown)"
  by pat_completeness auto
termination
proof (relation "measure (\<lambda>(g, n). min n usize_max - g)", simp, goal_cases)
  case (1 g n)
  then show ?case by (auto simp: saturating_mul_def RING_MIN_CAPACITY_def)
qed

declare ring_grown.simps [simp del]

definition ring_target_bytes :: "nat \<Rightarrow> nat \<Rightarrow> nat" where
  "ring_target_bytes capacity entries =
     (if entries \<le> capacity then ring_bytes capacity
      else let grown = ring_grown capacity entries in ring_bytes grown + ring_bytes (grown div 2))"

definition bookkeeping_footprint :: "Alloc \<Rightarrow> ShardInner \<Rightarrow> nat" where
  "bookkeeping_footprint A sh =
     hash_table_bytes (sh_map_slots sh) (slot_bytes A)
     + ring_target_bytes (sh_clock_capacity sh) (saturating_add (length (sh_clock sh)) (sh_pending_pushes sh))"

definition note_table :: "ShardInner \<Rightarrow> ShardInner" where
  "note_table sh = sh\<lparr>sh_map_slots := max (sh_map_slots sh) (sh_map_capacity sh)\<rparr>"

definition growth_for_one_more :: "Alloc \<Rightarrow> ShardInner \<Rightarrow> nat" where
  "growth_for_one_more A sh =
     (let map_want = hash_table_peak_bytes (sh_map_slots sh) (sh_map_capacity sh) (length (sh_map sh)) (slot_bytes A);
          ring_want = ring_target_bytes (sh_clock_capacity sh)
            (saturating_add (saturating_add (length (sh_clock sh)) (sh_pending_pushes sh)) 1) in
      saturating_sub (saturating_add map_want ring_want) (bookkeeping_bytes (sh_book sh)))"

definition shard_settle :: "nat \<Rightarrow> ShardInner \<Rightarrow> Memory \<Rightarrow> (ShardInner \<times> Memory) result" where
  "shard_settle want sh m =
     and_then (bookkeeping_settle (sh_book sh) want (mem_budget m)) (\<lambda>(k, b).
     Ok (sh\<lparr>sh_book := k\<rparr>, m\<lparr>mem_budget := b\<rparr>))"

definition settle_bookkeeping :: "Alloc \<Rightarrow> ShardInner \<Rightarrow> Memory \<Rightarrow> (ShardInner \<times> Memory) result" where
  "settle_bookkeeping A sh m = shard_settle (bookkeeping_footprint A sh) sh m"

text \<open>Settling where a failure is ignored: nothing changes then.\<close>

definition or_keep :: "(ShardInner \<times> Memory) result \<Rightarrow> ShardInner \<Rightarrow> Memory \<Rightarrow> ShardInner \<times> Memory" where
  "or_keep r sh m = (case r of Inr x \<Rightarrow> x | Inl e \<Rightarrow> (sh, m))"

definition shrink_table :: "Alloc \<Rightarrow> ShardInner \<Rightarrow> Memory \<Rightarrow> ShardInner \<times> Memory" where
  "shrink_table A sh m =
     (if sh_map_slots sh > 2 * length (sh_map sh) then
        (case shard_settle (bookkeeping_footprint A sh + hash_table_bytes (length (sh_map sh)) (slot_bytes A)) sh m of
           Inl e \<Rightarrow> (sh, m)
         | Inr (sh1, m1) \<Rightarrow>
             (let cap = map_cap_shrink A (sh_map_capacity sh1) (length (sh_map sh1)) in
              (sh1\<lparr>sh_map_capacity := cap,
                   sh_map_slots := (if cap \<noteq> sh_map_capacity sh1 then cap else sh_map_slots sh1)\<rparr>, m1)))
      else (sh, m))"

definition shrink_ring :: "Alloc \<Rightarrow> ShardInner \<Rightarrow> Memory \<Rightarrow> ShardInner \<times> Memory" where
  "shrink_ring A sh m =
     (let keep = saturating_add (length (sh_clock sh)) (sh_pending_pushes sh) in
      if sh_clock_capacity sh > 2 * keep then
        (case shard_settle (bookkeeping_footprint A sh + ring_bytes (next_power_of_two (max keep 4))) sh m of
           Inl e \<Rightarrow> (sh, m)
         | Inr (sh1, m1) \<Rightarrow> (sh1\<lparr>sh_clock_capacity := ring_cap_shrink A (sh_clock_capacity sh1) keep\<rparr>, m1))
      else (sh, m))"

definition release_bookkeeping :: "Alloc \<Rightarrow> ShardInner \<Rightarrow> Memory \<Rightarrow> ShardInner \<times> Memory" where
  "release_bookkeeping A sh m =
     (case shrink_table A sh m of (sh1, m1) \<Rightarrow>
      case shrink_ring A sh1 m1 of (sh2, m2) \<Rightarrow> or_keep (settle_bookkeeping A sh2 m2) sh2 m2)"

subsection \<open>Eviction\<close>

fun evict_steps :: "Alloc \<Rightarrow> nat \<Rightarrow> ShardInner \<Rightarrow> Memory \<Rightarrow> nat option \<times> ShardInner \<times> Memory" where
  "evict_steps A 0 sh m = (None, sh, m)"
| "evict_steps A (Suc steps) sh m =
     (case sh_clock sh of
        [] \<Rightarrow> (None, sh, m)
      | ordinal # rest \<Rightarrow>
          (let sh1 = sh\<lparr>sh_clock := rest\<rparr> in
           case map_of (sh_map sh) ordinal of
             Some (Ready pin bytes referenced) \<Rightarrow>
               if referenced then
                 evict_steps A steps (clock_push A ordinal
                   (sh1\<lparr>sh_map := map_modify ordinal (\<lambda>_. Ready pin bytes False) (sh_map sh1)\<rparr>)) m
               else
                 (case release_bookkeeping A
                    ((slots_remove A ordinal sh1)\<lparr>sh_resident := saturating_sub (sh_resident sh1) bytes\<rparr>) (pin_drop pin m) of
                    (sh2, m2) \<Rightarrow> (Some bytes, sh2, m2))
           | _ \<Rightarrow> evict_steps A steps sh1 m))"

definition evict_one :: "Alloc \<Rightarrow> ShardInner \<Rightarrow> Memory \<Rightarrow> nat option \<times> ShardInner \<times> Memory" where
  "evict_one A sh m = evict_steps A (saturating_add (saturating_mul (length (sh_clock sh)) 2) 1) sh m"

subsubsection \<open>Eviction makes progress\<close>

definition is_ready :: "Slot \<Rightarrow> bool" where
  "is_ready v = (case v of Ready pin bytes r \<Rightarrow> True | Loading \<Rightarrow> False)"

lemma length_map_remove:
  "length (map_remove k al) \<le> length al" "map_of al k = Some v \<Longrightarrow> length (map_remove k al) < length al"
proof -
  show "length (map_remove k al) \<le> length al" by (simp add: map_remove_def)
  assume "map_of al k = Some v"
  then have "(k, v) \<in> set al" by (rule map_of_SomeD)
  then show "length (map_remove k al) < length al"
    unfolding map_remove_def by (intro length_filter_less) auto
qed

lemma settle_fields:
  "shard_settle want sh m = Ok (sh', m') \<Longrightarrow> sh_map sh' = sh_map sh \<and> sh_clock sh' = sh_clock sh
    \<and> sh_resident sh' = sh_resident sh \<and> sh_pending_pushes sh' = sh_pending_pushes sh"
  by (auto simp: shard_settle_def)

lemma release_fields:
  assumes "release_bookkeeping A sh m = (sh', m')"
  shows "sh_map sh' = sh_map sh" "sh_clock sh' = sh_clock sh" "sh_resident sh' = sh_resident sh"
    "sh_pending_pushes sh' = sh_pending_pushes sh"
proof -
  obtain sh1 m1 where 1: "shrink_table A sh m = (sh1, m1)" by fastforce
  obtain sh2 m2 where 2: "shrink_ring A sh1 m1 = (sh2, m2)" by fastforce
  have a: "sh_map sh1 = sh_map sh \<and> sh_clock sh1 = sh_clock sh \<and> sh_resident sh1 = sh_resident sh \<and> sh_pending_pushes sh1 = sh_pending_pushes sh"
    using 1 by (auto simp: shrink_table_def Let_def split: if_splits sum.splits dest!: settle_fields)
  have b: "sh_map sh2 = sh_map sh1 \<and> sh_clock sh2 = sh_clock sh1 \<and> sh_resident sh2 = sh_resident sh1 \<and> sh_pending_pushes sh2 = sh_pending_pushes sh1"
    using 2 by (auto simp: shrink_ring_def Let_def split: if_splits sum.splits dest!: settle_fields)
  have "or_keep (settle_bookkeeping A sh2 m2) sh2 m2 = (sh', m')" using assms 1 2 by (simp add: release_bookkeeping_def)
  then have c: "sh_map sh' = sh_map sh2 \<and> sh_clock sh' = sh_clock sh2 \<and> sh_resident sh' = sh_resident sh2 \<and> sh_pending_pushes sh' = sh_pending_pushes sh2"
    by (auto simp: or_keep_def settle_bookkeeping_def split: sum.splits dest!: settle_fields)
  show "sh_map sh' = sh_map sh" "sh_clock sh' = sh_clock sh" "sh_resident sh' = sh_resident sh"
    "sh_pending_pushes sh' = sh_pending_pushes sh" using a b c by simp_all
qed

lemma length_map_modify [simp]: "length (map_modify k f al) = length al"
  by (simp add: map_modify_def)

lemma evict_stepsE:
  assumes "evict_steps A (Suc n) sh m = (r, sh', m')"
  obtains (empty) "sh_clock sh = []" "r = None" "sh' = sh" "m' = m"
  | (stale) ordinal rest where "sh_clock sh = ordinal # rest" "\<And>pin bytes f. map_of (sh_map sh) ordinal \<noteq> Some (Ready pin bytes f)"
      "evict_steps A n (sh\<lparr>sh_clock := rest\<rparr>) m = (r, sh', m')"
  | (second) ordinal rest pin bytes where "sh_clock sh = ordinal # rest" "map_of (sh_map sh) ordinal = Some (Ready pin bytes True)"
      "evict_steps A n (clock_push A ordinal (sh\<lparr>sh_clock := rest, sh_map := map_modify ordinal (\<lambda>_. Ready pin bytes False) (sh_map sh)\<rparr>)) m
        = (r, sh', m')"
  | (evicted) ordinal rest pin bytes where "sh_clock sh = ordinal # rest" "map_of (sh_map sh) ordinal = Some (Ready pin bytes False)"
      "release_bookkeeping A ((slots_remove A ordinal (sh\<lparr>sh_clock := rest\<rparr>))\<lparr>sh_resident := saturating_sub (sh_resident sh) bytes\<rparr>)
        (pin_drop pin m) = (sh', m')" "r = Some bytes"
proof (cases "sh_clock sh")
  case Nil
  have "r = None" "sh' = sh" "m' = m" using assms by (simp_all add: Nil)
  then show ?thesis by (rule empty [OF Nil])
next
  case (Cons ordinal rest)
  show ?thesis
  proof (cases "map_of (sh_map sh) ordinal")
    case None
    have "evict_steps A n (sh\<lparr>sh_clock := rest\<rparr>) m = (r, sh', m')" using assms by (simp add: Cons None Let_def)
    then show ?thesis by (intro stale [OF Cons]) (simp_all add: None)
  next
    case (Some slot)
    show ?thesis
    proof (cases slot)
      case Loading
      have "evict_steps A n (sh\<lparr>sh_clock := rest\<rparr>) m = (r, sh', m')" using assms by (simp add: Cons Some Loading Let_def)
      then show ?thesis by (intro stale [OF Cons]) (simp_all add: Some Loading)
    next
      case (Ready pin bytes f)
      show ?thesis
      proof (cases f)
        case True
        have "evict_steps A n (clock_push A ordinal (sh\<lparr>sh_clock := rest, sh_map := map_modify ordinal (\<lambda>_. Ready pin bytes False) (sh_map sh)\<rparr>)) m
            = (r, sh', m')"
          using assms True by (simp add: Cons Some Ready Let_def)
        then show ?thesis using Some Ready True by (intro second [OF Cons]) simp_all
      next
        case False
        obtain sh2 m2 where r: "release_bookkeeping A ((slots_remove A ordinal (sh\<lparr>sh_clock := rest\<rparr>))\<lparr>sh_resident := saturating_sub (sh_resident sh) bytes\<rparr>)
            (pin_drop pin m) = (sh2, m2)" by fastforce
        then have "r = Some bytes" "sh' = sh2" "m' = m2" using assms False by (simp_all add: Cons Some Ready Let_def)
        then show ?thesis using Some Ready False r by (intro evicted [OF Cons]) simp_all
      qed
    qed
  qed
qed

lemma clock_push_fields [simp]:
  "sh_map (clock_push A ordinal sh) = sh_map sh" "sh_clock (clock_push A ordinal sh) = sh_clock sh @ [ordinal]"
  "sh_resident (clock_push A ordinal sh) = sh_resident sh" "sh_book (clock_push A ordinal sh) = sh_book sh"
  "sh_pending_pushes (clock_push A ordinal sh) = sh_pending_pushes sh"
  by (simp_all add: clock_push_def)

lemma slots_fields [simp]:
  "sh_map (slots_remove A ordinal sh) = map_remove ordinal (sh_map sh)" "sh_clock (slots_remove A ordinal sh) = sh_clock sh"
  "sh_resident (slots_remove A ordinal sh) = sh_resident sh" "sh_book (slots_remove A ordinal sh) = sh_book sh"
  "sh_pending_pushes (slots_remove A ordinal sh) = sh_pending_pushes sh"
  "sh_map (slots_insert A ordinal slot sh) = map_insert ordinal slot (sh_map sh)" "sh_clock (slots_insert A ordinal slot sh) = sh_clock sh"
  "sh_resident (slots_insert A ordinal slot sh) = sh_resident sh" "sh_book (slots_insert A ordinal slot sh) = sh_book sh"
  "sh_pending_pushes (slots_insert A ordinal slot sh) = sh_pending_pushes sh"
  by (simp_all add: slots_remove_def slots_insert_def Let_def)

lemma evict_steps_length:
  "evict_steps A n sh m = (r, sh', m') \<Longrightarrow> length (sh_map sh') \<le> length (sh_map sh)
    \<and> (r \<noteq> None \<longrightarrow> length (sh_map sh') < length (sh_map sh))"
proof (induction n arbitrary: sh m)
  case (Suc n)
  from Suc.prems show ?case
  proof (cases rule: evict_stepsE)
    case (evicted ordinal rest pin bytes)
    then show ?thesis using release_fields(1) [OF evicted(3)] length_map_remove(2) [OF evicted(2)] by simp
  qed (use Suc.IH in fastforce)+
qed simp

lemma evict_one_length:
  assumes "(r, sh', m') = evict_one A sh m"
  shows "length (sh_map sh') \<le> length (sh_map sh)" "r = Some b \<Longrightarrow> length (sh_map sh') < length (sh_map sh)"
  using evict_steps_length [OF assms [symmetric, unfolded evict_one_def]] by auto

function evict_down_to_capacity :: "Alloc \<Rightarrow> nat \<Rightarrow> ShardInner \<Rightarrow> Memory \<Rightarrow> ShardInner \<times> Memory" where
  "evict_down_to_capacity A capacity sh m =
     (if sh_resident sh > capacity then
        (case evict_one A sh m of
           (None, sh', m') \<Rightarrow> (sh', m')
         | (Some bytes, sh', m') \<Rightarrow> evict_down_to_capacity A capacity sh' m')
      else (sh, m))"
  by pat_completeness auto
termination
  by (relation "measure (\<lambda>(A, c, sh, m). length (sh_map sh))") (auto intro: evict_one_length(2))

function settle_or_evict :: "Alloc \<Rightarrow> ShardInner \<Rightarrow> Memory \<Rightarrow> ShardInner \<times> Memory" where
  "settle_or_evict A sh m =
     (case settle_bookkeeping A sh m of
        Inr (sh', m') \<Rightarrow> (sh', m')
      | Inl e \<Rightarrow>
          (case evict_one A sh m of
             (None, sh', m') \<Rightarrow> (sh', m')
           | (Some bytes, sh', m') \<Rightarrow> settle_or_evict A sh' m'))"
  by pat_completeness auto
termination
  by (relation "measure (\<lambda>(A, sh, m). length (sh_map sh))") (auto intro: evict_one_length(2))

declare evict_down_to_capacity.simps [simp del] settle_or_evict.simps [simp del]

subsection \<open>The cache\<close>

record PageCache =
  pc_shards :: "ShardInner list"
  pc_capacity_per_shard :: nat
  pc_capacity :: nat
  pc_next_victim_shard :: nat

definition shard_count :: "nat \<Rightarrow> nat" where
  "shard_count n = next_power_of_two (min (max n 1) MAX_SHARDS)"

definition cache_bookkeeping_bytes :: "Alloc \<Rightarrow> nat \<Rightarrow> nat" where
  "cache_bookkeeping_bytes A shards = saturating_add (saturating_mul shards (shard_bytes A)) BUFFER_OVERHEAD"

definition cache_new :: "nat \<Rightarrow> nat \<Rightarrow> PageCache" where
  "cache_new capacity shards =
     (let n = shard_count shards in
      \<lparr>pc_shards = replicate n shard_new, pc_capacity_per_shard = max (capacity div n) 1, pc_capacity = capacity,
       pc_next_victim_shard = 0\<rparr>)"

definition shard_of :: "PageCache \<Rightarrow> page_ordinal \<Rightarrow> nat" where
  "shard_of c ordinal =
     (let mixed = (ordinal * 0x9E3779B97F4A7C15) mod 2 ^ 64 div 2 ^ 32 in and mixed (length (pc_shards c) - 1))"

definition resident_bytes :: "PageCache \<Rightarrow> nat" where
  "resident_bytes c = sum_list (map sh_resident (pc_shards c))"

definition cache_len :: "PageCache \<Rightarrow> nat" where
  "cache_len c = sum_list (map (\<lambda>sh. length (filter (\<lambda>(k, v). is_ready v) (sh_map sh))) (pc_shards c))"

text \<open>The part of a store the cache works on.  The store of Store extends it.\<close>

record Machine =
  mc_mem :: Memory
  mc_cache :: PageCache

definition get_shard :: "nat \<Rightarrow> 'a Machine_scheme \<Rightarrow> ShardInner" where
  "get_shard i s = pc_shards (mc_cache s) ! i"

definition set_shard :: "nat \<Rightarrow> ShardInner \<times> Memory \<Rightarrow> 'a Machine_scheme \<Rightarrow> 'a Machine_scheme" where
  "set_shard i = (\<lambda>(sh, m) s. s\<lparr>mc_mem := m, mc_cache := (mc_cache s)\<lparr>pc_shards := (pc_shards (mc_cache s))[i := sh]\<rparr>\<rparr>)"

text \<open>A hit marks the page and hands out another reference to it.\<close>

definition touch :: "page_ordinal \<Rightarrow> ShardInner \<Rightarrow> ShardInner" where
  "touch ordinal sh = sh\<lparr>sh_map := map_modify ordinal (\<lambda>v. case v of Ready pin bytes f \<Rightarrow> Ready pin bytes True | Loading \<Rightarrow> Loading) (sh_map sh)\<rparr>"

definition cache_get :: "page_ordinal \<Rightarrow> 'a Machine_scheme \<Rightarrow> PagePin option \<times> 'a Machine_scheme" where
  "cache_get ordinal s =
     (let i = shard_of (mc_cache s) ordinal; sh = get_shard i s in
      case map_of (sh_map sh) ordinal of
        Some (Ready pin bytes f) \<Rightarrow> (Some pin, set_shard i (touch ordinal sh, pin_clone pin (mc_mem s)) s)
      | _ \<Rightarrow> (None, s))"

function evict_bytes_loop ::
  "Alloc \<Rightarrow> nat \<Rightarrow> nat \<Rightarrow> nat \<Rightarrow> nat \<Rightarrow> nat \<Rightarrow> ShardInner list \<Rightarrow> Memory \<Rightarrow> nat \<times> ShardInner list \<times> Memory" where
  "evict_bytes_loop A target start cursor idle released shards m =
     (if released < target \<and> idle < length shards then
        (let i = (start + cursor) mod length shards in
         case evict_one A (shards ! i) m of
           (Some bytes, sh', m') \<Rightarrow> evict_bytes_loop A target start (cursor + 1) 0 (released + bytes) (shards[i := sh']) m'
         | (None, sh', m') \<Rightarrow> evict_bytes_loop A target start (cursor + 1) (idle + 1) released (shards[i := sh']) m')
      else (released, shards, m))"
  by pat_completeness auto

lemma sum_list_update_less:
  fixes f :: "'a \<Rightarrow> nat"
  assumes "i < length xs"
  shows "f y < f (xs ! i) \<Longrightarrow> sum_list (map f (xs[i := y])) < sum_list (map f xs)"
    "f y \<le> f (xs ! i) \<Longrightarrow> sum_list (map f (xs[i := y])) \<le> sum_list (map f xs)"
proof -
  have "sum_list (map f xs) = sum_list (map f (take i xs)) + (f (xs ! i) + sum_list (map f (drop (Suc i) xs)))"
    using id_take_nth_drop [OF assms] by (metis list.simps(9) map_append sum_list.Cons sum_list_append)
  moreover have "sum_list (map f (xs[i := y])) = sum_list (map f (take i xs)) + (f y + sum_list (map f (drop (Suc i) xs)))"
    using assms by (simp add: upd_conv_take_nth_drop)
  ultimately show "f y < f (xs ! i) \<Longrightarrow> sum_list (map f (xs[i := y])) < sum_list (map f xs)"
    "f y \<le> f (xs ! i) \<Longrightarrow> sum_list (map f (xs[i := y])) \<le> sum_list (map f xs)" by simp_all
qed

lemma evict_one_sum:
  assumes "(r, sh', m') = evict_one A (shards ! (k mod length shards)) m" "idle < length shards"
  shows "r = Some b \<Longrightarrow> sum_list (map (\<lambda>sh. length (sh_map sh)) (shards[k mod length shards := sh'])) < sum_list (map (\<lambda>sh. length (sh_map sh)) shards)"
    "sum_list (map (\<lambda>sh. length (sh_map sh)) (shards[k mod length shards := sh'])) \<le> sum_list (map (\<lambda>sh. length (sh_map sh)) shards)"
proof -
  have "0 < length shards" using assms(2) by linarith
  then have i: "k mod length shards < length shards" by (rule mod_less_divisor)
  note u = sum_list_update_less [OF i, of "\<lambda>sh. length (sh_map sh)" sh'] and l = evict_one_length [OF assms(1)]
  show "sum_list (map (\<lambda>sh. length (sh_map sh)) (shards[k mod length shards := sh'])) < sum_list (map (\<lambda>sh. length (sh_map sh)) shards)"
    if "r = Some b" using u(1) l(2) [OF that] by simp
  show "sum_list (map (\<lambda>sh. length (sh_map sh)) (shards[k mod length shards := sh'])) \<le> sum_list (map (\<lambda>sh. length (sh_map sh)) shards)"
    using u(2) l(1) by simp
qed

lemma in_measures_two:
  "f x < f y \<Longrightarrow> (x, y) \<in> measures [f, g]" "f x \<le> f y \<Longrightarrow> g x < g y \<Longrightarrow> (x, y) \<in> measures [f, g]"
  by auto

termination evict_bytes_loop
proof (relation "measures [\<lambda>(A, t, st, c, idle, r, shards, m). sum_list (map (\<lambda>sh. length (sh_map sh)) shards),
    \<lambda>(A, t, st, c, idle, r, shards, m). length shards - idle]", goal_cases)
  case 2
  then show ?case by (intro in_measures_two(2)) (auto intro: evict_one_sum(2))
next
  case 3
  then show ?case by (intro in_measures_two(1)) (auto intro: evict_one_sum(1))
qed simp

declare evict_bytes_loop.simps [simp del]

definition evict_bytes :: "Alloc \<Rightarrow> nat \<Rightarrow> 'a Machine_scheme \<Rightarrow> nat \<times> 'a Machine_scheme" where
  "evict_bytes A target s =
     (let c = mc_cache s; start = pc_next_victim_shard c in
      case evict_bytes_loop A target start 0 0 0 (pc_shards c) (mc_mem s) of
        (released, shards, m) \<Rightarrow>
          (released, s\<lparr>mc_mem := m, mc_cache := c\<lparr>pc_shards := shards, pc_next_victim_shard := (start + 1) mod 2 ^ 64\<rparr>\<rparr>))"

subsection \<open>Loading through the cache\<close>

text \<open>Putting the marker of a load in: the map entry, the promised push and the charge for both.\<close>

definition mark_loading :: "Alloc \<Rightarrow> page_ordinal \<Rightarrow> charge \<Rightarrow> ShardInner \<Rightarrow> Memory \<Rightarrow> ShardInner \<times> Memory" where
  "mark_loading A ordinal c sh m =
     (let sh1 = note_table (slots_insert A ordinal Loading sh);
          sh2 = sh1\<lparr>sh_pending_pushes := sh_pending_pushes sh1 + 1, sh_book := bookkeeping_absorb (sh_book sh1) c\<rparr> in
      or_keep (settle_bookkeeping A sh2 m) sh2 m)"

text \<open>The loop before the load: a hit, a marker in place, or an error.  \<open>left\<close> is how often the
  reservation may still be repeated and \<open>c\<close> the charge in hand.  A page another thread is
  loading is waited for; with one caller there is nobody to wait for, and that is not
  returning.\<close>

datatype Admission = Hit PagePin | Marked

function admit ::
  "Alloc \<Rightarrow> (nat \<Rightarrow> ('a Machine_scheme, charge) op) \<Rightarrow> page_ordinal \<Rightarrow> nat \<Rightarrow> charge option \<Rightarrow> ('a Machine_scheme, Admission) op" where
  "admit A reserve ordinal left c s =
     (let i = shard_of (mc_cache s) ordinal; sh = get_shard i s;
          release = (\<lambda>s. case c of None \<Rightarrow> s | Some n \<Rightarrow> s\<lparr>mc_mem := mem_release n (mc_mem s)\<rparr>) in
      case map_of (sh_map sh) ordinal of
        Some (Ready pin bytes f) \<Rightarrow>
          Some (Ok (Hit pin), release (set_shard i (touch ordinal sh, pin_clone pin (mc_mem s)) s))
      | Some Loading \<Rightarrow> None
      | None \<Rightarrow>
          (case c of
             None \<Rightarrow>
               op_bind (reserve (LOADING_SLOT_BYTES + growth_for_one_more A sh)) (\<lambda>n. admit A reserve ordinal left (Some n)) s
           | Some n \<Rightarrow>
               (let needed = growth_for_one_more A sh in
                if n < needed then
                  (case left of
                     0 \<Rightarrow> let s' = release s; b = mem_budget (mc_mem s') in
                       Some (Err (error_budget \<lparr>requested = needed, in_use = used b, bi_limit = limit b, retryable = True\<rparr>), s')
                   | Suc left' \<Rightarrow> admit A reserve ordinal left' None (release s))
                else Some (Ok Marked, set_shard i (mark_loading A ordinal n sh (mc_mem s)) s))))"
  by pat_completeness auto
termination
  by (relation "measures [\<lambda>(A, r, p, left, c, s). left, \<lambda>(A, r, p, left, c, s). case c of None \<Rightarrow> 1 | Some _ \<Rightarrow> 0]") auto

declare admit.simps [simp del]

text \<open>After the load: the page replaces its marker, or the marker goes.\<close>

definition unmark :: "Alloc \<Rightarrow> page_ordinal \<Rightarrow> ShardInner \<Rightarrow> ShardInner" where
  "unmark A ordinal sh =
     (let sh1 = slots_remove A ordinal sh in sh1\<lparr>sh_pending_pushes := saturating_sub (sh_pending_pushes sh1) 1\<rparr>)"

definition drop_unpaid :: "Alloc \<Rightarrow> page_ordinal \<Rightarrow> ShardInner \<Rightarrow> Memory \<Rightarrow> ShardInner \<times> Memory" where
  "drop_unpaid A ordinal sh m =
     (case settle_bookkeeping A sh m of
        Inr x \<Rightarrow> x
      | Inl e \<Rightarrow>
          (case map_of (sh_map sh) ordinal of
             Some (Ready pin bytes f) \<Rightarrow>
               release_bookkeeping A ((slots_remove A ordinal sh)\<lparr>sh_resident := saturating_sub (sh_resident sh) bytes\<rparr>) (pin_drop pin m)
           | _ \<Rightarrow> release_bookkeeping A (slots_remove A ordinal sh) m))"

definition publish :: "Alloc \<Rightarrow> nat \<Rightarrow> page_ordinal \<Rightarrow> PagePin \<Rightarrow> nat \<Rightarrow> ShardInner \<Rightarrow> Memory \<Rightarrow> ShardInner \<times> Memory" where
  "publish A capacity ordinal pin bytes sh m =
     (let sh1 = unmark A ordinal sh;
          sh2 = slots_insert A ordinal (Ready pin bytes True) (sh1\<lparr>sh_resident := sh_resident sh1 + bytes\<rparr>);
          sh3 = note_table (clock_push A ordinal sh2) in
      case evict_down_to_capacity A capacity sh3 (pin_clone pin m) of (sh4, m4) \<Rightarrow>
      case settle_or_evict A sh4 m4 of (sh5, m5) \<Rightarrow> drop_unpaid A ordinal sh5 m5)"

definition load_marked :: "Alloc \<Rightarrow> page_ordinal \<Rightarrow> ('a Machine_scheme, PagePin \<times> nat) op \<Rightarrow> ('a Machine_scheme, PagePin) op" where
  "load_marked A ordinal load s =
     (case load s of
        None \<Rightarrow> None
      | Some (Inr (pin, bytes), s') \<Rightarrow>
          (let i = shard_of (mc_cache s') ordinal in
           Some (Ok pin, set_shard i (publish A (pc_capacity_per_shard (mc_cache s')) ordinal pin bytes (get_shard i s') (mc_mem s')) s'))
      | Some (Inl e, s') \<Rightarrow>
          (let i = shard_of (mc_cache s') ordinal in
           Some (Err e, set_shard i (release_bookkeeping A (unmark A ordinal (get_shard i s')) (mc_mem s')) s')))"

definition get_or_load ::
  "Alloc \<Rightarrow> page_ordinal \<Rightarrow> (nat \<Rightarrow> ('a Machine_scheme, charge) op) \<Rightarrow> ('a Machine_scheme, PagePin \<times> nat) op \<Rightarrow>
   ('a Machine_scheme, PagePin) op" where
  "get_or_load A ordinal reserve load =
     op_bind (admit A reserve ordinal RESERVE_ATTEMPTS None) (\<lambda>a.
     case a of Hit pin \<Rightarrow> op_return pin | Marked \<Rightarrow> load_marked A ordinal load)"

end
