(* ===== verification/Cache_Account.thy ===== *)
theory Cache_Account
  imports Cache
begin

text \<open>
  What the page cache keeps (\<^verbatim>\<open>crates/drydb/src/cache.rs\<close>).  \<open>shard_ok\<close> and \<open>cache_ok\<close> say that the
  map, the ring and \<open>resident\<close> of every shard agree, that every cached page is one that \<open>G\<close>
  allows, and that the budget has given out exactly the charges of the live buffers, of the
  shards' tables and of \<open>h\<close> further bytes.  Every operation of the cache keeps it; eviction makes
  progress until nothing is cached; and \<open>get_or_load\<close> returns a page \<open>G\<close> allows or an error of the
  functions it is given, whatever they do within the account.
\<close>

subsection \<open>What a shard keeps\<close>

declare map_of_eq_Some_iff [simp del]

definition slot_refs :: "page_ordinal \<times> Slot \<Rightarrow> nat multiset" where
  "slot_refs x = (case snd x of Ready pin bytes f \<Rightarrow> {#pin_buffer pin#} | Loading \<Rightarrow> {#})"

definition slot_size :: "page_ordinal \<times> Slot \<Rightarrow> nat" where
  "slot_size x = (case snd x of Ready pin bytes f \<Rightarrow> bytes | Loading \<Rightarrow> 0)"

definition shard_refs :: "ShardInner \<Rightarrow> nat multiset" where
  "shard_refs sh = sum_list (map slot_refs (sh_map sh))"

definition shard_book :: "ShardInner \<Rightarrow> nat" where
  "shard_book sh = bookkeeping_bytes (sh_book sh)"

text \<open>Every cached page is on the ring, has a size and is one that \<open>G\<close> allows; \<open>L\<close> are the ordinals being
  loaded; \<open>resident\<close> is the sum of the cached pages.\<close>

definition shard_inv :: "(page_ordinal \<Rightarrow> PagePin \<Rightarrow> bool) \<Rightarrow> page_ordinal set \<Rightarrow> ShardInner \<Rightarrow> bool" where
  "shard_inv G L sh \<longleftrightarrow> distinct (map fst (sh_map sh)) \<and> sh_resident sh = sum_list (map slot_size (sh_map sh))
     \<and> (\<forall>k pin bytes f. map_of (sh_map sh) k = Some (Ready pin bytes f) \<longrightarrow> k \<in> set (sh_clock sh) \<and> 0 < bytes \<and> G k pin)
     \<and> {k. map_of (sh_map sh) k = Some Loading} = L"

lemma map_of_map_remove: "map_of (map_remove k al) k' = (if k' = k then None else map_of al k')"
  by (induction al) (auto simp: map_remove_def)

lemma map_of_map_insert: "map_of (map_insert k v al) k' = (if k' = k then Some v else map_of al k')"
  using map_of_map_remove [of k al k'] by (simp add: map_insert_def map_remove_def)

lemma map_of_map_modify: "map_of (map_modify k f al) k' = (if k' = k then map_option f (map_of al k) else map_of al k')"
  by (induction al) (auto simp: map_modify_def)

lemma keys_map:
  "map fst (map_modify k f al) = map fst al"
  "distinct (map fst al) \<Longrightarrow> distinct (map fst (map_remove k al))"
  "distinct (map fst al) \<Longrightarrow> distinct (map fst (map_insert k v al))"
proof -
  show "map fst (map_modify k f al) = map fst al" by (induction al) (auto simp: map_modify_def)
  assume d: "distinct (map fst al)"
  show r: "distinct (map fst (map_remove k al))"
    using d by (induction al) (auto simp: map_remove_def)
  show "distinct (map fst (map_insert k v al))"
    using r by (auto simp: map_insert_def map_remove_def)
qed

lemma map_remove_absent: "map_of al k = None \<Longrightarrow> map_remove k al = al"
  unfolding map_remove_def by (intro filter_True) (auto simp: map_of_eq_None_iff image_iff)

lemma sum_map_remove:
  fixes f :: "'k \<times> 'v \<Rightarrow> 'm :: comm_monoid_add"
  assumes "distinct (map fst al)" "map_of al k = Some v"
  shows "sum_list (map f al) = f (k, v) + sum_list (map f (map_remove k al))"
  using assms
proof (induction al)
  case (Cons x al)
  show ?case
  proof (cases "fst x = k")
    case True
    then have x: "x = (k, v)" using Cons.prems(2) by (cases x) auto
    have "map_of al k = None" using Cons.prems(1) True by (simp add: map_of_eq_None_iff)
    then have "map_remove k (x # al) = al" using map_remove_absent [of al k] True by (simp add: map_remove_def)
    then show ?thesis by (simp add: x)
  next
    case False
    then have "sum_list (map f al) = f (k, v) + sum_list (map f (map_remove k al))" using Cons by (cases x) auto
    then show ?thesis using False by (simp add: map_remove_def add.left_commute)
  qed
qed simp

lemma sum_map_insert:
  "map_of al k = None \<Longrightarrow> sum_list (map f (map_insert k v al)) = f (k, v) + sum_list (map f al)"
  using map_remove_absent [of al k] by (simp add: map_insert_def map_remove_def)

lemma sum_map_modify:
  "(\<And>v. (k, v) \<in> set al \<Longrightarrow> f (k, g v) = f (k, v)) \<Longrightarrow> sum_list (map f (map_modify k g al)) = sum_list (map f al)"
  by (induction al) (auto simp: map_modify_def)

subsection \<open>The account of a shard\<close>

lemma shard_settle_inv:
  assumes "mem_inv lim m R (h + shard_book sh)" "shard_settle want sh m = Ok (sh', m')"
  shows "mem_inv lim m' R (h + shard_book sh')"
  using assms settle_inv [of lim m R h "sh_book sh" want] by (auto simp: shard_settle_def shard_book_def)

lemma release_inv:
  assumes "mem_inv lim m R (h + shard_book sh)" "release_bookkeeping A sh m = (sh', m')"
  shows "mem_inv lim m' R (h + shard_book sh')"
proof -
  obtain sh1 m1 where 1: "shrink_table A sh m = (sh1, m1)" by fastforce
  obtain sh2 m2 where 2: "shrink_ring A sh1 m1 = (sh2, m2)" by fastforce
  have a: "mem_inv lim m1 R (h + shard_book sh1)"
    using 1 assms(1) by (auto simp: shrink_table_def Let_def shard_book_def split: if_splits sum.splits
      dest: shard_settle_inv [unfolded shard_book_def])
  have b: "mem_inv lim m2 R (h + shard_book sh2)"
    using 2 a by (auto simp: shrink_ring_def Let_def shard_book_def split: if_splits sum.splits
      dest: shard_settle_inv [unfolded shard_book_def])
  have "or_keep (settle_bookkeeping A sh2 m2) sh2 m2 = (sh', m')" using assms 1 2 by (simp add: release_bookkeeping_def)
  then show ?thesis using b by (auto simp: or_keep_def settle_bookkeeping_def split: sum.splits dest: shard_settle_inv)
qed

definition shard_ok :: "nat \<Rightarrow> (page_ordinal \<Rightarrow> PagePin \<Rightarrow> bool) \<Rightarrow> page_ordinal set \<Rightarrow> nat multiset \<Rightarrow> nat \<Rightarrow> ShardInner \<Rightarrow> Memory \<Rightarrow> bool" where
  "shard_ok lim G L R h sh m \<longleftrightarrow> shard_inv G L sh \<and> mem_inv lim m (shard_refs sh + R) (h + shard_book sh)"

lemma shard_ready:
  "shard_ok lim G L R h sh m \<Longrightarrow> map_of (sh_map sh) k = Some (Ready pin b f) \<Longrightarrow> k \<in> set (sh_clock sh) \<and> 0 < b \<and> G k pin"
  unfolding shard_ok_def shard_inv_def by blast

lemma shard_settle_ok:
  "shard_ok lim G L R h sh m \<Longrightarrow> shard_settle want sh m = Ok (sh', m') \<Longrightarrow> shard_ok lim G L R h sh' m'"
  using shard_settle_inv [of lim m _ h sh want sh' m'] settle_fields [of want sh m sh' m']
  by (auto simp: shard_ok_def shard_inv_def shard_refs_def)

lemma release_ok:
  "shard_ok lim G L R h sh m \<Longrightarrow> release_bookkeeping A sh m = (sh', m') \<Longrightarrow> shard_ok lim G L R h sh' m'"
  using release_inv [of lim m _ h sh A sh' m'] release_fields [of A sh m sh' m']
  by (auto simp: shard_ok_def shard_inv_def shard_refs_def)

lemma remove_ready_ok:
  assumes ok: "shard_ok lim G L R h sh m" and k: "map_of (sh_map sh) k = Some (Ready pin bytes f)"
    and c: "sh_map sh' = map_remove k (sh_map sh)" "set (sh_clock sh) - {k} \<subseteq> set (sh_clock sh')" "sh_book sh' = sh_book sh"
      "sh_resident sh' = saturating_sub (sh_resident sh) bytes"
  shows "shard_ok lim G L R h sh' (pin_drop pin m)"
proof -
  have d: "distinct (map fst (sh_map sh))" using ok by (simp add: shard_ok_def shard_inv_def)
  have "shard_refs sh = add_mset (pin_buffer pin) (shard_refs sh')"
    using sum_map_remove [OF d k, of slot_refs] by (simp add: shard_refs_def c(1) slot_refs_def)
  then have "mem_inv lim (pin_drop pin m) (shard_refs sh' + R) (h + shard_book sh')"
    using ok pin_drop_inv [of lim m pin "shard_refs sh' + R"] by (simp add: shard_ok_def shard_book_def c(3))
  moreover have "sh_resident sh' = sum_list (map slot_size (sh_map sh'))"
    using ok sum_map_remove [OF d k, of slot_size] by (simp add: shard_ok_def shard_inv_def c saturating_sub_def slot_size_def)
  moreover have "k' \<in> set (sh_clock sh') \<and> 0 < b \<and> G k' p" if "map_of (sh_map sh') k' = Some (Ready p b f')" for k' p b f'
  proof -
    have "k' \<noteq> k" "map_of (sh_map sh) k' = Some (Ready p b f')" using that by (auto simp: c(1) map_of_map_remove split: if_splits)
    then show ?thesis using ok c(2) unfolding shard_ok_def shard_inv_def by blast
  qed
  moreover have "{k. map_of (sh_map sh') k = Some Loading} = {k. map_of (sh_map sh) k = Some Loading}"
    unfolding c(1) map_of_map_remove using k by (auto split: if_splits)
  ultimately show ?thesis using ok keys_map(2) [OF d, of k] unfolding shard_ok_def shard_inv_def c(1) by blast
qed

lemma modify_ready_ok:
  assumes ok: "shard_ok lim G L R h sh m" and g: "\<And>pin b f. \<exists>f'. g (Ready pin b f) = Ready pin b f'" "g Loading = Loading"
    and c: "sh_map sh' = map_modify k g (sh_map sh)" "set (sh_clock sh) \<subseteq> set (sh_clock sh')" "sh_book sh' = sh_book sh"
      "sh_resident sh' = sh_resident sh"
  shows "shard_ok lim G L R h sh' m"
proof -
  have inv: "slot_refs (k, g v) = slot_refs (k, v)" "slot_size (k, g v) = slot_size (k, v)" "g v = Loading \<longleftrightarrow> v = Loading" for v
  proof -
    have "g v = v \<or> (\<exists>pin b f f'. v = Ready pin b f \<and> g v = Ready pin b f')" using g by (cases v) auto
    then show "slot_refs (k, g v) = slot_refs (k, v)" "slot_size (k, g v) = slot_size (k, v)" "g v = Loading \<longleftrightarrow> v = Loading"
      by (auto simp: slot_refs_def slot_size_def)
  qed
  have "shard_refs sh' = shard_refs sh" "sum_list (map slot_size (sh_map sh')) = sum_list (map slot_size (sh_map sh))"
    using inv by (auto simp: shard_refs_def c(1) intro: sum_map_modify)
  moreover have "{k. map_of (sh_map sh') k = Some Loading} = {k. map_of (sh_map sh) k = Some Loading}"
    using inv(3) by (auto simp: c(1) map_of_map_modify split: if_splits)
  moreover have "k' \<in> set (sh_clock sh') \<and> 0 < b \<and> G k' pin" if "map_of (sh_map sh') k' = Some (Ready pin b f)" for k' pin b f
  proof -
    have "\<exists>f'. map_of (sh_map sh) k' = Some (Ready pin b f')"
    proof (cases "k' = k")
      case True
      then have "map_option g (map_of (sh_map sh) k) = Some (Ready pin b f)"
        using that unfolding c(1) map_of_map_modify by simp
      then obtain v where v: "map_of (sh_map sh) k = Some v" "g v = Ready pin b f" by blast
      then show ?thesis using g True by (cases v) (metis Slot.inject, simp)
    qed (use that in \<open>simp add: c(1) map_of_map_modify\<close>)
    then show ?thesis using ok c(2) unfolding shard_ok_def shard_inv_def by blast
  qed
  ultimately show ?thesis using ok c(3,4) unfolding shard_ok_def shard_inv_def shard_book_def c(1) keys_map(1) by auto
qed

lemma evict_steps_ok:
  "shard_ok lim G L R h sh m \<Longrightarrow> evict_steps A n sh m = (r, sh', m') \<Longrightarrow> shard_ok lim G L R h sh' m'"
proof (induction n arbitrary: sh m)
  case (Suc n)
  from Suc.prems(2) show ?case
  proof (cases rule: evict_stepsE)
    case empty
    then show ?thesis using Suc.prems(1) by simp
  next
    case (stale ordinal rest)
    have "shard_ok lim G L R h (sh\<lparr>sh_clock := rest\<rparr>) m"
      using Suc.prems(1) stale(1,2) by (fastforce simp: shard_ok_def shard_inv_def shard_refs_def shard_book_def)
    then show ?thesis using Suc.IH stale(3) by blast
  next
    case (second ordinal rest pin bytes)
    let ?g = "\<lambda>v. case v of Ready p b f \<Rightarrow> Ready p b False | Loading \<Rightarrow> Loading"
    have d: "distinct (map fst (sh_map sh))" using Suc.prems(1) by (simp add: shard_ok_def shard_inv_def)
    have eq: "map_modify ordinal (\<lambda>_. Ready pin bytes False) (sh_map sh) = map_modify ordinal ?g (sh_map sh)"
    proof -
      have only: "v = Ready pin bytes True" if "(ordinal, v) \<in> set (sh_map sh)" for v
        using map_of_is_SomeI [OF d that] second(2) by simp
      show ?thesis unfolding map_modify_def by (intro map_cong) (auto dest!: only)
    qed
    show ?thesis
    proof (rule Suc.IH [OF modify_ready_ok [OF Suc.prems(1), of ?g _ ordinal] second(3)])
      show "sh_map (clock_push A ordinal (sh\<lparr>sh_clock := rest, sh_map := map_modify ordinal (\<lambda>_. Ready pin bytes False) (sh_map sh)\<rparr>))
        = map_modify ordinal ?g (sh_map sh)" using eq by simp
    qed (use second(1) in auto)
  next
    case (evicted ordinal rest pin bytes)
    have "shard_ok lim G L R h ((slots_remove A ordinal (sh\<lparr>sh_clock := rest\<rparr>))\<lparr>sh_resident := saturating_sub (sh_resident sh) bytes\<rparr>) (pin_drop pin m)"
      using evicted(1) by (intro remove_ready_ok [OF Suc.prems(1) evicted(2)]) auto
    then show ?thesis using release_ok evicted(3) by blast
  qed
qed simp

lemma evict_one_ok: "shard_ok lim G L R h sh m \<Longrightarrow> evict_one A sh m = (r, sh', m') \<Longrightarrow> shard_ok lim G L R h sh' m'"
  unfolding evict_one_def by (rule evict_steps_ok)

subsection \<open>Eviction ends with a page or an empty shard\<close>

definition referenced :: "page_ordinal \<times> Slot \<Rightarrow> bool" where
  "referenced x = (case snd x of Ready pin bytes f \<Rightarrow> f | Loading \<Rightarrow> False)"

definition nothing_ready :: "ShardInner \<Rightarrow> bool" where
  "nothing_ready sh \<longleftrightarrow> (\<forall>x \<in> set (sh_map sh). \<not> is_ready (snd x))"

lemma nothing_ready_resident: "shard_inv G L sh \<Longrightarrow> nothing_ready sh \<Longrightarrow> sh_resident sh = 0"
  by (auto simp: shard_inv_def nothing_ready_def slot_size_def is_ready_def sum_list_eq_0_iff split: Slot.splits)

lemma empty_ring:
  assumes "shard_inv G L sh" "sh_clock sh = []" shows "nothing_ready sh"
  unfolding nothing_ready_def
proof
  fix x
  assume x: "x \<in> set (sh_map sh)"
  have "map_of (sh_map sh) (fst x) = Some (snd x)" using assms(1) x by (auto simp: shard_inv_def intro: map_of_is_SomeI)
  then show "\<not> is_ready (snd x)" using assms unfolding shard_inv_def is_ready_def by (cases "snd x") auto
qed

lemma referenced_count:
  assumes "shard_inv G L sh" shows "length (filter referenced (sh_map sh)) \<le> length (sh_clock sh)"
proof -
  have d: "distinct (map fst (sh_map sh))" using assms by (simp add: shard_inv_def)
  have "length (filter referenced (sh_map sh)) = card (set (map fst (filter referenced (sh_map sh))))"
    using distinct_card [OF distinct_map_filter [OF d, of referenced]] by simp
  also have "\<dots> \<le> card (set (sh_clock sh))"
  proof (rule card_mono)
    show "set (map fst (filter referenced (sh_map sh))) \<subseteq> set (sh_clock sh)"
    proof
      fix k
      assume "k \<in> set (map fst (filter referenced (sh_map sh)))"
      then obtain v where v: "(k, v) \<in> set (sh_map sh)" "referenced (k, v)" by auto
      then have "map_of (sh_map sh) k = Some v" using d by (auto intro: map_of_is_SomeI)
      moreover obtain pin b where "v = Ready pin b True" using v(2) by (cases v) (auto simp: referenced_def)
      ultimately show "k \<in> set (sh_clock sh)" using assms unfolding shard_inv_def by blast
    qed
  qed simp
  also have "\<dots> \<le> length (sh_clock sh)" by (rule card_length)
  finally show ?thesis .
qed

lemma filter_modify:
  assumes "distinct (map fst al)" "map_of al k = Some v" "P (k, v)" "\<not> P (k, w)"
  shows "length (filter P al) = Suc (length (filter P (map_modify k (\<lambda>_. w) al)))"
  using assms
proof (induction al)
  case (Cons x al)
  show ?case
  proof (cases "fst x = k")
    case True
    have "map_of al k = None" using Cons.prems(1) True by (simp add: map_of_eq_None_iff)
    then have "map_modify k (\<lambda>_. w) al = al" unfolding map_modify_def by (intro map_idI) (auto simp: map_of_eq_None_iff image_iff)
    then show ?thesis using Cons.prems True by (cases x) (auto simp: map_modify_def)
  next
    case False
    then have "length (filter P al) = Suc (length (filter P (map_modify k (\<lambda>_. w) al)))" using Cons by (cases x) auto
    then show ?thesis using False by (cases x) (auto simp: map_modify_def)
  qed
qed simp

lemma evict_steps_progress:
  "shard_ok lim G L R h sh m \<Longrightarrow> length (sh_clock sh) + length (filter referenced (sh_map sh)) < n \<Longrightarrow>
    evict_steps A n sh m = (None, sh', m') \<Longrightarrow> nothing_ready sh'"
proof (induction n arbitrary: sh m)
  case (Suc n)
  have inv: "shard_inv G L sh" and d: "distinct (map fst (sh_map sh))" using Suc.prems(1) by (auto simp: shard_ok_def shard_inv_def)
  from Suc.prems(3) show ?case
  proof (cases rule: evict_stepsE)
    case empty
    then show ?thesis using empty_ring [OF inv] by simp
  next
    case (stale ordinal rest)
    have "shard_ok lim G L R h (sh\<lparr>sh_clock := rest\<rparr>) m"
      using Suc.prems(1) stale(1,2) by (fastforce simp: shard_ok_def shard_inv_def shard_refs_def shard_book_def)
    moreover have "length (sh_clock (sh\<lparr>sh_clock := rest\<rparr>)) + length (filter referenced (sh_map (sh\<lparr>sh_clock := rest\<rparr>))) < n"
      using Suc.prems(2) stale(1) by simp
    ultimately show ?thesis using Suc.IH stale(3) by blast
  next
    case (second ordinal rest pin bytes)
    let ?sh = "clock_push A ordinal (sh\<lparr>sh_clock := rest, sh_map := map_modify ordinal (\<lambda>_. Ready pin bytes False) (sh_map sh)\<rparr>)"
    have "shard_ok lim G L R h ?sh m"
    proof -
      have "evict_steps A 1 sh m = (None, ?sh, m)" using second(1,2) by simp
      then show ?thesis by (rule evict_steps_ok [OF Suc.prems(1)])
    qed
    moreover have "length (filter referenced (sh_map sh)) = Suc (length (filter referenced (sh_map ?sh)))"
      using filter_modify [OF d second(2), of referenced "Ready pin bytes False"] by (simp add: referenced_def)
    then have "length (sh_clock ?sh) + length (filter referenced (sh_map ?sh)) < n" using Suc.prems(2) second(1) by simp
    ultimately show ?thesis using Suc.IH second(3) by blast
  qed simp
qed simp

lemma evict_one_progress:
  assumes "shard_ok lim G L R h sh m" "2 * length (sh_clock sh) < usize_max" "evict_one A sh m = (None, sh', m')"
  shows "nothing_ready sh'"
proof -
  have "shard_inv G L sh" using assms(1) by (simp add: shard_ok_def)
  from referenced_count [OF this]
  have "length (sh_clock sh) + length (filter referenced (sh_map sh)) < saturating_add (saturating_mul (length (sh_clock sh)) 2) 1"
    using assms(2) by (simp add: saturating_add_def saturating_mul_def)
  then show ?thesis using evict_steps_progress [OF assms(1)] assms(3) by (auto simp: evict_one_def)
qed

lemma evict_steps_ring: "evict_steps A n sh m = (r, sh', m') \<Longrightarrow> length (sh_clock sh') \<le> length (sh_clock sh)"
proof (induction n arbitrary: sh m)
  case (Suc n)
  from Suc.prems show ?case
  proof (cases rule: evict_stepsE)
    case (second ordinal rest pin bytes)
    then show ?thesis using Suc.IH [OF second(3)] by simp
  next
    case (stale ordinal rest)
    then show ?thesis using Suc.IH [OF stale(3)] by simp
  next
    case (evicted ordinal rest pin bytes)
    then show ?thesis using release_fields(2) [OF evicted(3)] by simp
  qed simp
qed simp

lemma evict_down_ok:
  "shard_ok lim G L R h sh m \<Longrightarrow> evict_down_to_capacity A capacity sh m = (sh', m') \<Longrightarrow>
    shard_ok lim G L R h sh' m' \<and> length (sh_clock sh') \<le> length (sh_clock sh)
    \<and> (2 * length (sh_clock sh) < usize_max \<longrightarrow> sh_resident sh' \<le> capacity)"
proof (induction A capacity sh m rule: evict_down_to_capacity.induct)
  case (1 A capacity sh m)
  show ?case
  proof (cases "sh_resident sh > capacity")
    case True
    obtain r sh1 m1 where e: "evict_one A sh m = (r, sh1, m1)" by (cases "evict_one A sh m") auto
    note ok = evict_one_ok [OF 1(2) e] and ring = evict_steps_ring [OF e [unfolded evict_one_def]]
    show ?thesis
    proof (cases r)
      case None
      then have "sh' = sh1" "m' = m1" using 1(3) True e by (simp_all add: evict_down_to_capacity.simps)
      moreover have "sh_resident sh1 = 0" if "2 * length (sh_clock sh) < usize_max"
        using nothing_ready_resident evict_one_progress [OF 1(2) that] e None ok by (auto simp: shard_ok_def)
      ultimately show ?thesis using ok ring by auto
    next
      case (Some b)
      have "evict_down_to_capacity A capacity sh1 m1 = (sh', m')" using 1(3) True e Some by (subst (asm) evict_down_to_capacity.simps) simp
      from 1(1) [OF True e [symmetric] _ refl ok this] Some ring show ?thesis by auto
    qed
  next
    case False
    then show ?thesis using 1(2,3) by (subst (asm) evict_down_to_capacity.simps) auto
  qed
qed

lemma settle_or_evict_ok:
  "shard_ok lim G L R h sh m \<Longrightarrow> settle_or_evict A sh m = (sh', m') \<Longrightarrow> shard_ok lim G L R h sh' m'"
proof (induction A sh m rule: settle_or_evict.induct)
  case (1 A sh m)
  show ?case
  proof (cases "settle_bookkeeping A sh m")
    case (Inr x)
    then show ?thesis using 1(2,3) shard_settle_ok [OF 1(2)] unfolding settle_bookkeeping_def
      by (subst (asm) settle_or_evict.simps) (cases x, auto simp: settle_bookkeeping_def)
  next
    case (Inl e)
    obtain r sh1 m1 where ev: "evict_one A sh m = (r, sh1, m1)" by (cases "evict_one A sh m") auto
    note ok = evict_one_ok [OF 1(2) ev]
    show ?thesis
    proof (cases r)
      case None
      then show ?thesis using 1(3) Inl ev ok by (subst (asm) settle_or_evict.simps) auto
    next
      case (Some b)
      have "settle_or_evict A sh1 m1 = (sh', m')" using 1(3) Inl ev Some by (subst (asm) settle_or_evict.simps) simp
      from 1(1) [OF Inl ev [symmetric] _ refl ok this] Some show ?thesis by auto
    qed
  qed
qed

subsection \<open>Marking, publishing and giving up\<close>

lemma note_table_fields [simp]:
  "sh_map (note_table sh) = sh_map sh" "sh_clock (note_table sh) = sh_clock sh" "sh_resident (note_table sh) = sh_resident sh"
  "sh_book (note_table sh) = sh_book sh" "sh_pending_pushes (note_table sh) = sh_pending_pushes sh"
  by (simp_all add: note_table_def)

lemma shard_ok_cong:
  assumes "sh_map sh' = sh_map sh" "sh_clock sh' = sh_clock sh" "sh_resident sh' = sh_resident sh" "sh_book sh' = sh_book sh"
  shows "shard_ok lim G L R h sh' m \<longleftrightarrow> shard_ok lim G L R h sh m"
  by (simp add: shard_ok_def shard_inv_def shard_refs_def shard_book_def assms)

lemma or_keep_ok:
  "shard_ok lim G L R h sh m \<Longrightarrow> or_keep (settle_bookkeeping A sh m) sh m = (sh', m') \<Longrightarrow> shard_ok lim G L R h sh' m'"
  by (auto simp: or_keep_def settle_bookkeeping_def split: sum.splits dest: shard_settle_ok)

lemma absorb_bytes: "bookkeeping_bytes (bookkeeping_absorb k c) = bookkeeping_bytes k + c"
  by (cases k) (simp_all add: bookkeeping_bytes_def bookkeeping_absorb_def charge_absorb_def)

lemma mark_loading_ok:
  assumes ok: "shard_ok lim G L R (h + c) sh m" and p: "map_of (sh_map sh) p = None" and r: "mark_loading A p c sh m = (sh', m')"
  shows "shard_ok lim G (insert p L) R h sh' m'"
proof -
  let ?sh1 = "note_table (slots_insert A p Loading sh)"
  let ?sh2 = "?sh1\<lparr>sh_pending_pushes := sh_pending_pushes ?sh1 + 1, sh_book := bookkeeping_absorb (sh_book ?sh1) c\<rparr>"
  have "shard_refs ?sh2 = shard_refs sh" "sum_list (map slot_size (sh_map ?sh2)) = sum_list (map slot_size (sh_map sh))"
    using sum_map_insert [OF p, of slot_refs Loading] sum_map_insert [OF p, of slot_size Loading]
    by (simp_all add: shard_refs_def slot_refs_def slot_size_def)
  moreover have "{k. map_of (sh_map ?sh2) k = Some Loading} = insert p {k. map_of (sh_map sh) k = Some Loading}"
    using p by (auto simp: map_of_map_insert)
  moreover have "k \<in> set (sh_clock ?sh2) \<and> 0 < b \<and> G k pin" if "map_of (sh_map ?sh2) k = Some (Ready pin b f)" for k pin b f
  proof -
    have "map_of (sh_map sh) k = Some (Ready pin b f)" using that by (auto simp: map_of_map_insert split: if_splits)
    then show ?thesis using shard_ready [OF ok] by fastforce
  qed
  moreover have "distinct (map fst (sh_map ?sh2))" using ok keys_map(3) by (auto simp: shard_ok_def shard_inv_def)
  ultimately have "shard_ok lim G (insert p L) R h ?sh2 m"
    using ok unfolding shard_ok_def shard_inv_def by (simp add: shard_book_def absorb_bytes add.commute add.left_commute)
  then show ?thesis using or_keep_ok r by (auto simp: mark_loading_def Let_def)
qed

lemma unmark_ok:
  assumes ok: "shard_ok lim G L R h sh m" and p: "map_of (sh_map sh) p = Some Loading"
  shows "shard_ok lim G (L - {p}) R h (unmark A p sh) m" "map_of (sh_map (unmark A p sh)) p = None"
proof -
  let ?sh = "unmark A p sh"
  have f: "sh_map ?sh = map_remove p (sh_map sh)" "sh_clock ?sh = sh_clock sh" "sh_resident ?sh = sh_resident sh" "sh_book ?sh = sh_book sh"
    by (simp_all add: unmark_def Let_def)
  have d: "distinct (map fst (sh_map sh))" using ok by (simp add: shard_ok_def shard_inv_def)
  show "map_of (sh_map ?sh) p = None" by (simp add: f map_of_map_remove)
  have "shard_refs ?sh = shard_refs sh" "sum_list (map slot_size (sh_map ?sh)) = sum_list (map slot_size (sh_map sh))"
    using sum_map_remove [OF d p, of slot_refs] sum_map_remove [OF d p, of slot_size] by (simp_all add: f shard_refs_def slot_refs_def slot_size_def)
  moreover have "{k. map_of (sh_map ?sh) k = Some Loading} = {k. map_of (sh_map sh) k = Some Loading} - {p}"
    unfolding f map_of_map_remove by auto
  moreover have "k \<in> set (sh_clock ?sh) \<and> 0 < b \<and> G k pin" if "map_of (sh_map ?sh) k = Some (Ready pin b f)" for k pin b f
  proof -
    have "map_of (sh_map sh) k = Some (Ready pin b f)" using that by (auto simp: f map_of_map_remove split: if_splits)
    then show ?thesis using ok unfolding shard_ok_def shard_inv_def f by blast
  qed
  moreover have "distinct (map fst (sh_map ?sh))" using d keys_map(2) by (simp add: f)
  ultimately show "shard_ok lim G (L - {p}) R h ?sh m" using ok unfolding shard_ok_def shard_inv_def by (simp add: f shard_book_def)
qed

lemma insert_ready_ok:
  assumes ok: "shard_ok lim G L R h sh m" and p: "map_of (sh_map sh) p = None" and g: "G p pin" "pin_buffer pin \<in># R" "0 < bytes"
  shows "shard_ok lim G L R h (note_table (clock_push A p (slots_insert A p (Ready pin bytes f) (sh\<lparr>sh_resident := sh_resident sh + bytes\<rparr>)))) (pin_clone pin m)"
    (is "shard_ok lim G L R h ?sh ?m")
proof -
  have "shard_refs ?sh = add_mset (pin_buffer pin) (shard_refs sh)" "sum_list (map slot_size (sh_map ?sh)) = bytes + sum_list (map slot_size (sh_map sh))"
    using sum_map_insert [OF p, of slot_refs "Ready pin bytes f"] sum_map_insert [OF p, of slot_size "Ready pin bytes f"]
    by (simp_all add: shard_refs_def slot_refs_def slot_size_def)
  moreover have "mem_inv lim ?m (add_mset (pin_buffer pin) (shard_refs sh + R)) (h + shard_book sh)"
    using ok g(2) by (intro pin_clone_inv) (auto simp: shard_ok_def)
  moreover have "{k. map_of (sh_map ?sh) k = Some Loading} = {k. map_of (sh_map sh) k = Some Loading}"
    using p by (auto simp: map_of_map_insert)
  moreover have "k \<in> set (sh_clock ?sh) \<and> 0 < b \<and> G k pin'" if "map_of (sh_map ?sh) k = Some (Ready pin' b f')" for k pin' b f'
  proof (cases "k = p")
    case True
    then show ?thesis using that g(1,3) by (auto simp: map_of_map_insert)
  next
    case False
    then have "map_of (sh_map sh) k = Some (Ready pin' b f')" using that by (simp add: map_of_map_insert)
    then show ?thesis using shard_ready [OF ok] by fastforce
  qed
  moreover have "distinct (map fst (sh_map ?sh))" using ok keys_map(3) by (auto simp: shard_ok_def shard_inv_def)
  ultimately show ?thesis using ok unfolding shard_ok_def shard_inv_def by (simp add: shard_book_def)
qed

lemma drop_unpaid_ok:
  assumes ok: "shard_ok lim G L R h sh m" and p: "p \<notin> L" and r: "drop_unpaid A p sh m = (sh', m')"
  shows "shard_ok lim G L R h sh' m'"
proof (cases "settle_bookkeeping A sh m")
  case (Inr x)
  then show ?thesis using r ok by (auto simp: drop_unpaid_def settle_bookkeeping_def dest: shard_settle_ok)
next
  case (Inl e)
  show ?thesis
  proof (cases "map_of (sh_map sh) p")
    case None
    then have "release_bookkeeping A (slots_remove A p sh) m = (sh', m')" using r Inl by (simp add: drop_unpaid_def)
    moreover have "shard_ok lim G L R h (slots_remove A p sh) m"
      using ok map_remove_absent [OF None] by (subst shard_ok_cong) simp_all
    ultimately show ?thesis using release_ok by blast
  next
    case (Some v)
    then have "v \<noteq> Loading" using ok p by (auto simp: shard_ok_def shard_inv_def)
    then obtain pin b f where v: "v = Ready pin b f" by (cases v) auto
    then have "release_bookkeeping A ((slots_remove A p sh)\<lparr>sh_resident := saturating_sub (sh_resident sh) b\<rparr>) (pin_drop pin m) = (sh', m')"
      using r Inl Some by (simp add: drop_unpaid_def)
    moreover have "shard_ok lim G L R h ((slots_remove A p sh)\<lparr>sh_resident := saturating_sub (sh_resident sh) b\<rparr>) (pin_drop pin m)"
      using Some v by (intro remove_ready_ok [OF ok]) auto
    ultimately show ?thesis using release_ok by blast
  qed
qed

lemma publish_ok:
  assumes ok: "shard_ok lim G L R h sh m" and p: "map_of (sh_map sh) p = Some Loading" and g: "G p pin" "pin_buffer pin \<in># R" "0 < bytes"
    and r: "publish A capacity p pin bytes sh m = (sh', m')"
  shows "shard_ok lim G (L - {p}) R h sh' m'"
proof -
  let ?sh1 = "unmark A p sh"
  let ?sh3 = "note_table (clock_push A p (slots_insert A p (Ready pin bytes True) (?sh1\<lparr>sh_resident := sh_resident ?sh1 + bytes\<rparr>)))"
  note u = unmark_ok [OF ok p, of A]
  note i = insert_ready_ok [OF u(1) u(2) g, of A True]
  obtain sh4 m4 where 4: "evict_down_to_capacity A capacity ?sh3 (pin_clone pin m) = (sh4, m4)" by fastforce
  obtain sh5 m5 where 5: "settle_or_evict A sh4 m4 = (sh5, m5)" by fastforce
  have "shard_ok lim G (L - {p}) R h sh4 m4" using evict_down_ok [OF i 4] by (rule conjunct1)
  then have ok5: "shard_ok lim G (L - {p}) R h sh5 m5" by (rule settle_or_evict_ok [OF _ 5])
  have "drop_unpaid A p sh5 m5 = (sh', m')" using r unfolding publish_def Let_def 4 prod.case 5 .
  then show ?thesis by (rule drop_unpaid_ok [OF ok5, rotated]) simp
qed

subsection \<open>All shards\<close>

definition shard_at :: "nat \<Rightarrow> page_ordinal \<Rightarrow> nat" where
  "shard_at n ordinal = and ((ordinal * 0x9E3779B97F4A7C15) mod 2 ^ 64 div 2 ^ 32) (n - 1)"

lemma shard_of_at: "shard_of c p = shard_at (length (pc_shards c)) p"
  by (simp add: shard_of_def shard_at_def)

lemma and_le_nat: "and a b \<le> (b :: nat)"
proof -
  have "and (int a) (int b) \<le> int b" by (rule AND_upper2) simp
  then have "int (and a b) \<le> int b" by (simp add: of_nat_and_eq)
  then show ?thesis by simp
qed

lemma shard_at_less: "0 < n \<Longrightarrow> shard_at n p < n"
proof -
  assume "0 < n"
  have "shard_at n p \<le> n - 1" unfolding shard_at_def by (rule and_le_nat)
  then show ?thesis using \<open>0 < n\<close> by linarith
qed

definition cache_ok :: "nat \<Rightarrow> (page_ordinal \<Rightarrow> PagePin \<Rightarrow> bool) \<Rightarrow> page_ordinal set \<Rightarrow> nat multiset \<Rightarrow> nat \<Rightarrow> ShardInner list \<Rightarrow> Memory \<Rightarrow> bool" where
  "cache_ok lim G L R h shards m \<longleftrightarrow> shards \<noteq> []
     \<and> (\<forall>i < length shards. shard_inv G {k \<in> L. shard_at (length shards) k = i} (shards ! i))
     \<and> mem_inv lim m (sum_list (map shard_refs shards) + R) (sum_list (map shard_book shards) + h)"

definition without :: "nat \<Rightarrow> 'a list \<Rightarrow> 'a list" where
  "without i xs = take i xs @ drop (Suc i) xs"

lemma sum_without:
  fixes f :: "'a \<Rightarrow> 'm :: comm_monoid_add"
  assumes "i < length xs"
  shows "sum_list (map f xs) = f (xs ! i) + sum_list (map f (without i xs))"
    "sum_list (map f (xs[i := y])) = f y + sum_list (map f (without i xs))"
proof -
  have "sum_list (map f xs) = sum_list (map f (take i xs @ xs ! i # drop (Suc i) xs))" using id_take_nth_drop [OF assms] by simp
  then show "sum_list (map f xs) = f (xs ! i) + sum_list (map f (without i xs))" by (simp add: without_def add.left_commute)
  show "sum_list (map f (xs[i := y])) = f y + sum_list (map f (without i xs))"
    using assms by (simp add: upd_conv_take_nth_drop without_def add.left_commute)
qed

lemma cache_shard:
  assumes "cache_ok lim G L R h shards m" "i < length shards"
  shows "shard_ok lim G {k \<in> L. shard_at (length shards) k = i} (sum_list (map shard_refs (without i shards)) + R)
    (sum_list (map shard_book (without i shards)) + h) (shards ! i) m"
  using assms sum_without(1) [OF assms(2), of shard_refs] sum_without(1) [OF assms(2), of shard_book]
  by (simp add: cache_ok_def shard_ok_def add.commute add.left_commute)

lemma cache_update:
  assumes c: "cache_ok lim G L R h shards m" "i < length shards"
    and s: "shard_ok lim G {k \<in> L'. shard_at (length shards) k = i} (sum_list (map shard_refs (without i shards)) + R')
      (sum_list (map shard_book (without i shards)) + h') sh m'"
    and L: "\<And>k. shard_at (length shards) k \<noteq> i \<Longrightarrow> k \<in> L' \<longleftrightarrow> k \<in> L"
  shows "cache_ok lim G L' R' h' (shards[i := sh]) m'"
proof -
  have "shard_inv G {k \<in> L'. shard_at (length shards) k = j} (shards[i := sh] ! j)" if "j < length shards" for j
  proof (cases "j = i")
    case True
    then show ?thesis using s c(2) by (simp add: shard_ok_def)
  next
    case False
    then have "{k \<in> L'. shard_at (length shards) k = j} = {k \<in> L. shard_at (length shards) k = j}" using L by auto
    then show ?thesis using c(1) that False by (simp add: cache_ok_def)
  qed
  then show ?thesis using c s sum_without(2) [OF c(2), of shard_refs] sum_without(2) [OF c(2), of shard_book]
    by (simp add: cache_ok_def shard_ok_def add.commute add.left_commute)
qed

lemma evict_bytes_loop_ok:
  "cache_ok lim G L R h shards m \<Longrightarrow> evict_bytes_loop A target start cursor idle released shards m = (released', shards', m') \<Longrightarrow>
    cache_ok lim G L R h shards' m' \<and> length shards' = length shards
    \<and> sum_list (map (\<lambda>sh. length (sh_map sh)) shards') \<le> sum_list (map (\<lambda>sh. length (sh_map sh)) shards)
    \<and> (released < released' \<longrightarrow> sum_list (map (\<lambda>sh. length (sh_map sh)) shards') < sum_list (map (\<lambda>sh. length (sh_map sh)) shards))"
proof (induction A target start cursor idle released shards m rule: evict_bytes_loop.induct)
  case (1 A target start cursor idle released shards m)
  let ?i = "(start + cursor) mod length shards"
  show ?case
  proof (cases "released < target \<and> idle < length shards")
    case True
    then have i: "?i < length shards" by (intro mod_less_divisor) linarith
    obtain r sh1 m1 where e: "evict_one A (shards ! ?i) m = (r, sh1, m1)" by (cases "evict_one A (shards ! ?i) m") auto
    have ok: "cache_ok lim G L R h (shards[?i := sh1]) m1"
      by (rule cache_update [OF 1(3) i evict_one_ok [OF cache_shard [OF 1(3) i] e]]) simp
    note sums = evict_one_sum [of r sh1 m1 A shards "start + cursor" m idle, OF e [symmetric] conjunct2 [OF True]]
    note unroll = evict_bytes_loop.simps [of A target start cursor idle released shards m]
    show ?thesis
    proof (cases r)
      case None
      have n: "evict_bytes_loop A target start (cursor + 1) (idle + 1) released (shards[?i := sh1]) m1 = (released', shards', m')"
        using 1(4) True e None unfolding unroll by (simp add: Let_def)
      show ?thesis using 1(1) [OF True refl e [symmetric] None refl ok n] sums(2) by auto
    next
      case (Some b)
      have n: "evict_bytes_loop A target start (cursor + 1) 0 (released + b) (shards[?i := sh1]) m1 = (released', shards', m')"
        using 1(4) True e Some unfolding unroll by (simp add: Let_def)
      show ?thesis using 1(2) [OF True refl e [symmetric] Some refl ok n] sums(1) [OF Some] by auto
    qed
  next
    case False
    then show ?thesis using 1(3,4) by (subst (asm) evict_bytes_loop.simps) auto
  qed
qed

subsection \<open>The machine\<close>

definition machine_ok :: "nat \<Rightarrow> (page_ordinal \<Rightarrow> PagePin \<Rightarrow> bool) \<Rightarrow> page_ordinal set \<Rightarrow> nat multiset \<Rightarrow> nat \<Rightarrow> 'a Machine_scheme \<Rightarrow> bool" where
  "machine_ok lim G L R h s \<longleftrightarrow> cache_ok lim G L R h (pc_shards (mc_cache s)) (mc_mem s)"

lemma set_shard_more [simp]: "Machine.more (set_shard i x s) = Machine.more s"
  by (cases x) (simp add: set_shard_def)

lemma shard_of_less: "machine_ok lim G L R h s \<Longrightarrow> shard_of (mc_cache s) p < length (pc_shards (mc_cache s))"
  unfolding shard_of_at by (rule shard_at_less) (simp add: machine_ok_def cache_ok_def)

text \<open>The shard of an ordinal, and what becomes of the machine when it changes.\<close>

definition other_refs :: "'a Machine_scheme \<Rightarrow> page_ordinal \<Rightarrow> nat multiset" where
  "other_refs s p = sum_list (map shard_refs (without (shard_of (mc_cache s) p) (pc_shards (mc_cache s))))"

definition other_book :: "'a Machine_scheme \<Rightarrow> page_ordinal \<Rightarrow> nat" where
  "other_book s p = sum_list (map shard_book (without (shard_of (mc_cache s) p) (pc_shards (mc_cache s))))"

definition in_shard :: "page_ordinal set \<Rightarrow> 'a Machine_scheme \<Rightarrow> page_ordinal \<Rightarrow> page_ordinal set" where
  "in_shard L s p = {k \<in> L. shard_at (length (pc_shards (mc_cache s))) k = shard_of (mc_cache s) p}"

lemma in_shard_simps [simp]: "in_shard {} s p = {}" "in_shard {p} s p = {p}" "p \<in> in_shard L s p \<longleftrightarrow> p \<in> L"
  by (auto simp: in_shard_def shard_of_at)

lemma machine_shard:
  assumes ok: "machine_ok lim G L R h s"
  shows "shard_ok lim G (in_shard L s p) (other_refs s p + R) (other_book s p + h) (get_shard (shard_of (mc_cache s) p) s) (mc_mem s)"
  using cache_shard [OF ok [unfolded machine_ok_def] shard_of_less [OF ok]]
  by (simp add: get_shard_def in_shard_def other_refs_def other_book_def)

lemma machine_update:
  assumes ok: "machine_ok lim G L R h s" and s: "shard_ok lim G (in_shard L' s p) (other_refs s p + R') (other_book s p + h') sh m"
    and L: "\<And>k. k \<noteq> p \<Longrightarrow> k \<in> L' \<longleftrightarrow> k \<in> L"
  shows "machine_ok lim G L' R' h' (set_shard (shard_of (mc_cache s) p) (sh, m) s)"
proof -
  have "cache_ok lim G L' R' h' ((pc_shards (mc_cache s))[shard_of (mc_cache s) p := sh]) m"
    by (rule cache_update [OF ok [unfolded machine_ok_def] shard_of_less [OF ok] s [unfolded in_shard_def other_refs_def other_book_def]])
      (metis L shard_of_at)
  then show ?thesis by (simp add: machine_ok_def set_shard_def)
qed

lemma touch_ok:
  assumes "shard_ok lim G L R h sh m" "map_of (sh_map sh) p = Some (Ready pin b f)"
  shows "shard_ok lim G L (add_mset (pin_buffer pin) R) h (touch p sh) (pin_clone pin m)" "G p pin"
proof -
  have t: "shard_ok lim G L R h (touch p sh) m"
    by (rule modify_ready_ok [OF assms(1), of "\<lambda>v. case v of Ready pin bytes f \<Rightarrow> Ready pin bytes True | Loading \<Rightarrow> Loading" _ p])
      (auto simp: touch_def)
  have "pin_buffer pin \<in># shard_refs sh"
    using sum_map_remove [OF _ assms(2), of slot_refs] assms(1) by (simp add: shard_refs_def slot_refs_def shard_ok_def shard_inv_def)
  moreover have "shard_refs (touch p sh) = shard_refs sh" unfolding shard_refs_def
    by (auto simp: touch_def slot_refs_def intro!: sum_map_modify split: Slot.split)
  ultimately show "shard_ok lim G L (add_mset (pin_buffer pin) R) h (touch p sh) (pin_clone pin m)"
    using t pin_clone_inv [of lim m "shard_refs (touch p sh) + R" _ pin] by (simp add: shard_ok_def)
  show "G p pin" using shard_ready [OF assms] by simp
qed

lemma cache_get_ok:
  assumes ok: "machine_ok lim G L R h s" and r: "cache_get p s = (r, s')"
  shows "Machine.more s' = Machine.more s" "r = None \<Longrightarrow> machine_ok lim G L R h s'"
    "r = Some pin \<Longrightarrow> G p pin \<and> machine_ok lim G L (add_mset (pin_buffer pin) R) h s'"
proof -
  let ?i = "shard_of (mc_cache s) p"
  note sh = machine_shard [OF ok, of p]
  have c: "(r = None \<and> s' = s) \<or> (\<exists>pin b f. map_of (sh_map (get_shard ?i s)) p = Some (Ready pin b f) \<and> r = Some pin
      \<and> s' = set_shard ?i (touch p (get_shard ?i s), pin_clone pin (mc_mem s)) s)"
    using r by (auto simp: cache_get_def Let_def split: option.splits Slot.splits)
  show "Machine.more s' = Machine.more s" using c by auto
  show "r = None \<Longrightarrow> machine_ok lim G L R h s'" using c ok by auto
  assume "r = Some pin"
  with c obtain b f where f: "map_of (sh_map (get_shard ?i s)) p = Some (Ready pin b f)"
    "s' = set_shard ?i (touch p (get_shard ?i s), pin_clone pin (mc_mem s)) s" by auto
  note t = touch_ok [OF sh f(1)]
  have "machine_ok lim G L (add_mset (pin_buffer pin) R) h s'" unfolding f(2) by (rule machine_update [OF ok]) (use t(1) in simp_all)
  then show "G p pin \<and> machine_ok lim G L (add_mset (pin_buffer pin) R) h s'" using t(2) by simp
qed

lemma evict_bytes_ok:
  assumes ok: "machine_ok lim G L R h s" and r: "evict_bytes A target s = (n, s')"
  shows "machine_ok lim G L R h s'" "Machine.more s' = Machine.more s"
    "sum_list (map (\<lambda>sh. length (sh_map sh)) (pc_shards (mc_cache s'))) \<le> sum_list (map (\<lambda>sh. length (sh_map sh)) (pc_shards (mc_cache s)))"
    "0 < n \<Longrightarrow> sum_list (map (\<lambda>sh. length (sh_map sh)) (pc_shards (mc_cache s'))) < sum_list (map (\<lambda>sh. length (sh_map sh)) (pc_shards (mc_cache s)))"
proof -
  obtain sh m where e: "evict_bytes_loop A target (pc_next_victim_shard (mc_cache s)) 0 0 0 (pc_shards (mc_cache s)) (mc_mem s) = (n, sh, m)"
    and s: "s' = s\<lparr>mc_mem := m, mc_cache := (mc_cache s)\<lparr>pc_shards := sh, pc_next_victim_shard := (pc_next_victim_shard (mc_cache s) + 1) mod 2 ^ 64\<rparr>\<rparr>"
    using r by (auto simp: evict_bytes_def Let_def split: prod.splits)
  note l = evict_bytes_loop_ok [OF ok [unfolded machine_ok_def] e]
  show "machine_ok lim G L R h s'" "Machine.more s' = Machine.more s"
    using l by (simp_all add: s machine_ok_def)
  show "sum_list (map (\<lambda>sh. length (sh_map sh)) (pc_shards (mc_cache s'))) \<le> sum_list (map (\<lambda>sh. length (sh_map sh)) (pc_shards (mc_cache s)))"
    using l by (simp add: s)
  show "sum_list (map (\<lambda>sh. length (sh_map sh)) (pc_shards (mc_cache s'))) < sum_list (map (\<lambda>sh. length (sh_map sh)) (pc_shards (mc_cache s)))" if "0 < n"
    using l that by (simp add: s)
qed

subsection \<open>Loading through the cache\<close>

text \<open>The cache's invariant, with what the rest of the state holds: \<open>x s\<close> is the references and the
  charged bytes it keeps, and a condition of its own; the cache leaves it alone (\<open>framed\<close>).  \<open>R\<close>
  and \<open>h\<close> are what the running operation holds.\<close>

definition framed :: "('a Machine_scheme \<Rightarrow> 'b) \<Rightarrow> bool" where
  "framed x \<longleftrightarrow> (\<forall>s m c. x (s\<lparr>mc_mem := m, mc_cache := c\<rparr>) = x s)"

lemma framed_more:
  fixes s s' :: "'a Machine_scheme"
  assumes "framed x" "Machine.more s' = Machine.more s"
  shows "x s' = x s"
proof -
  have "s' = s\<lparr>mc_mem := mc_mem s', mc_cache := mc_cache s'\<rparr>" using assms(2) by simp
  then show ?thesis using assms(1) unfolding framed_def by metis
qed

type_synonym 's extent = "'s \<Rightarrow> nat multiset \<times> nat \<times> bool"

definition holds :: "nat \<Rightarrow> (page_ordinal \<Rightarrow> PagePin \<Rightarrow> bool) \<Rightarrow> 'a Machine_scheme extent \<Rightarrow>
    page_ordinal set \<Rightarrow> nat multiset \<Rightarrow> nat \<Rightarrow> 'a Machine_scheme \<Rightarrow> bool" where
  "holds lim G x L R h s \<longleftrightarrow> machine_ok lim G L (R + fst (x s)) (h + fst (snd (x s))) s \<and> snd (snd (x s))"

lemma holds_shard:
  assumes "holds lim G x L R h s"
  shows "shard_ok lim G (in_shard L s p) (other_refs s p + (R + fst (x s))) (other_book s p + (h + fst (snd (x s))))
    (get_shard (shard_of (mc_cache s) p) s) (mc_mem s)"
  using assms by (intro machine_shard) (simp add: holds_def)

lemma holds_machine:
  assumes "framed x" "holds lim G x L R h s" "Machine.more s' = Machine.more s"
    "machine_ok lim G L' (R' + fst (x s)) (h' + fst (snd (x s))) s'"
  shows "holds lim G x L' R' h' s'"
  using assms(2,4) framed_more [OF assms(1,3)] by (simp add: holds_def)

lemma holds_update:
  assumes "framed x" "holds lim G x L R h s"
    and "shard_ok lim G (in_shard L' s p) (other_refs s p + (R' + fst (x s))) (other_book s p + (h' + fst (snd (x s)))) sh m"
    and "\<And>k. k \<noteq> p \<Longrightarrow> k \<in> L' \<longleftrightarrow> k \<in> L"
  shows "holds lim G x L' R' h' (set_shard (shard_of (mc_cache s) p) (sh, m) s)"
  using machine_update [of lim G L "R + fst (x s)" "h + fst (snd (x s))" s L' p] assms(2-4)
  by (intro holds_machine [OF assms(1,2)]) (simp_all add: holds_def)

text \<open>A change of the memory alone.\<close>

lemma holds_mem:
  assumes "framed x" "holds lim G x L R h s" and "\<And>R0 h0. mem_inv lim (mc_mem s) (R0 + R) (h0 + h) \<Longrightarrow> mem_inv lim m (R0 + R') (h0 + h')"
  shows "holds lim G x L R' h' (s\<lparr>mc_mem := m\<rparr>)"
proof (rule holds_machine [OF assms(1,2)])
  let ?R = "sum_list (map shard_refs (pc_shards (mc_cache s))) + fst (x s)" and ?h = "sum_list (map shard_book (pc_shards (mc_cache s))) + fst (snd (x s))"
  have c: "cache_ok lim G L (R + fst (x s)) (h + fst (snd (x s))) (pc_shards (mc_cache s)) (mc_mem s)"
    using assms(2) by (simp add: holds_def machine_ok_def)
  then have "mem_inv lim (mc_mem s) (?R + R) (?h + h)" by (simp add: cache_ok_def ac_simps)
  then have "mem_inv lim m (?R + R') (?h + h')" by (rule assms(3))
  then show "machine_ok lim G L (R' + fst (x s)) (h' + fst (snd (x s))) (s\<lparr>mc_mem := m\<rparr>)"
    using c by (simp add: machine_ok_def cache_ok_def ac_simps)
qed simp

lemma holds_release:
  assumes "framed x" "holds lim G x L R (h + c) s"
  shows "holds lim G x L R h (s\<lparr>mc_mem := mem_release c (mc_mem s)\<rparr>)"
  by (rule holds_mem [OF assms], rule mem_release_inv) (simp add: add.assoc)

text \<open>What admission leaves behind.\<close>

definition admitted :: "(page_ordinal set \<Rightarrow> nat multiset \<Rightarrow> nat \<Rightarrow> 's \<Rightarrow> bool) \<Rightarrow> (page_ordinal \<Rightarrow> PagePin \<Rightarrow> bool) \<Rightarrow>
    page_ordinal \<Rightarrow> nat multiset \<Rightarrow> nat \<Rightarrow> Admission \<Rightarrow> 's \<Rightarrow> bool" where
  "admitted J G p R h a s \<longleftrightarrow>
     (case a of Hit pin \<Rightarrow> G p pin \<and> J {} (add_mset (pin_buffer pin) R) h s | Marked \<Rightarrow> J {p} R h s)"

lemma admit_hit:
  assumes x: "framed x" and J: "J = holds lim G x" and s: "J {} R h s"
    and m: "map_of (sh_map (get_shard (shard_of (mc_cache s) p) s)) p = Some (Ready pin b f)"
  shows "G p pin \<and> J {} (add_mset (pin_buffer pin) R) h
    (set_shard (shard_of (mc_cache s) p) (touch p (get_shard (shard_of (mc_cache s) p) s), pin_clone pin (mc_mem s)) s)"
proof -
  note t = touch_ok [OF holds_shard [OF s [unfolded J]] m]
  show ?thesis unfolding J using t by (intro conjI holds_update [OF x s [unfolded J]]) simp_all
qed

lemma no_marker:
  assumes "holds lim G x {} R h s"
  shows "map_of (sh_map (get_shard (shard_of (mc_cache s) p) s)) p \<noteq> Some Loading"
  using holds_shard [OF assms, of p] by (auto simp: shard_ok_def shard_inv_def)

lemma admit_paid:
  assumes x: "framed x" and J: "J = holds lim G x" and K: "\<And>i. K (error_budget i)"
    and again: "\<And>s left'. left = Suc left' \<Longrightarrow> J {} R h s \<Longrightarrow>
      \<exists>r s'. admit A reserve p left' None s = Some (r, s') \<and> (case r of Inl e \<Rightarrow> K e \<and> J {} R h s' | Inr a \<Rightarrow> admitted J G p R h a s')"
    and s: "J {} R (h + n) s"
  shows "\<exists>r s'. admit A reserve p left (Some n) s = Some (r, s') \<and> (case r of Inl e \<Rightarrow> K e \<and> J {} R h s' | Inr a \<Rightarrow> admitted J G p R h a s')"
proof -
  let ?i = "shard_of (mc_cache s) p" and ?release = "\<lambda>s. s\<lparr>mc_mem := mem_release n (mc_mem s)\<rparr>"
  let ?sh = "get_shard ?i s"
  note unroll = admit.simps [of A reserve p left "Some n" s]
  note hs = holds_shard [OF s [unfolded J], of p]
  consider (hit) pin b f where "map_of (sh_map ?sh) p = Some (Ready pin b f)" | (absent) "map_of (sh_map ?sh) p = None"
    using no_marker [OF s [unfolded J], of p] by (metis Slot.exhaust option.exhaust)
  then show ?thesis
  proof cases
    case hit
    let ?s = "set_shard ?i (touch p ?sh, pin_clone pin (mc_mem s)) s"
    note h = admit_hit [OF x J s hit]
    have "J {} (add_mset (pin_buffer pin) R) h (?release ?s)" unfolding J by (rule holds_release [OF x]) (use h J in simp)
    then show ?thesis using hit h by (simp add: unroll Let_def admitted_def)
  next
    case absent
    have rel: "J {} R h (?release s)" unfolding J by (rule holds_release [OF x]) (use s J in simp)
    show ?thesis
    proof (cases "n < growth_for_one_more A ?sh")
      case True
      show ?thesis
      proof (cases left)
        case 0
        then show ?thesis using absent True rel K unfolding unroll Let_def by simp
      next
        case (Suc left')
        then show ?thesis using absent True again [OF Suc rel] unfolding unroll Let_def by simp
      qed
    next
      case False
      obtain sh m where m: "mark_loading A p n ?sh (mc_mem s) = (sh, m)" by fastforce
      have "shard_ok lim G (insert p (in_shard {} s p)) (other_refs s p + (R + fst (x s)))
          (other_book s p + (h + fst (snd (x s)))) sh m"
        by (rule mark_loading_ok [OF _ absent m]) (use hs in \<open>simp add: add.assoc add.commute add.left_commute\<close>)
      then have "J {p} R h (set_shard ?i (sh, m) s)" unfolding J by (intro holds_update [OF x s [unfolded J]]) simp_all
      then show ?thesis using absent False m by (simp add: unroll Let_def admitted_def)
    qed
  qed
qed

lemma admit_ok:
  assumes reserve: "\<And>n R h. triple (J {} R h) (reserve n) (\<lambda>c. J {} R (h + c)) (\<lambda>e s. K e \<and> J {} R h s)"
    and x: "framed x" and J: "J = holds lim G x" and K: "\<And>i. K (error_budget i)"
  shows "J {} R h s \<Longrightarrow>
    \<exists>r s'. admit A reserve p left None s = Some (r, s') \<and> (case r of Inl e \<Rightarrow> K e \<and> J {} R h s' | Inr a \<Rightarrow> admitted J G p R h a s')"
proof (induction left arbitrary: s rule: less_induct)
  case (less left)
  let ?i = "shard_of (mc_cache s) p"
  let ?sh = "get_shard ?i s"
  note unroll = admit.simps [of A reserve p left None s]
  consider (hit) pin b f where "map_of (sh_map ?sh) p = Some (Ready pin b f)" | (absent) "map_of (sh_map ?sh) p = None"
    using no_marker [OF less.prems [unfolded J], of p] by (metis Slot.exhaust option.exhaust)
  then show ?case
  proof cases
    case hit
    then show ?thesis using admit_hit [OF x J less.prems hit] by (simp add: unroll Let_def admitted_def)
  next
    case absent
    let ?n = "LOADING_SLOT_BYTES + growth_for_one_more A ?sh"
    from reserve [of R h ?n] less.prems show ?thesis
    proof (cases rule: tripleE)
      case (ok c t)
      have "\<exists>r s'. admit A reserve p left (Some c) t = Some (r, s') \<and> (case r of Inl e \<Rightarrow> K e \<and> J {} R h s' | Inr a \<Rightarrow> admitted J G p R h a s')"
        by (rule admit_paid [where K = K, OF x J K _ ok(2)]) (use less.IH in auto)
      then show ?thesis using absent ok by (simp add: unroll Let_def op_bind_def)
    next
      case (err e t)
      then show ?thesis using absent by (simp add: unroll Let_def op_bind_def)
    qed
  qed
qed


lemma publish_load:
  assumes x: "framed x" and J: "J = holds lim G x" and s: "J {p} (add_mset (pin_buffer pin) R) h s" and g: "G p pin" "0 < bytes"
  shows "J {} (add_mset (pin_buffer pin) R) h (set_shard (shard_of (mc_cache s) p)
    (publish A capacity p pin bytes (get_shard (shard_of (mc_cache s) p) s) (mc_mem s)) s)"
proof -
  let ?i = "shard_of (mc_cache s) p"
  obtain sh m where r: "publish A capacity p pin bytes (get_shard ?i s) (mc_mem s) = (sh, m)" by fastforce
  note hs = holds_shard [OF s [unfolded J], of p]
  have "map_of (sh_map (get_shard ?i s)) p = Some Loading" using hs by (auto simp: shard_ok_def shard_inv_def)
  from publish_ok [OF hs this g(1) _ g(2) r] show ?thesis unfolding J r by (intro holds_update [OF x s [unfolded J]]) simp_all
qed

lemma give_up_load:
  assumes x: "framed x" and J: "J = holds lim G x" and s: "J {p} R h s"
  shows "J {} R h (set_shard (shard_of (mc_cache s) p)
    (release_bookkeeping A (unmark A p (get_shard (shard_of (mc_cache s) p) s)) (mc_mem s)) s)"
proof -
  let ?i = "shard_of (mc_cache s) p"
  obtain sh m where r: "release_bookkeeping A (unmark A p (get_shard ?i s)) (mc_mem s) = (sh, m)" by fastforce
  note hs = holds_shard [OF s [unfolded J], of p]
  have l: "map_of (sh_map (get_shard ?i s)) p = Some Loading" using hs by (auto simp: shard_ok_def shard_inv_def)
  from release_ok [OF unmark_ok(1) [OF hs l] r] show ?thesis unfolding J r by (intro holds_update [OF x s [unfolded J]]) simp_all
qed

lemma load_marked_ok:
  assumes load: "triple (J {p} R h) load (\<lambda>(pin, bytes) s. G p pin \<and> 0 < bytes \<and> J {p} (add_mset (pin_buffer pin) R) h s)
      (\<lambda>e s. K e \<and> J {p} R h s)"
    and x: "framed x" and J: "J = holds lim G x"
  shows "triple (J {p} R h) (load_marked A p load) (\<lambda>pin s. G p pin \<and> J {} (add_mset (pin_buffer pin) R) h s) (\<lambda>e s. K e \<and> J {} R h s)"
proof (rule tripleI)
  fix s
  assume "J {p} R h s"
  with load show "\<exists>r s'. load_marked A p load s = Some (r, s')
      \<and> (case r of Inl e \<Rightarrow> K e \<and> J {} R h s' | Inr pin \<Rightarrow> G p pin \<and> J {} (add_mset (pin_buffer pin) R) h s')"
  proof (cases rule: tripleE)
    case (ok v t)
    then show ?thesis by (cases v) (auto simp: load_marked_def Let_def intro!: publish_load [OF x J])
  next
    case (err e t)
    then show ?thesis by (auto simp: load_marked_def Let_def intro!: give_up_load [OF x J])
  qed
qed

text \<open>Whatever \<open>reserve\<close> and \<open>load\<close> do within the account, so does the cache around them: it returns
  with a page \<open>G\<close> allows and a reference to it, or with an error of one of them.\<close>

lemma get_or_load_ok:
  assumes reserve: "\<And>n R h. triple (J {} R h) (reserve n) (\<lambda>c. J {} R (h + c)) (\<lambda>e s. K e \<and> J {} R h s)"
    and load: "triple (J {p} R h) load (\<lambda>(pin, bytes) s. G p pin \<and> 0 < bytes \<and> J {p} (add_mset (pin_buffer pin) R) h s)
      (\<lambda>e s. K e \<and> J {p} R h s)"
    and x: "framed x" and J: "J = holds lim G x" and K: "\<And>i. K (error_budget i)"
  shows "triple (J {} R h) (get_or_load A p reserve load) (\<lambda>pin s. G p pin \<and> J {} (add_mset (pin_buffer pin) R) h s)
    (\<lambda>e s. K e \<and> J {} R h s)"
  unfolding get_or_load_def
proof (rule triple_bind)
  show "triple (J {} R h) (admit A reserve p RESERVE_ATTEMPTS None) (admitted J G p R h) (\<lambda>e s. K e \<and> J {} R h s)"
    by (rule tripleI) (rule admit_ok [OF reserve x J K])
next
  fix a
  show "triple (admitted J G p R h a) (case a of Hit pin \<Rightarrow> op_return pin | Marked \<Rightarrow> load_marked A p load)
        (\<lambda>pin s. G p pin \<and> J {} (add_mset (pin_buffer pin) R) h s) (\<lambda>e s. K e \<and> J {} R h s)"
  proof (cases a)
    case (Hit pin)
    then show ?thesis by (auto intro!: triple_return simp: admitted_def)
  next
    case Marked
    then show ?thesis using load_marked_ok [OF load x J] by (simp add: admitted_def [abs_def])
  qed
qed

subsection \<open>How much is cached\<close>

definition ready_count :: "ShardInner \<Rightarrow> nat" where
  "ready_count sh = length (filter (\<lambda>(k, v). is_ready v) (sh_map sh))"

lemma is_ready_simps [simp]: "is_ready (Ready pin bytes f)" "\<not> is_ready Loading"
  by (simp_all add: is_ready_def)

lemma nothing_ready_count: "nothing_ready sh \<longleftrightarrow> ready_count sh = 0"
  by (auto simp: nothing_ready_def ready_count_def filter_empty_conv)

lemma ready_remove:
  assumes "distinct (map fst al)" "map_of al k = Some v" "is_ready v"
  shows "length (filter (\<lambda>(k, v). is_ready v) al) = Suc (length (filter (\<lambda>(k, v). is_ready v) (map_remove k al)))"
  using assms
proof (induction al)
  case (Cons x al)
  show ?case
  proof (cases "fst x = k")
    case True
    then have "k \<notin> set (map fst al)" using Cons.prems(1) by simp
    then have "map_remove k al = al" by (intro map_remove_absent) (simp add: map_of_eq_None_iff)
    then show ?thesis using True Cons.prems by (cases x) (simp add: map_remove_def)
  next
    case False
    then show ?thesis using Cons by (cases x) (auto simp: map_remove_def)
  qed
qed simp

lemma stale_ok:
  assumes "shard_ok lim G L R h sh m" "sh_clock sh = ordinal # rest"
    "\<And>pin bytes f. map_of (sh_map sh) ordinal \<noteq> Some (Ready pin bytes f)"
  shows "shard_ok lim G L R h (sh\<lparr>sh_clock := rest\<rparr>) m"
  using assms by (fastforce simp: shard_ok_def shard_inv_def shard_refs_def shard_book_def)

lemma ready_modify:
  "distinct (map fst al) \<Longrightarrow> map_of al k = Some v \<Longrightarrow> is_ready v = is_ready w \<Longrightarrow>
    length (filter (\<lambda>(k, v). is_ready v) (map_modify k (\<lambda>_. w) al)) = length (filter (\<lambda>(k, v). is_ready v) al)"
proof (induction al)
  case (Cons x al)
  show ?case
  proof (cases "fst x = k")
    case True
    then have "k \<notin> set (map fst al)" using Cons.prems(1) by simp
    then have "map_modify k (\<lambda>_. w) al = al" unfolding map_modify_def by (intro map_idI) (auto simp: image_iff)
    then show ?thesis using True Cons.prems by (cases x) (simp add: map_modify_def)
  next
    case False
    then show ?thesis using Cons by (cases x) (simp add: map_modify_def)
  qed
qed simp

lemma evict_steps_ready:
  "shard_ok lim G L R h sh m \<Longrightarrow> evict_steps A n sh m = (r, sh', m') \<Longrightarrow>
    case r of None \<Rightarrow> ready_count sh' = ready_count sh \<and> sh_resident sh' = sh_resident sh
    | Some b \<Rightarrow> ready_count sh = Suc (ready_count sh') \<and> sh_resident sh = b + sh_resident sh' \<and> 0 < b"
proof (induction n arbitrary: sh m)
  case (Suc n)
  have d: "distinct (map fst (sh_map sh))" and rs: "sh_resident sh = sum_list (map slot_size (sh_map sh))"
    using Suc.prems(1) by (auto simp: shard_ok_def shard_inv_def)
  from Suc.prems(2) show ?case
  proof (cases rule: evict_stepsE)
    case (stale ordinal rest)
    have "shard_ok lim G L R h (sh\<lparr>sh_clock := rest\<rparr>) m" by (rule stale_ok [OF Suc.prems(1) stale(1,2)])
    from Suc.IH [OF this stale(3)] show ?thesis by (cases r) (simp_all add: ready_count_def)
  next
    case (second ordinal rest pin bytes)
    let ?sh = "clock_push A ordinal (sh\<lparr>sh_clock := rest, sh_map := map_modify ordinal (\<lambda>_. Ready pin bytes False) (sh_map sh)\<rparr>)"
    have "evict_steps A 1 sh m = (None, ?sh, m)" using second(1,2) by simp
    then have "shard_ok lim G L R h ?sh m" by (rule evict_steps_ok [OF Suc.prems(1)])
    note IH = Suc.IH [OF this second(3)]
    have "ready_count ?sh = ready_count sh" unfolding ready_count_def
      using ready_modify [OF d second(2), of "Ready pin bytes False"] by simp
    then show ?thesis using IH by (cases r) simp_all
  next
    case (evicted ordinal rest pin bytes)
    have "0 < bytes" using shard_ready [OF Suc.prems(1) evicted(2)] by simp
    then show ?thesis using ready_remove [OF d evicted(2)] release_fields [OF evicted(3)] evicted(4) rs sum_map_remove [OF d evicted(2), of slot_size]
      by (simp add: ready_count_def slot_size_def saturating_sub_def)
  qed simp
qed simp

text \<open>C33: A shard that has a cached page gives one up.  However the second-chance marks are
  set, one call of \<open>evict_one\<close> removes exactly one page, counts its bytes out of \<open>resident\<close> and
  keeps the shard's invariant and the account of the budget; it returns \<open>None\<close> only when
  nothing is cached.  The one condition is that twice the length of the ring does not overflow.\<close>
theorem evict_one_evicts:
  assumes "shard_ok lim G L R h sh m" "2 * length (sh_clock sh) < usize_max"
  shows "\<exists>r sh' m'. evict_one A sh m = (r, sh', m') \<and> shard_ok lim G L R h sh' m' \<and> used (mem_budget m') \<le> lim
    \<and> (case r of None \<Rightarrow> ready_count sh = 0 | Some b \<Rightarrow> ready_count sh = Suc (ready_count sh') \<and> sh_resident sh = b + sh_resident sh' \<and> 0 < b)"
proof -
  obtain r sh' m' where e: "evict_one A sh m = (r, sh', m')" by (cases "evict_one A sh m") auto
  note ok = evict_one_ok [OF assms(1) e] and n = evict_steps_ready [OF assms(1) e [unfolded evict_one_def]]
  have b: "used (mem_budget m') \<le> lim" using ok mem_inv_bounded by (auto simp: shard_ok_def)
  show ?thesis
  proof (cases r)
    case None
    then have "ready_count sh = 0" using evict_one_progress [OF assms] e n by (simp add: nothing_ready_count)
    then show ?thesis using e ok b None by simp
  next
    case (Some x)
    then show ?thesis using e ok b n by auto
  qed
qed


text \<open>A shard with one page, which somebody else holds as well, in a budget of a hundred bytes.\<close>

definition one_alloc :: Alloc where
  "one_alloc = \<lparr>map_cap_insert = (\<lambda>c n. max c n), map_cap_remove = (\<lambda>c n. c), map_cap_shrink = (\<lambda>c n. n),
     ring_cap_push = (\<lambda>c n. max c n), ring_cap_shrink = (\<lambda>c n. n), slot_bytes = 40, shard_bytes = 200, root_entry_bytes = 16\<rparr>"

definition one_pin :: PagePin where
  "one_pin = \<lparr>pin_buffer = 0, pin_ordinal = 7, pin_bytes = [1, 2, 3]\<rparr>"

definition one_shard :: "Slot \<Rightarrow> nat \<Rightarrow> ShardInner" where
  "one_shard slot n = shard_new\<lparr>sh_map := [(7, slot)], sh_clock := [7], sh_resident := n, sh_pending_pushes := 1\<rparr>"

definition one_memory :: "nat \<Rightarrow> Memory" where
  "one_memory n = (memory_new \<lparr>limit = 100, used = 10, peak = 10\<rparr>)\<lparr>mem_count := \<lambda>b. if b = 0 then n else 0, mem_charge := \<lambda>_. 10, mem_next := 1\<rparr>"

lemma one_shard_ok:
  "shard_ok 100 (\<lambda>k pin. pin = one_pin) {} {#0#} 0 (one_shard (Ready one_pin 10 True) 10) (one_memory 2)"
  "shard_ok 100 (\<lambda>k pin. pin = one_pin) {7} {#0#} 0 (one_shard Loading 0) (one_memory 1)"
  by (auto simp: shard_ok_def shard_inv_def one_shard_def shard_new_def slot_size_def shard_refs_def slot_refs_def shard_book_def
      bookkeeping_bytes_def mem_inv_def one_memory_def memory_new_def accounts_def live_bytes_def one_pin_def fun_eq_iff usize_max_def split: if_splits)

theorem evict_one_evicts_witness:
  "\<exists>b sh' m'. evict_one one_alloc (one_shard (Ready one_pin 10 True) 10) (one_memory 2) = (Some b, sh', m')
    \<and> b + sh_resident sh' = 10 \<and> ready_count sh' = 0"
  using evict_one_evicts [OF one_shard_ok(1), of one_alloc]
  by (auto simp: one_shard_def shard_new_def usize_max_def ready_count_def split: option.splits)

lemma evict_one_resident: "shard_ok lim G L R h sh m \<Longrightarrow> evict_one A sh m = (r, sh', m') \<Longrightarrow> sh_resident sh' \<le> sh_resident sh"
  unfolding evict_one_def by (drule (1) evict_steps_ready) (auto split: option.splits)

lemma settle_or_evict_resident:
  "shard_ok lim G L R h sh m \<Longrightarrow> settle_or_evict A sh m = (sh', m') \<Longrightarrow> sh_resident sh' \<le> sh_resident sh"
proof (induction A sh m rule: settle_or_evict.induct)
  case (1 A sh m)
  show ?case
  proof (cases "settle_bookkeeping A sh m")
    case (Inr x)
    then show ?thesis using 1(3) settle_fields [of _ sh m]
      by (subst (asm) settle_or_evict.simps) (cases x, auto simp: settle_bookkeeping_def)
  next
    case (Inl e)
    obtain r sh1 m1 where ev: "evict_one A sh m = (r, sh1, m1)" by (cases "evict_one A sh m") auto
    note ok = evict_one_ok [OF 1(2) ev] and le = evict_one_resident [OF 1(2) ev]
    show ?thesis
    proof (cases r)
      case None
      then show ?thesis using 1(3) Inl ev le by (subst (asm) settle_or_evict.simps) auto
    next
      case (Some b)
      have "settle_or_evict A sh1 m1 = (sh', m')" using 1(3) Inl ev Some by (subst (asm) settle_or_evict.simps) simp
      from 1(1) [OF Inl ev [symmetric] _ refl ok this] Some le show ?thesis by auto
    qed
  qed
qed

lemma drop_unpaid_resident: "drop_unpaid A p sh m = (sh', m') \<Longrightarrow> sh_resident sh' \<le> sh_resident sh"
proof -
  assume r: "drop_unpaid A p sh m = (sh', m')"
  show ?thesis
  proof (cases "settle_bookkeeping A sh m")
    case (Inr x)
    then show ?thesis using r settle_fields [of _ sh m sh' m'] by (simp add: drop_unpaid_def settle_bookkeeping_def)
  next
    case (Inl e)
    then show ?thesis using r release_fields(3) [of A _ _ sh' m']
      by (fastforce simp: drop_unpaid_def saturating_sub_def split: option.splits Slot.splits)
  qed
qed

text \<open>C34: When a load publishes its page the shard ends inside its share of the cache.  From a
  shard with the load's marker, publishing keeps the invariant and the account of the budget,
  takes the marker away, and leaves at most \<open>capacity\<close> bytes cached, whatever the size of the
  page and whether or not the shard's table can still be paid for.\<close>
theorem publish_within_capacity:
  assumes ok: "shard_ok lim G L R h sh m" and p: "map_of (sh_map sh) p = Some Loading" and g: "G p pin" "pin_buffer pin \<in># R" "0 < bytes"
    and ring: "2 * Suc (length (sh_clock sh)) < usize_max"
  shows "\<exists>sh' m'. publish A capacity p pin bytes sh m = (sh', m') \<and> shard_ok lim G (L - {p}) R h sh' m'
    \<and> sh_resident sh' \<le> capacity \<and> used (mem_budget m') \<le> lim"
proof -
  obtain sh' m' where r: "publish A capacity p pin bytes sh m = (sh', m')" by fastforce
  let ?sh1 = "unmark A p sh"
  let ?sh3 = "note_table (clock_push A p (slots_insert A p (Ready pin bytes True) (?sh1\<lparr>sh_resident := sh_resident ?sh1 + bytes\<rparr>)))"
  note u = unmark_ok [OF ok p, of A]
  note i = insert_ready_ok [OF u(1) u(2) g, of A True]
  obtain sh4 m4 where 4: "evict_down_to_capacity A capacity ?sh3 (pin_clone pin m) = (sh4, m4)" by fastforce
  obtain sh5 m5 where 5: "settle_or_evict A sh4 m4 = (sh5, m5)" by fastforce
  note ev = evict_down_ok [OF i 4]
  have "length (sh_clock ?sh3) = Suc (length (sh_clock sh))" by (simp add: unmark_def Let_def)
  then have "sh_resident sh4 \<le> capacity" using ev ring by simp
  moreover have "sh_resident sh5 \<le> sh_resident sh4" by (rule settle_or_evict_resident [OF conjunct1 [OF ev] 5])
  moreover have "drop_unpaid A p sh5 m5 = (sh', m')" using r unfolding publish_def Let_def 4 prod.case 5 .
  then have "sh_resident sh' \<le> sh_resident sh5" by (rule drop_unpaid_resident)
  moreover have ok': "shard_ok lim G (L - {p}) R h sh' m'" by (rule publish_ok [OF ok p g r])
  moreover have "used (mem_budget m') \<le> lim" using ok' mem_inv_bounded by (auto simp: shard_ok_def)
  ultimately show ?thesis using r by simp
qed


theorem publish_within_capacity_witness:
  "\<exists>sh' m'. publish one_alloc 5 7 one_pin 10 (one_shard Loading 0) (one_memory 1) = (sh', m') \<and> sh_resident sh' \<le> 5 \<and> used (mem_budget m') \<le> 100"
  using publish_within_capacity [OF one_shard_ok(2), of 7 one_pin 10 one_alloc 5]
  by (auto simp: one_shard_def shard_new_def usize_max_def one_pin_def)

end
