(* ===== verification/Directory.thy ===== *)
theory Directory
  imports Cache_Account Io Format
begin

text \<open>
  The page directory (\<^verbatim>\<open>crates/drydb/src/directory.rs\<close>): page ordinal to file offset, read in chunks
  of which a bounded number is kept, all charged to the budget the pages draw on.

  \<open>reclaim\<close>, which frees memory held elsewhere, is an argument as in the code.  The loop that
  gives up memory until a chunk fits is a partial function: that it returns depends on what
  \<open>reclaim\<close> does, and is proved under \<open>reclaims\<close>.
\<close>

subsection \<open>The directory\<close>

record CachedChunk =
  ch_index :: nat
  ch_data :: bytes
  ch_last_used :: nat
  ch_charge :: charge

record DirectoryConfig =
  dc_source :: source
  dc_base :: nat
  dc_count :: nat
  dc_entries_per_chunk :: nat
  dc_max_chunks :: nat

definition page_directory_new :: "source \<Rightarrow> file_offset \<Rightarrow> nat \<Rightarrow> nat \<Rightarrow> nat \<Rightarrow> DirectoryConfig" where
  "page_directory_new src base slots entries_per_chunk max_chunks =
     \<lparr>dc_source = src, dc_base = base, dc_count = slots, dc_entries_per_chunk = max entries_per_chunk 1,
      dc_max_chunks = max max_chunks 1\<rparr>"

text \<open>The part of the state the directory works on; \<open>io_clock\<close> counts the calls made of the source.\<close>

record Directory = Machine +
  pd_chunks :: "CachedChunk list"
  pd_tick :: nat
  io_clock :: nat

definition next_tick :: "'a Directory_scheme \<Rightarrow> nat \<times> 'a Directory_scheme" where
  "next_tick s = (pd_tick s, s\<lparr>pd_tick := (pd_tick s + 1) mod 2 ^ 64\<rparr>)"

definition chunks_held :: "'a Directory_scheme \<Rightarrow> nat" where "chunks_held s = length (pd_chunks s)"

text \<open>The first position with the least \<open>last_used\<close>, and \<open>Vec::swap_remove\<close>.\<close>

fun least_used :: "CachedChunk list \<Rightarrow> nat option" where
  "least_used [] = None"
| "least_used (c # cs) =
     (case least_used cs of
        None \<Rightarrow> Some 0
      | Some i \<Rightarrow> if ch_last_used (cs ! i) < ch_last_used c then Some (Suc i) else Some 0)"

definition swap_remove :: "nat \<Rightarrow> 'b list \<Rightarrow> 'b list" where
  "swap_remove i xs = butlast (xs[i := last xs])"

definition drop_chunk :: "nat \<Rightarrow> 'a Directory_scheme \<Rightarrow> 'a Directory_scheme" where
  "drop_chunk i s = s\<lparr>pd_chunks := swap_remove i (pd_chunks s), mc_mem := mem_release (ch_charge (pd_chunks s ! i)) (mc_mem s)\<rparr>"

definition directory_evict_one :: "'a Directory_scheme \<Rightarrow> bool \<times> 'a Directory_scheme" where
  "directory_evict_one s = (case least_used (pd_chunks s) of None \<Rightarrow> (False, s) | Some i \<Rightarrow> (True, drop_chunk i s))"

definition directory_lookup :: "nat \<Rightarrow> nat \<Rightarrow> ('a Directory_scheme, int option) op" where
  "directory_lookup chunk_index slot s =
     (case next_tick s of (tick, s1) \<Rightarrow>
      case find (\<lambda>i. ch_index (pd_chunks s1 ! i) = chunk_index) [0..<length (pd_chunks s1)] of
        None \<Rightarrow> Some (Ok None, s1)
      | Some i \<Rightarrow>
          (let c = pd_chunks s1 ! i in
           Some (and_then (read_i64 (ch_data c) slot) (\<lambda>v. Ok (Some v)),
             s1\<lparr>pd_chunks := (pd_chunks s1)[i := c\<lparr>ch_last_used := tick\<rparr>]\<rparr>)))"

definition validate_offset :: "DirectoryConfig \<Rightarrow> int \<Rightarrow> page_ordinal \<Rightarrow> file_offset result" where
  "validate_offset D raw ordinal =
     and_then (map_err (at_page ordinal) (file_offset_from_i64 raw)) (\<lambda>offset.
     if offset < HEADER_LEN \<or> offset \<ge> dc_base D then Err (at_page ordinal corrupt) else Ok offset)"

partial_function (option) reserve_chunk ::
  "(nat \<Rightarrow> 'a Directory_scheme \<Rightarrow> nat \<times> 'a Directory_scheme) \<Rightarrow> nat \<Rightarrow> 'a Directory_scheme \<Rightarrow> (charge result \<times> 'a Directory_scheme) option" where
  "reserve_chunk reclaim wanted s =
     (case mem_reserve wanted (mc_mem s) of
        Inr (c, m) \<Rightarrow> Some (Ok c, s\<lparr>mc_mem := m\<rparr>)
      | Inl e \<Rightarrow>
          (case directory_evict_one s of (dropped, s1) \<Rightarrow>
           if dropped then reserve_chunk reclaim wanted s1
           else
             (case reclaim wanted s1 of (n, s2) \<Rightarrow>
              if n = 0 then Some (Err e, s2) else reserve_chunk reclaim wanted s2)))"

text \<open>One read of the source.\<close>

definition source_read :: "source \<Rightarrow> nat \<Rightarrow> nat \<Rightarrow> ('a Directory_scheme, bytes) op" where
  "source_read src len offset s =
     (case read_exact_at src len offset (io_clock s) of None \<Rightarrow> None | Some (r, t) \<Rightarrow> Some (r, s\<lparr>io_clock := t\<rparr>))"

text \<open>An operation during which a charge is held, and given back if it fails.\<close>

definition op_paid :: "charge \<Rightarrow> ('a Machine_scheme, 'b) op \<Rightarrow> ('a Machine_scheme, 'b) op" where
  "op_paid c m s =
     (case m s of
        None \<Rightarrow> None
      | Some (Inl e, s') \<Rightarrow> Some (Err e, s'\<lparr>mc_mem := mem_release c (mc_mem s')\<rparr>)
      | Some (Inr v, s') \<Rightarrow> Some (Ok v, s'))"

definition read_chunk ::
  "DirectoryConfig \<Rightarrow> nat \<Rightarrow> (nat \<Rightarrow> 'a Directory_scheme \<Rightarrow> nat \<times> 'a Directory_scheme) \<Rightarrow> ('a Directory_scheme, CachedChunk) op" where
  "read_chunk D chunk_index reclaim =
     op_bind (op_lift (ok_or (checked_mul chunk_index (dc_entries_per_chunk D)) corrupt)) (\<lambda>first.
     let entries = min (dc_count D - first) (dc_entries_per_chunk D) in
     op_bind (op_lift (ok_or (checked_mul entries DIRECTORY_SLOT_LEN) corrupt)) (\<lambda>len.
     op_bind (op_lift (ok_or (checked_add (dc_base D) ((first * DIRECTORY_SLOT_LEN) mod 2 ^ 64)) corrupt)) (\<lambda>offset.
     op_bind (reserve_chunk reclaim (len + BUFFER_OVERHEAD)) (\<lambda>c.
     op_bind (op_paid c (source_read (dc_source D) len offset)) (\<lambda>data s.
     case next_tick s of (tick, s1) \<Rightarrow>
       Some (Ok \<lparr>ch_index = chunk_index, ch_data = data, ch_last_used = tick, ch_charge = c\<rparr>, s1))))))"

definition directory_insert :: "DirectoryConfig \<Rightarrow> CachedChunk \<Rightarrow> 'a Directory_scheme \<Rightarrow> 'a Directory_scheme" where
  "directory_insert D chunk s =
     (if \<exists>c \<in> set (pd_chunks s). ch_index c = ch_index chunk then s\<lparr>mc_mem := mem_release (ch_charge chunk) (mc_mem s)\<rparr>
      else
        (let s1 = (if length (pd_chunks s) \<ge> dc_max_chunks D
                   then (case least_used (pd_chunks s) of None \<Rightarrow> s | Some i \<Rightarrow> drop_chunk i s) else s) in
         s1\<lparr>pd_chunks := pd_chunks s1 @ [chunk]\<rparr>))"

definition directory_offset_of ::
  "DirectoryConfig \<Rightarrow> page_ordinal \<Rightarrow> (nat \<Rightarrow> 'a Directory_scheme \<Rightarrow> nat \<times> 'a Directory_scheme) \<Rightarrow> ('a Directory_scheme, file_offset) op" where
  "directory_offset_of D ordinal reclaim =
     (if ordinal \<ge> dc_count D then op_fail corrupt
      else
        (let chunk_index = ordinal div dc_entries_per_chunk D;
             slot = (ordinal mod dc_entries_per_chunk D) * DIRECTORY_SLOT_LEN in
         op_bind (directory_lookup chunk_index slot) (\<lambda>found.
         case found of
           Some raw \<Rightarrow> op_lift (validate_offset D raw ordinal)
         | None \<Rightarrow>
             op_bind (read_chunk D chunk_index reclaim) (\<lambda>chunk.
             op_bind (op_paid (ch_charge chunk) (op_lift (read_i64 (ch_data chunk) slot))) (\<lambda>raw s.
             op_lift (validate_offset D raw ordinal) (directory_insert D chunk s))))))"

subsection \<open>What the directory keeps\<close>

text \<open>What the file says about a page, with no cache and no budget in between.\<close>

definition dir_fits :: "DirectoryConfig \<Rightarrow> bytes \<Rightarrow> bool" where
  "dir_fits D img \<longleftrightarrow> 0 < dc_entries_per_chunk D \<and> dc_base D + dc_count D * DIRECTORY_SLOT_LEN \<le> length img
     \<and> dc_base D + dc_count D * DIRECTORY_SLOT_LEN \<le> usize_max"

definition dir_offset :: "DirectoryConfig \<Rightarrow> bytes \<Rightarrow> page_ordinal \<Rightarrow> file_offset result" where
  "dir_offset D img p =
     (if p \<ge> dc_count D then Err corrupt
      else and_then (read_i64 img (dc_base D + p * DIRECTORY_SLOT_LEN)) (\<lambda>raw. validate_offset D raw p))"

text \<open>A chunk holds its part of the directory.\<close>

definition chunk_ok :: "DirectoryConfig \<Rightarrow> bytes \<Rightarrow> CachedChunk \<Rightarrow> bool" where
  "chunk_ok D img c \<longleftrightarrow> ch_data c = slice img (dc_base D + ch_index c * dc_entries_per_chunk D * DIRECTORY_SLOT_LEN)
     (min (dc_count D - ch_index c * dc_entries_per_chunk D) (dc_entries_per_chunk D) * DIRECTORY_SLOT_LEN)"

lemma chunk_slot:
  assumes c: "chunk_ok D img c" "ch_index c = p div dc_entries_per_chunk D" and f: "dir_fits D img" and p: "p < dc_count D"
  shows "read_i64 (ch_data c) ((p mod dc_entries_per_chunk D) * DIRECTORY_SLOT_LEN) = read_i64 img (dc_base D + p * DIRECTORY_SLOT_LEN)"
proof -
  define n q i where "n = dc_entries_per_chunk D" and "q = p div n" and "i = p mod n"
  have n: "0 < n" and b: "dc_base D + dc_count D * 8 \<le> length img" "dc_base D + dc_count D * 8 \<le> usize_max"
    using f by (simp_all add: dir_fits_def n_def DIRECTORY_SLOT_LEN_def)
  have pq: "p = q * n + i" "i < n" using n by (simp_all add: q_def i_def)
  have d: "ch_data c = slice img (dc_base D + q * n * 8) (min (dc_count D - q * n) n * 8)"
    using c by (simp add: chunk_ok_def n_def q_def DIRECTORY_SLOT_LEN_def)
  define k where "k = min (dc_count D - q * n) n"
  have i: "i < k" and k: "q * n + k \<le> dc_count D" using p pq by (auto simp: k_def min_def)
  have e: "dc_base D + q * n * 8 + k * 8 \<le> length img" "dc_base D + q * n * 8 + k * 8 \<le> usize_max" using k b by linarith+
  have len: "length (ch_data c) = k * 8" using e by (simp add: d k_def slice_def)
  have sl: "slice (ch_data c) (i * 8) 8 = slice img (dc_base D + p * 8) 8"
    unfolding d k_def [symmetric] using i pq(1) by (subst slice_slice) (auto simp: algebra_simps)
  have "fits (ch_data c) (i * 8) 8" "fits img (dc_base D + p * 8) 8"
    unfolding fits_def len using i e pq(1) by linarith+
  then have "read_i64 (ch_data c) (i * 8) = Ok (to_signed 64 (le_nat (slice img (dc_base D + p * 8) 8)))"
    "read_i64 img (dc_base D + p * 8) = Ok (to_signed 64 (le_nat (slice img (dc_base D + p * 8) 8)))" unfolding read_Ok_iff using sl by simp_all
  then show ?thesis by (simp add: i_def n_def DIRECTORY_SLOT_LEN_def)
qed

text \<open>The extent of a state with a directory: what \<open>y\<close> says of the rest, and the chunks.\<close>

definition dframed :: "('a Directory_scheme \<Rightarrow> 'b) \<Rightarrow> bool" where
  "dframed y \<longleftrightarrow> (\<forall>s m c ch t k. y (s\<lparr>mc_mem := m, mc_cache := c, pd_chunks := ch, pd_tick := t, io_clock := k\<rparr>) = y s)"

definition dir_extent :: "DirectoryConfig \<Rightarrow> bytes \<Rightarrow> 'a Directory_scheme extent \<Rightarrow> 'a Directory_scheme extent" where
  "dir_extent D img y s =
     (fst (y s), fst (snd (y s)) + sum_list (map ch_charge (pd_chunks s)), snd (snd (y s)) \<and> (\<forall>c \<in> set (pd_chunks s). chunk_ok D img c))"

lemma dframed_simps:
  fixes s :: "'a Directory_scheme"
  assumes "dframed y"
  shows "y (s\<lparr>mc_mem := m\<rparr>) = y s" "y (s\<lparr>mc_cache := c\<rparr>) = y s" "y (s\<lparr>pd_chunks := ch\<rparr>) = y s" "y (s\<lparr>pd_tick := t\<rparr>) = y s"
    "y (s\<lparr>io_clock := k\<rparr>) = y s"
proof -
  have A: "y (s\<lparr>mc_mem := m, mc_cache := c, pd_chunks := ch, pd_tick := t, io_clock := k\<rparr>) = y s" for m c ch t k
    using assms unfolding dframed_def by blast
  show "y (s\<lparr>mc_mem := m\<rparr>) = y s" using A [where m = m and c = "mc_cache s" and ch = "pd_chunks s" and t = "pd_tick s" and k = "io_clock s"] by simp
  show "y (s\<lparr>mc_cache := c\<rparr>) = y s" using A [where m = "mc_mem s" and c = c and ch = "pd_chunks s" and t = "pd_tick s" and k = "io_clock s"] by simp
  show "y (s\<lparr>pd_chunks := ch\<rparr>) = y s" using A [where m = "mc_mem s" and c = "mc_cache s" and ch = ch and t = "pd_tick s" and k = "io_clock s"] by simp
  show "y (s\<lparr>pd_tick := t\<rparr>) = y s" using A [where m = "mc_mem s" and c = "mc_cache s" and ch = "pd_chunks s" and t = t and k = "io_clock s"] by simp
  show "y (s\<lparr>io_clock := k\<rparr>) = y s" using A [where m = "mc_mem s" and c = "mc_cache s" and ch = "pd_chunks s" and t = "pd_tick s" and k = k] by simp
qed

lemma dir_extent_framed: "dframed y \<Longrightarrow> framed (dir_extent D img y)"
  by (simp add: framed_def dir_extent_def dframed_simps)

lemma least_used_less: "least_used xs = Some i \<Longrightarrow> i < length xs"
  by (induction xs arbitrary: i) (auto split: option.splits if_splits)

lemma least_used_None: "least_used xs = None \<longleftrightarrow> xs = []"
  by (cases xs) (auto split: option.splits if_splits)

lemma swap_remove_mset:
  assumes "i < length xs"
  shows "mset xs = add_mset (xs ! i) (mset (swap_remove i xs))"
proof -
  let ?ys = "xs[i := last xs]"
  have ne: "?ys \<noteq> []" using assms by auto
  have "last ?ys = last xs" using assms ne by (cases "i = length xs - 1") (auto simp: last_conv_nth nth_list_update)
  then have "mset ?ys = add_mset (last xs) (mset (swap_remove i xs))"
    using arg_cong [OF append_butlast_last_id [OF ne], of mset] by (simp add: swap_remove_def)
  moreover have "mset ?ys = add_mset (last xs) (mset xs - {#xs ! i#})" using assms by (simp add: mset_update)
  ultimately have "mset (swap_remove i xs) = mset xs - {#xs ! i#}" by simp
  then show ?thesis using assms by simp
qed

lemma swap_remove_facts:
  fixes f :: "'b \<Rightarrow> nat"
  assumes "i < length xs"
  shows "length xs = Suc (length (swap_remove i xs))" "set (swap_remove i xs) \<subseteq> set xs"
    "sum_list (map f xs) = f (xs ! i) + sum_list (map f (swap_remove i xs))"
proof -
  note m = swap_remove_mset [OF assms]
  show "length xs = Suc (length (swap_remove i xs))" using arg_cong [OF m, of size] by simp
  show "set (swap_remove i xs) \<subseteq> set xs" using arg_cong [OF m, of set_mset] by auto
  have "sum_mset (image_mset f (mset xs)) = f (xs ! i) + sum_mset (image_mset f (mset (swap_remove i xs)))" by (subst m) simp
  then show "sum_list (map f xs) = f (xs ! i) + sum_list (map f (swap_remove i xs))" by (simp add: sum_mset_sum_list [symmetric])
qed

lemma machine_ok_fields [simp]:
  fixes s :: "'a Directory_scheme"
  shows "machine_ok lim G L R h (s\<lparr>pd_chunks := ch\<rparr>) = machine_ok lim G L R h s" "machine_ok lim G L R h (s\<lparr>pd_tick := t\<rparr>) = machine_ok lim G L R h s"
    "machine_ok lim G L R h (s\<lparr>io_clock := k\<rparr>) = machine_ok lim G L R h s"
  by (simp_all add: machine_ok_def)

lemma holds_fields:
  fixes s :: "'a Directory_scheme"
  assumes "dframed y"
  shows "holds lim G (dir_extent D img y) L R h (s\<lparr>pd_tick := t\<rparr>) = holds lim G (dir_extent D img y) L R h s"
    "holds lim G (dir_extent D img y) L R h (s\<lparr>io_clock := k\<rparr>) = holds lim G (dir_extent D img y) L R h s"
  by (simp_all add: holds_def dir_extent_def dframed_simps [OF assms])

text \<open>Replacing the chunks moves charged bytes between the directory and the operation.\<close>

lemma holds_chunks:
  fixes s :: "'a Directory_scheme"
  assumes "dframed y" "holds lim G (dir_extent D img y) L R h s" "\<And>c. c \<in> set ch \<Longrightarrow> chunk_ok D img c"
    "h' + sum_list (map ch_charge ch) = h + sum_list (map ch_charge (pd_chunks s))"
  shows "holds lim G (dir_extent D img y) L R h' (s\<lparr>pd_chunks := ch\<rparr>)"
proof -
  have e: "h' + (fst (snd (y s)) + sum_list (map ch_charge ch)) = h + (fst (snd (y s)) + sum_list (map ch_charge (pd_chunks s)))"
    using assms(4) by linarith
  have "machine_ok lim G L (R + fst (y s)) (h' + (fst (snd (y s)) + sum_list (map ch_charge ch))) s"
    unfolding e using assms(2) by (simp add: holds_def dir_extent_def)
  then show ?thesis using assms(2,3) by (simp add: holds_def dir_extent_def dframed_simps [OF assms(1)])
qed

lemma holds_reserve:
  assumes x: "framed x" and s: "holds lim G x L R h s"
  shows "mem_reserve n (mc_mem s) = Ok (c, m) \<Longrightarrow> c = n \<and> holds lim G x L R (h + n) (s\<lparr>mc_mem := m\<rparr>)"
    "mem_reserve n (mc_mem s) = Err e \<Longrightarrow> err_kind e = BudgetExceeded"
proof -
  obtain R0 h0 where "mem_inv lim (mc_mem s) R0 h0" using s by (auto simp: holds_def machine_ok_def cache_ok_def)
  note i = mem_reserve_inv [OF this, of n]
  show "err_kind e = BudgetExceeded" if "mem_reserve n (mc_mem s) = Err e" by (rule i(2) [OF that])
  assume r: "mem_reserve n (mc_mem s) = Ok (c, m)"
  have "holds lim G x L R (h + n) (s\<lparr>mc_mem := m\<rparr>)"
  proof (rule holds_mem [OF x s])
    fix R0 h0
    assume "mem_inv lim (mc_mem s) (R0 + R) (h0 + h)"
    from mem_reserve_inv(1) [OF this r] show "mem_inv lim m (R0 + R) (h0 + (h + n))" by (simp add: add.assoc)
  qed
  then show "c = n \<and> holds lim G x L R (h + n) (s\<lparr>mc_mem := m\<rparr>)" using i(1) [OF r] by simp
qed

lemma drop_chunk_ok:
  assumes y: "dframed y" and s: "holds lim G (dir_extent D img y) L R h s" and i: "i < length (pd_chunks s)"
  shows "holds lim G (dir_extent D img y) L R h (drop_chunk i s)"
proof -
  let ?ch = "swap_remove i (pd_chunks s)" and ?c = "ch_charge (pd_chunks s ! i)"
  note f = swap_remove_facts [OF i]
  have "\<And>c. c \<in> set ?ch \<Longrightarrow> chunk_ok D img c" using s f(2) by (auto simp: holds_def dir_extent_def)
  then have "holds lim G (dir_extent D img y) L R (h + ?c) (s\<lparr>pd_chunks := ?ch\<rparr>)"
    using f(3) [of ch_charge] by (intro holds_chunks [OF y s]) simp_all
  from holds_release [OF dir_extent_framed [OF y] this] show ?thesis by (simp add: drop_chunk_def)
qed

lemma directory_evict_ok:
  assumes y: "dframed y" and s: "holds lim G (dir_extent D img y) L R h s" and e: "directory_evict_one s = (b, s')"
  shows "holds lim G (dir_extent D img y) L R h s'" "y s' = y s" "mc_cache s' = mc_cache s" "io_clock s' = io_clock s"
    "if b then length (pd_chunks s) = Suc (length (pd_chunks s')) else pd_chunks s = [] \<and> s' = s"
proof -
  consider "b = False" "s' = s" "pd_chunks s = []" | i where "b = True" "s' = drop_chunk i s" "i < length (pd_chunks s)"
    using e least_used_less by (auto simp: directory_evict_one_def least_used_None split: option.splits)
  then have "holds lim G (dir_extent D img y) L R h s' \<and> y s' = y s \<and> mc_cache s' = mc_cache s \<and> io_clock s' = io_clock s
    \<and> (if b then length (pd_chunks s) = Suc (length (pd_chunks s')) else pd_chunks s = [] \<and> s' = s)"
  proof cases
    case 1
    then show ?thesis using s by simp
  next
    case 2
    then show ?thesis using drop_chunk_ok [OF y s] swap_remove_facts(1) [OF 2(3)]
      by (simp add: drop_chunk_def dframed_simps [OF y])
  qed
  then show "holds lim G (dir_extent D img y) L R h s'" "y s' = y s" "mc_cache s' = mc_cache s" "io_clock s' = io_clock s"
    "if b then length (pd_chunks s) = Suc (length (pd_chunks s')) else pd_chunks s = [] \<and> s' = s" by blast+
qed

subsection \<open>Reading through the directory\<close>

text \<open>The errors that are the machine's and not the file's: no memory, or a source that fails.\<close>

definition store_error :: "source \<Rightarrow> Error \<Rightarrow> bool" where
  "store_error src e \<longleftrightarrow> err_kind e = BudgetExceeded \<or> can_fail src \<and> err_kind e \<in> {Io, CorruptData}"

text \<open>A function that reclaims memory keeps the account, and \<open>size_of\<close> falls whenever it or the
  directory gives something up.\<close>

definition reclaims :: "('a Directory_scheme \<Rightarrow> bool) \<Rightarrow> ('a Directory_scheme \<Rightarrow> nat) \<Rightarrow>
    (nat \<Rightarrow> 'a Directory_scheme \<Rightarrow> nat \<times> 'a Directory_scheme) \<Rightarrow> bool" where
  "reclaims P size_of f \<longleftrightarrow> (\<forall>w s n s'. P s \<longrightarrow> f w s = (n, s') \<longrightarrow> P s' \<and> (0 < n \<longrightarrow> size_of s' < size_of s))
     \<and> (\<forall>s s'. directory_evict_one s = (True, s') \<longrightarrow> size_of s' < size_of s)"

lemma reserve_chunk_ok:
  assumes y: "dframed y" and J: "J = holds lim G (dir_extent D img y)" and r: "reclaims (J L R h) size_of reclaim"
  shows "triple (J L R h) (reserve_chunk reclaim n) (\<lambda>c s. c = n \<and> J L R (h + n) s) (\<lambda>e s. store_error src e \<and> J L R h s)"
proof (rule tripleI)
  fix s
  assume "J L R h s"
  then show "\<exists>r s'. reserve_chunk reclaim n s = Some (r, s')
      \<and> (case r of Inl e \<Rightarrow> store_error src e \<and> J L R h s' | Inr c \<Rightarrow> c = n \<and> J L R (h + n) s')"
  proof (induction "size_of s" arbitrary: s rule: less_induct)
    case less
    note s = less.prems
    note res = holds_reserve [OF dir_extent_framed [OF y] s [unfolded J], of n, folded J]
    note unroll = reserve_chunk.simps [of reclaim n s]
    show ?case
    proof (cases "mem_reserve n (mc_mem s)")
      case (Inr x)
      then show ?thesis using res(1) by (cases x) (auto simp: unroll)
    next
      case (Inl e)
      obtain b s1 where e1: "directory_evict_one s = (b, s1)" by fastforce
      note ev = directory_evict_ok [OF y s [unfolded J] e1, folded J]
      show ?thesis
      proof (cases b)
        case True
        then have "size_of s1 < size_of s" using r e1 by (auto simp: reclaims_def)
        from less.hyps [OF this ev(1)] show ?thesis using Inl e1 True by (simp add: unroll)
      next
        case False
        obtain k s2 where k: "reclaim n s1 = (k, s2)" by fastforce
        have s1: "s1 = s" using ev(5) False by simp
        have s2: "J L R h s2" "0 < k \<longrightarrow> size_of s2 < size_of s" using r k s unfolding reclaims_def s1 by blast+
        show ?thesis
        proof (cases "k = 0")
          case True
          then show ?thesis using Inl e1 False k s2(1) res(2) [OF Inl] by (simp add: unroll store_error_def)
        next
          case nz: False
          then have "size_of s2 < size_of s" using s2(2) by simp
          from less.hyps [OF this s2(1)] show ?thesis using Inl e1 False k nz by (simp add: unroll)
        qed
      qed
    qed
  qed
qed

lemma op_paid_ok:
  assumes x: "framed x" and m: "triple (holds lim G x L R (h + c)) m Q (\<lambda>e s. K e \<and> holds lim G x L R (h + c) s)"
  shows "triple (holds lim G x L R (h + c)) (op_paid c m) Q (\<lambda>e s. K e \<and> holds lim G x L R h s)"
proof (rule tripleI)
  fix s
  assume "holds lim G x L R (h + c) s"
  with m show "\<exists>r s'. op_paid c m s = Some (r, s') \<and> (case r of Inl e \<Rightarrow> K e \<and> holds lim G x L R h s' | Inr v \<Rightarrow> Q v s')"
    by (cases rule: tripleE) (auto simp: op_paid_def intro: holds_release [OF x])
qed

lemma source_read_ok:
  assumes src: "page_source src img" and y: "dframed y" and J: "J = holds lim G (dir_extent D img' y)"
  shows "triple (J L R h) (source_read src len offset) (\<lambda>bs s. bs = slice img offset len \<and> length bs = len \<and> J L R h s)
    (\<lambda>e s. err_kind e \<in> {Io, CorruptData} \<and> (can_fail src \<or> length img < offset + len \<or> usize_max < offset + len) \<and> J L R h s)"
proof (rule tripleI)
  fix s
  assume s: "J L R h s"
  obtain r t where r: "read_exact_at src len offset (io_clock s) = Some (r, t)" "exact_post (can_fail src) img offset len r"
    using page_source.read_exact_at_total [OF src] by blast
  have "J L R h (s\<lparr>io_clock := t\<rparr>)" using s by (simp add: J holds_fields [OF y])
  then show "\<exists>r s'. source_read src len offset s = Some (r, s') \<and> (case r of
      Inl e \<Rightarrow> err_kind e \<in> {Io, CorruptData} \<and> (can_fail src \<or> length img < offset + len \<or> usize_max < offset + len) \<and> J L R h s'
    | Inr bs \<Rightarrow> bs = slice img offset len \<and> length bs = len \<and> J L R h s')"
    using r by (auto simp: source_read_def exact_post_def split: sum.splits)
qed


lemma chunk_range:
  assumes f: "dir_fits D img" and p: "p < dc_count D"
  defines "first \<equiv> p div dc_entries_per_chunk D * dc_entries_per_chunk D"
  defines "len \<equiv> min (dc_count D - first) (dc_entries_per_chunk D) * DIRECTORY_SLOT_LEN"
  shows "checked_mul (p div dc_entries_per_chunk D) (dc_entries_per_chunk D) = Some first"
    "checked_mul (min (dc_count D - first) (dc_entries_per_chunk D)) DIRECTORY_SLOT_LEN = Some len"
    "checked_add (dc_base D) ((first * DIRECTORY_SLOT_LEN) mod 2 ^ 64) = Some (dc_base D + first * DIRECTORY_SLOT_LEN)"
    "dc_base D + first * DIRECTORY_SLOT_LEN + len \<le> length img" "dc_base D + first * DIRECTORY_SLOT_LEN + len \<le> usize_max"
proof -
  have S: "DIRECTORY_SLOT_LEN = 8" by (simp add: DIRECTORY_SLOT_LEN_def)
  have fp: "first \<le> p" by (simp add: first_def)
  have b: "dc_base D + dc_count D * 8 \<le> length img" "dc_base D + dc_count D * 8 \<le> usize_max" using f by (simp_all add: dir_fits_def S)
  define k where "k = min (dc_count D - first) (dc_entries_per_chunk D)"
  have k: "first + k \<le> dc_count D" using fp p unfolding k_def by linarith
  have u: "first \<le> usize_max" "k * 8 \<le> usize_max" "first * 8 \<le> usize_max" using k b by linarith+
  have len: "len = k * 8" by (simp add: len_def k_def S)
  show "checked_mul (p div dc_entries_per_chunk D) (dc_entries_per_chunk D) = Some first"
    using u(1) by (simp add: checked_mul_def first_def)
  show "checked_mul (min (dc_count D - first) (dc_entries_per_chunk D)) DIRECTORY_SLOT_LEN = Some len"
    using u(2) unfolding k_def [symmetric] by (simp add: checked_mul_def len S)
  have "first * 8 < 2 ^ 64" using u(3) by (simp add: usize_max_def)
  then have "(first * 8) mod 2 ^ 64 = first * 8" by (rule mod_less)
  then show "checked_add (dc_base D) ((first * DIRECTORY_SLOT_LEN) mod 2 ^ 64) = Some (dc_base D + first * DIRECTORY_SLOT_LEN)"
    using k b unfolding S by (simp add: checked_add_def)
  show "dc_base D + first * DIRECTORY_SLOT_LEN + len \<le> length img" "dc_base D + first * DIRECTORY_SLOT_LEN + len \<le> usize_max"
    using k b unfolding S len by linarith+
qed

lemma next_tick_holds:
  assumes "dframed y" "holds lim G (dir_extent D img y) L R h s" "next_tick s = (t, s')"
  shows "holds lim G (dir_extent D img y) L R h s'" "pd_chunks s' = pd_chunks s"
  using assms holds_fields [OF assms(1)] by (auto simp: next_tick_def)

lemma read_chunk_ok:
  assumes src: "page_source (dc_source D) img" and y: "dframed y" and J: "J = holds lim G (dir_extent D img y)"
    and r: "reclaims (J L R h) size_of reclaim" and f: "dir_fits D img" and p: "p < dc_count D"
  shows "triple (J L R h) (read_chunk D (p div dc_entries_per_chunk D) reclaim)
    (\<lambda>c s. chunk_ok D img c \<and> ch_index c = p div dc_entries_per_chunk D \<and> J L R (h + ch_charge c) s)
    (\<lambda>e s. store_error (dc_source D) e \<and> J L R h s)"
proof -
  let ?n = "dc_entries_per_chunk D"
  let ?first = "p div ?n * ?n"
  let ?len = "min (dc_count D - ?first) ?n * DIRECTORY_SLOT_LEN" and ?off = "dc_base D + ?first * DIRECTORY_SLOT_LEN"
  note a = chunk_range [OF f p]
  let ?K = "\<lambda>e s. store_error (dc_source D) e \<and> J L R h s" and ?w = "?len + BUFFER_OVERHEAD"
  have rd: "triple (J L R (h + ?w)) (op_paid ?w (source_read (dc_source D) ?len ?off)) (\<lambda>bs s. bs = slice img ?off ?len \<and> J L R (h + ?w) s) ?K"
    unfolding J
  proof (rule op_paid_ok [OF dir_extent_framed [OF y]], rule triple_weaken [OF source_read_ok [OF src y refl]])
    show "store_error (dc_source D) e \<and> holds lim G (dir_extent D img y) L R (h + ?w) s"
      if "err_kind e \<in> {Io, CorruptData} \<and> (can_fail (dc_source D) \<or> length img < ?off + ?len \<or> usize_max < ?off + ?len)
        \<and> holds lim G (dir_extent D img y) L R (h + ?w) s" for e s
      using that a(4,5) by (auto simp: store_error_def)
  qed auto
  have rc: "triple (J L R h) (reserve_chunk reclaim ?w) (\<lambda>c s. c = ?w \<and> J L R (h + ?w) s) ?K"
    by (rule reserve_chunk_ok [OF y J r])
  have fin: "triple (\<lambda>s. data = slice img ?off ?len \<and> J L R (h + ?w) s)
      (\<lambda>s. case next_tick s of (tick, s1) \<Rightarrow>
        Some (Ok \<lparr>ch_index = p div ?n, ch_data = data, ch_last_used = tick, ch_charge = ?w\<rparr>, s1))
      (\<lambda>c s. chunk_ok D img c \<and> ch_index c = p div ?n \<and> J L R (h + ch_charge c) s) ?K" for data
    by (rule tripleI) (auto simp: J chunk_ok_def split: prod.split dest: next_tick_holds(1) [OF y])
  show ?thesis unfolding read_chunk_def
  proof (simp only: a(1-3) ok_or_simps Let_def op_simps, rule triple_bind [OF rc], goal_cases)
    case (1 c)
    show ?case
    proof (rule triple_assume [of _ "c = ?w"])
      assume c: "c = ?w"
      show "triple (\<lambda>s. c = ?w \<and> J L R (h + ?w) s) (op_bind (op_paid c (source_read (dc_source D) ?len ?off))
          (\<lambda>data s. case next_tick s of (tick, s1) \<Rightarrow>
            Some (Ok \<lparr>ch_index = p div ?n, ch_data = data, ch_last_used = tick, ch_charge = c\<rparr>, s1)))
        (\<lambda>c s. chunk_ok D img c \<and> ch_index c = p div ?n \<and> J L R (h + ch_charge c) s) ?K"
        unfolding c by (rule triple_weaken [OF triple_bind [OF rd fin]]) auto
    qed auto
  qed
qed

lemma directory_insert_ok:
  assumes y: "dframed y" and J: "J = holds lim G (dir_extent D img y)" and s: "J L R (h + ch_charge c) s" and c: "chunk_ok D img c"
  shows "J L R h (directory_insert D c s)"
proof (cases "\<exists>c' \<in> set (pd_chunks s). ch_index c' = ch_index c")
  case True
  then show ?thesis using holds_release [OF dir_extent_framed [OF y] s [unfolded J]] by (simp add: directory_insert_def J)
next
  case False
  let ?s = "if length (pd_chunks s) \<ge> dc_max_chunks D then (case least_used (pd_chunks s) of None \<Rightarrow> s | Some i \<Rightarrow> drop_chunk i s) else s"
  have "J L R (h + ch_charge c) ?s" using s drop_chunk_ok [OF y s [unfolded J]] least_used_less by (auto simp: J split: option.split)
  then have "holds lim G (dir_extent D img y) L R (h + ch_charge c) t" if "t = ?s" for t using that by (simp only: J)
  moreover have "\<And>c'. c' \<in> set (pd_chunks t @ [c]) \<Longrightarrow> chunk_ok D img c'" if "t = ?s" for t
    using calculation [OF that] c by (auto simp: holds_def dir_extent_def)
  ultimately have "holds lim G (dir_extent D img y) L R h (t\<lparr>pd_chunks := pd_chunks t @ [c]\<rparr>)" if "t = ?s" for t
    using that by (intro holds_chunks [OF y, of lim G D img L R "h + ch_charge c"]) auto
  from this [OF refl] show ?thesis using False by (simp add: directory_insert_def Let_def J)
qed

lemma directory_lookup_ok:
  assumes y: "dframed y" and J: "J = holds lim G (dir_extent D img y)" and f: "dir_fits D img" and p: "p < dc_count D"
  shows "triple (J L R h) (directory_lookup (p div dc_entries_per_chunk D) ((p mod dc_entries_per_chunk D) * DIRECTORY_SLOT_LEN))
    (\<lambda>r s. (\<forall>raw. r = Some raw \<longrightarrow> read_i64 img (dc_base D + p * DIRECTORY_SLOT_LEN) = Ok raw) \<and> J L R h s)
    (\<lambda>e s. read_i64 img (dc_base D + p * DIRECTORY_SLOT_LEN) = Err e \<and> J L R h s)"
proof (rule tripleI)
  fix s
  assume s: "J L R h s"
  let ?q = "p div dc_entries_per_chunk D" and ?i = "(p mod dc_entries_per_chunk D) * DIRECTORY_SLOT_LEN"
  let ?raw = "read_i64 img (dc_base D + p * DIRECTORY_SLOT_LEN)"
  obtain t s1 where t: "next_tick s = (t, s1)" by fastforce
  have s1: "J L R h s1" unfolding J by (rule next_tick_holds(1) [OF y s [unfolded J] t])
  let ?find = "find (\<lambda>i. ch_index (pd_chunks s1 ! i) = ?q) [0..<length (pd_chunks s1)]"
  show "\<exists>r s'. directory_lookup ?q ?i s = Some (r, s') \<and> (case r of Inl e \<Rightarrow> ?raw = Err e \<and> J L R h s'
      | Inr r \<Rightarrow> (\<forall>raw. r = Some raw \<longrightarrow> ?raw = Ok raw) \<and> J L R h s')"
  proof (cases ?find)
    case None
    then show ?thesis using t s1 by (simp add: directory_lookup_def)
  next
    case (Some j)
    then have j: "j < length (pd_chunks s1)" "ch_index (pd_chunks s1 ! j) = ?q" by (auto simp: find_Some_iff)
    let ?c = "pd_chunks s1 ! j"
    let ?ch = "(pd_chunks s1)[j := ?c\<lparr>ch_last_used := t\<rparr>]"
    have ok: "\<And>c. c \<in> set (pd_chunks s1) \<Longrightarrow> chunk_ok D img c" using s1 by (simp add: J holds_def dir_extent_def)
    have "chunk_ok D img ?c" using ok j(1) by simp
    then have raw: "read_i64 (ch_data ?c) ?i = ?raw" by (rule chunk_slot [OF _ j(2) f p])
    have "sum_list (map ch_charge ?ch) = sum_list (map ch_charge (pd_chunks s1))"
      using j(1) by (simp add: map_update) (metis list_update_id nth_map)
    moreover have "\<And>c. c \<in> set ?ch \<Longrightarrow> chunk_ok D img c"
      using ok \<open>chunk_ok D img ?c\<close> by (auto simp: chunk_ok_def dest!: set_update_subset_insert [THEN subsetD])
    ultimately have "J L R h (s1\<lparr>pd_chunks := ?ch\<rparr>)" unfolding J by (intro holds_chunks [OF y s1 [unfolded J]]) simp_all
    then show ?thesis using t Some raw by (cases ?raw) (auto simp: directory_lookup_def Let_def)
  qed
qed

lemma directory_offset_ok:
  assumes src: "page_source (dc_source D) img" and y: "dframed y" and J: "J = holds lim G (dir_extent D img y)"
    and r: "\<And>L R h. reclaims (J L R h) size_of reclaim" and f: "dir_fits D img"
  shows "triple (J L R h) (directory_offset_of D p reclaim) (\<lambda>o' s. dir_offset D img p = Ok o' \<and> J L R h s)
    (\<lambda>e s. (store_error (dc_source D) e \<or> dir_offset D img p = Err e) \<and> J L R h s)"
proof (cases "p < dc_count D")
  case False
  then show ?thesis by (auto simp: directory_offset_of_def dir_offset_def intro: triple_fail)
next
  case True
  let ?q = "p div dc_entries_per_chunk D" and ?i = "(p mod dc_entries_per_chunk D) * DIRECTORY_SLOT_LEN"
  let ?raw = "read_i64 img (dc_base D + p * DIRECTORY_SLOT_LEN)" and ?K = "\<lambda>e. store_error (dc_source D) e \<or> dir_offset D img p = Err e"
  have d: "dir_offset D img p = and_then ?raw (\<lambda>raw. validate_offset D raw p)" using True by (simp add: dir_offset_def)
  have val: "triple (J L R h) (op_lift (validate_offset D raw p)) (\<lambda>o' s. dir_offset D img p = Ok o' \<and> J L R h s) (\<lambda>e s. ?K e \<and> J L R h s)"
    if "?raw = Ok raw" for raw
    using that by (intro triple_lift) (simp_all add: d)
  have miss: "triple (\<lambda>s. chunk_ok D img c \<and> ch_index c = ?q \<and> J L R (h + ch_charge c) s)
      (op_bind (op_paid (ch_charge c) (op_lift (read_i64 (ch_data c) ?i))) (\<lambda>raw s. op_lift (validate_offset D raw p) (directory_insert D c s)))
      (\<lambda>o' s. dir_offset D img p = Ok o' \<and> J L R h s) (\<lambda>e s. ?K e \<and> J L R h s)" for c
  proof (rule triple_assume [of _ "chunk_ok D img c \<and> ch_index c = ?q"])
    assume c: "chunk_ok D img c \<and> ch_index c = ?q"
    have raw: "read_i64 (ch_data c) ?i = ?raw" using c by (intro chunk_slot [OF _ _ f True]) auto
    have paid: "triple (J L R (h + ch_charge c)) (op_paid (ch_charge c) (op_lift ?raw)) (\<lambda>raw s. ?raw = Ok raw \<and> J L R (h + ch_charge c) s) (\<lambda>e s. ?K e \<and> J L R h s)"
      unfolding J by (rule op_paid_ok [OF dir_extent_framed [OF y]], rule triple_lift) (auto simp: d)
    have fin: "triple (\<lambda>s. ?raw = Ok raw \<and> J L R (h + ch_charge c) s) (\<lambda>s. op_lift (validate_offset D raw p) (directory_insert D c s))
        (\<lambda>o' s. dir_offset D img p = Ok o' \<and> J L R h s) (\<lambda>e s. ?K e \<and> J L R h s)" for raw
      using val [of raw] directory_insert_ok [OF y J] c by (simp add: triple_def)
    show "triple (\<lambda>s. chunk_ok D img c \<and> ch_index c = ?q \<and> J L R (h + ch_charge c) s)
      (op_bind (op_paid (ch_charge c) (op_lift (read_i64 (ch_data c) ?i))) (\<lambda>raw s. op_lift (validate_offset D raw p) (directory_insert D c s)))
      (\<lambda>o' s. dir_offset D img p = Ok o' \<and> J L R h s) (\<lambda>e s. ?K e \<and> J L R h s)"
      unfolding raw by (rule triple_weaken [OF triple_bind [OF paid fin]]) auto
  qed auto
  have rest: "triple (\<lambda>s. (\<forall>raw. found = Some raw \<longrightarrow> ?raw = Ok raw) \<and> J L R h s)
      (case found of
           Some raw \<Rightarrow> op_lift (validate_offset D raw p)
         | None \<Rightarrow>
             op_bind (read_chunk D ?q reclaim) (\<lambda>chunk.
             op_bind (op_paid (ch_charge chunk) (op_lift (read_i64 (ch_data chunk) ?i))) (\<lambda>raw s.
             op_lift (validate_offset D raw p) (directory_insert D chunk s))))
      (\<lambda>o' s. dir_offset D img p = Ok o' \<and> J L R h s) (\<lambda>e s. ?K e \<and> J L R h s)" for found
  proof (cases found)
    case None
    have "triple (J L R h) (read_chunk D ?q reclaim) (\<lambda>c s. chunk_ok D img c \<and> ch_index c = ?q \<and> J L R (h + ch_charge c) s) (\<lambda>e s. ?K e \<and> J L R h s)"
      by (rule triple_weaken [OF read_chunk_ok [OF src y J r f True]]) auto
    from triple_bind [OF this miss] None show ?thesis by (auto intro: triple_weaken)
  next
    case (Some raw)
    then show ?thesis using val [of raw] by (simp add: triple_def)
  qed
  have "triple (J L R h) (directory_lookup ?q ?i) (\<lambda>r s. (\<forall>raw. r = Some raw \<longrightarrow> ?raw = Ok raw) \<and> J L R h s) (\<lambda>e s. ?K e \<and> J L R h s)"
    by (rule triple_weaken [OF directory_lookup_ok [OF y J f True]]) (auto simp: d)
  from triple_bind [OF this rest] show ?thesis using True by (simp add: directory_offset_of_def Let_def)
qed

end
