(* ===== verification/Store.thy ===== *)
theory Store
  imports Directory Page_Sink
begin

text \<open>
  The page store (\<^verbatim>\<open>crates/drydb/src/store.rs\<close>): page ordinal to bytes, through the cache, the
  directory, one budget, the source and the page filter, and the roots kept for trees.

  The store is used by one caller at a time.  What callers do with the pins they are given is
  part of the state: \<open>outside\<close> are the references they hold, and \<open>sc_keeps\<close> decides, before every
  operation, which of them are still held; the theorems hold for every such schedule.  A
  filter's decoder is a function of its input and the room it is given.
\<close>

subsection \<open>The store\<close>

definition PAGE_LENGTH_LEN :: nat where "PAGE_LENGTH_LEN = 4"
definition EVICT_ROUNDS :: nat where "EVICT_ROUNDS = 16"
definition RETAIN_HEADROOM_PAGES :: nat where "RETAIN_HEADROOM_PAGES = 8"

record StoreConfig =
  sc_dir :: DirectoryConfig
  sc_filter :: "PageFilter option"
  sc_max_stored_page_bytes :: nat
  sc_max_decoded_page_bytes :: nat
  sc_max_tree_depth :: nat
  sc_directory_base :: nat
  sc_alloc :: Alloc
  sc_vec_capacity :: "nat \<Rightarrow> nat"
  sc_keeps :: "nat \<Rightarrow> nat \<Rightarrow> bool"

record Store = Directory +
  rr_roots :: "(nat \<times> PagePin) list"
  rr_slots :: nat
  rr_book :: bookkeeping
  rr_capacity :: nat
  outside :: "PagePin list"
  store_turn :: nat

subsection \<open>Retained roots\<close>

definition roots_footprint :: "StoreConfig \<Rightarrow> Store \<Rightarrow> nat" where
  "roots_footprint C s = hash_table_bytes (rr_slots s) (root_entry_bytes (sc_alloc C))"

definition roots_settle :: "nat \<Rightarrow> Store \<Rightarrow> Store result" where
  "roots_settle want s =
     and_then (bookkeeping_settle (rr_book s) want (mem_budget (mc_mem s))) (\<lambda>(k, b).
     Ok (s\<lparr>rr_book := k, mc_mem := (mc_mem s)\<lparr>mem_budget := b\<rparr>\<rparr>))"

definition or_unsettled :: "Store result \<Rightarrow> Store \<Rightarrow> Store" where
  "or_unsettled r s = (case r of Inr s' \<Rightarrow> s' | Inl _ \<Rightarrow> s)"

definition drop_pin :: "PagePin \<Rightarrow> Store \<Rightarrow> Store" where
  "drop_pin pin s = s\<lparr>mc_mem := pin_drop pin (mc_mem s)\<rparr>"

definition clone_pin :: "PagePin \<Rightarrow> Store \<Rightarrow> Store" where
  "clone_pin pin s = s\<lparr>mc_mem := pin_clone pin (mc_mem s)\<rparr>"

definition drop_entry :: "PagePin option \<Rightarrow> Store \<Rightarrow> Store" where
  "drop_entry entry s = (case entry of None \<Rightarrow> s | Some pin \<Rightarrow> drop_pin pin s)"

definition retained_root :: "nat \<Rightarrow> Store \<Rightarrow> PagePin option \<times> Store" where
  "retained_root tree s =
     (case map_of (rr_roots s) tree of None \<Rightarrow> (None, s) | Some pin \<Rightarrow> (Some pin, clone_pin pin s))"

definition retain_root :: "StoreConfig \<Rightarrow> nat \<Rightarrow> PagePin \<Rightarrow> Store \<Rightarrow> Store" where
  "retain_root C tree pin s =
     (let A = sc_alloc C;
          want = hash_table_peak_bytes (rr_slots s) (rr_capacity s) (length (rr_roots s)) (root_entry_bytes A) in
      case roots_settle want s of
        Inl _ \<Rightarrow> drop_pin pin s
      | Inr s1 \<Rightarrow>
          (let roots = map_insert tree pin (rr_roots s1);
               capacity = map_cap_insert A (rr_capacity s1) (length roots);
               s2 = drop_entry (map_of (rr_roots s1) tree)
                 (s1\<lparr>rr_roots := roots, rr_capacity := capacity, rr_slots := max (rr_slots s1) capacity\<rparr>) in
           or_unsettled (roots_settle (roots_footprint C s2) s2) s2))"

definition release_root :: "StoreConfig \<Rightarrow> nat \<Rightarrow> Store \<Rightarrow> Store" where
  "release_root C tree s =
     (let A = sc_alloc C; entry = map_of (rr_roots s) tree; roots = map_remove tree (rr_roots s);
          s1 = s\<lparr>rr_roots := roots, rr_capacity := map_cap_remove A (rr_capacity s) (length roots)\<rparr>;
          s2 = (if rr_slots s1 > 2 * length roots then
                  (case roots_settle (roots_footprint C s1 + hash_table_bytes (length roots) (root_entry_bytes A)) s1 of
                     Inl _ \<Rightarrow> s1
                   | Inr t \<Rightarrow>
                       (let capacity = map_cap_shrink A (rr_capacity t) (length roots) in
                        t\<lparr>rr_capacity := capacity, rr_slots := (if capacity \<noteq> rr_capacity t then capacity else rr_slots t)\<rparr>))
                else s1) in
      drop_entry entry (or_unsettled (roots_settle (roots_footprint C s2) s2) s2))"

definition release_roots :: "Store \<Rightarrow> nat \<times> Store" where
  "release_roots s =
     (let pins = map snd (rr_roots s); m = fold pin_drop pins (mc_mem s) in
      (sum_list (map pin_len pins),
       s\<lparr>rr_roots := [], rr_slots := 0, rr_book := None, rr_capacity := 0,
         mc_mem := (case rr_book s of None \<Rightarrow> m | Some c \<Rightarrow> mem_release c m)\<rparr>))"

subsection \<open>Reclaiming and reserving\<close>

definition reclaim_pages :: "StoreConfig \<Rightarrow> nat \<Rightarrow> Store \<Rightarrow> nat \<times> Store" where
  "reclaim_pages C bytes s =
     (case evict_bytes (sc_alloc C) bytes s of (freed, s1) \<Rightarrow> if freed > 0 then (freed, s1) else release_roots s1)"

definition has_headroom_for :: "nat \<Rightarrow> Store \<Rightarrow> bool" where
  "has_headroom_for bytes s \<longleftrightarrow>
     saturating_sub (limit (mem_budget (mc_mem s))) (used (mem_budget (mc_mem s))) \<ge> saturating_mul bytes RETAIN_HEADROOM_PAGES"

fun reserve_rounds :: "StoreConfig \<Rightarrow> nat \<Rightarrow> nat \<Rightarrow> Error option \<Rightarrow> Store \<Rightarrow> charge result \<times> Store" where
  "reserve_rounds C bytes 0 lst s = (Err (case lst of None \<Rightarrow> corrupt | Some e \<Rightarrow> e), s)"
| "reserve_rounds C bytes (Suc rounds) lst s =
     (case evict_bytes (sc_alloc C) bytes s of (freed, s1) \<Rightarrow>
      case (if freed = 0 then directory_evict_one s1 else (False, s1)) of (dropped_chunk, s2) \<Rightarrow>
      case (if freed = 0 \<and> \<not> dropped_chunk then release_roots s2 else (0, s2)) of (released, s3) \<Rightarrow>
      case mem_reserve bytes (mc_mem s3) of
        Inr (c, m) \<Rightarrow> (Ok c, s3\<lparr>mc_mem := m\<rparr>)
      | Inl e \<Rightarrow>
          (if freed = 0 \<and> \<not> dropped_chunk \<and> released = 0 then (Err e, s3)
           else reserve_rounds C bytes rounds (Some e) s3))"

definition store_reserve :: "StoreConfig \<Rightarrow> nat \<Rightarrow> (Store, charge) op" where
  "store_reserve C bytes s =
     (case mem_reserve bytes (mc_mem s) of
        Inr (c, m) \<Rightarrow> Some (Ok c, s\<lparr>mc_mem := m\<rparr>)
      | Inl e \<Rightarrow>
          (if \<not> is_retryable e then Some (Err e, s)
           else
             Some (reserve_rounds C bytes
               (saturating_add (saturating_add (cache_len (mc_cache s)) (chunks_held s)) EVICT_ROUNDS) None s)))"

subsection \<open>Loading a page\<close>

definition store_offset_of :: "StoreConfig \<Rightarrow> page_ordinal \<Rightarrow> (Store, file_offset) op" where
  "store_offset_of C ordinal = directory_offset_of (sc_dir C) ordinal (reclaim_pages C)"

definition page_limit :: "StoreConfig \<Rightarrow> page_ordinal \<Rightarrow> nat \<Rightarrow> (Store, nat) op" where
  "page_limit C ordinal offset =
     (let next_ordinal = saturating_add ordinal 1 in
      if next_ordinal \<ge> dc_count (sc_dir C) then op_return (sc_directory_base C)
      else op_bind (store_offset_of C next_ordinal) (\<lambda>next_offset.
        op_return (if next_offset > offset then min next_offset (sc_directory_base C) else sc_directory_base C)))"

text \<open>A charge held during an operation and given back after it.\<close>

definition op_held :: "charge \<Rightarrow> ('a Machine_scheme, 'b) op \<Rightarrow> ('a Machine_scheme, 'b) op" where
  "op_held c m s = (case m s of None \<Rightarrow> None | Some (r, s') \<Rightarrow> Some (r, s'\<lparr>mc_mem := mem_release c (mc_mem s')\<rparr>))"

definition page_room :: "StoreConfig \<Rightarrow> PageFilter \<Rightarrow> bytes \<Rightarrow> nat result" where
  "page_room C f encoded =
     (case decoded_size_hint f encoded of
        Some n \<Rightarrow> if n \<le> sc_max_decoded_page_bytes C then Ok n else Err corrupt
      | None \<Rightarrow> Ok (sc_max_decoded_page_bytes C))"

definition decoded_payload :: "StoreConfig \<Rightarrow> nat \<Rightarrow> (bytes \<times> nat) \<Rightarrow> bytes result" where
  "decoded_payload C reserved = (\<lambda>(payload, capacity).
     if capacity > reserved then Err corrupt
     else if length payload > sc_max_decoded_page_bytes C then Err corrupt
     else Ok payload)"

definition decoded_page :: "bytes \<Rightarrow> bytes \<Rightarrow> nat \<Rightarrow> bytes" where
  "decoded_page stored payload n = i32_to_le (as_i32 n) @ drop 4 (take PAGE_PREFIX_LEN stored) @ payload"

definition decode_within :: "StoreConfig \<Rightarrow> PageFilter \<Rightarrow> bytes \<Rightarrow> nat \<Rightarrow> (Store, charge \<times> bytes) op" where
  "decode_within C f stored capacity =
     (let encoded = drop PAGE_PREFIX_LEN stored; reserved = sc_vec_capacity C capacity in
      op_bind (store_reserve C (probe_bytes f)) (\<lambda>probe.
      op_bind (op_held probe (op_return (working_set_bytes f))) (\<lambda>working.
      op_bind (store_reserve C working) (\<lambda>working_charge.
      op_bind (op_held working_charge (op_lift (filter_decode f reserved encoded))) (\<lambda>decoded.
      op_bind (op_lift (decoded_payload C reserved decoded)) (\<lambda>payload.
      op_bind (op_lift (ok_or (checked_add PAGE_PREFIX_LEN (length payload)) corrupt)) (\<lambda>total_len.
      op_bind (store_reserve C (total_len + BUFFER_OVERHEAD)) (\<lambda>exact_charge.
      op_return (exact_charge, decoded_page stored payload total_len)))))))))"

definition decode_page :: "StoreConfig \<Rightarrow> PageFilter \<Rightarrow> bytes \<Rightarrow> charge \<Rightarrow> (Store, charge \<times> bytes) op" where
  "decode_page C f stored stored_charge =
     op_held stored_charge
       (op_bind (op_lift (page_room C f (drop PAGE_PREFIX_LEN stored))) (\<lambda>capacity.
        op_bind (store_reserve C (capacity + BUFFER_OVERHEAD)) (\<lambda>scratch_charge.
        op_held scratch_charge (decode_within C f stored capacity))))"

definition checked_stored_len :: "StoreConfig \<Rightarrow> bytes \<Rightarrow> nat result" where
  "checked_stored_len C length_bytes =
     and_then (and_then (read_i32 length_bytes 0) checked_len) (\<lambda>stored_len.
     if stored_len < PAGE_PREFIX_LEN then Err corrupt
     else if stored_len > sc_max_stored_page_bytes C then Err corrupt
     else Ok stored_len)"

definition parse_page :: "page_ordinal \<Rightarrow> bytes \<Rightarrow> unit result" where
  "parse_page ordinal data =
     and_then (map_err (at_page ordinal) (page_parse data)) (\<lambda>v. map_err (at_page ordinal) (page_validate v))"

definition new_page :: "page_ordinal \<Rightarrow> charge \<Rightarrow> bytes \<Rightarrow> (Store, PagePin \<times> nat) op" where
  "new_page ordinal c data =
     op_bind (op_paid c (op_lift (parse_page ordinal data))) (\<lambda>_ s.
     case buffer_new ordinal data c (mc_mem s) of (pin, m) \<Rightarrow> Some (Ok (pin, c), s\<lparr>mc_mem := m\<rparr>))"

definition load_stored :: "StoreConfig \<Rightarrow> page_ordinal \<Rightarrow> file_offset \<Rightarrow> nat \<Rightarrow> (Store, PagePin \<times> nat) op" where
  "load_stored C ordinal offset stored_len =
     op_bind (store_reserve C (stored_len + BUFFER_OVERHEAD)) (\<lambda>stored_charge.
     op_bind (op_paid stored_charge (source_read (dc_source (sc_dir C)) stored_len offset)) (\<lambda>stored.
     op_bind (case sc_filter C of
                None \<Rightarrow> op_return (stored_charge, stored)
              | Some f \<Rightarrow> decode_page C f stored stored_charge) (\<lambda>(c, data).
     new_page ordinal c data)))"

definition load :: "StoreConfig \<Rightarrow> page_ordinal \<Rightarrow> (Store, PagePin \<times> nat) op" where
  "load C ordinal =
     op_bind (store_offset_of C ordinal) (\<lambda>offset.
     op_bind (source_read (dc_source (sc_dir C)) PAGE_LENGTH_LEN offset) (\<lambda>length_bytes.
     op_bind (op_lift (checked_stored_len C length_bytes)) (\<lambda>stored_len.
     op_bind (op_lift (ok_or (checked_add offset stored_len) corrupt)) (\<lambda>stop.
     op_bind (page_limit C ordinal offset) (\<lambda>bound.
     if stop > bound then op_fail corrupt else load_stored C ordinal offset stored_len)))))"

definition annotate :: "page_ordinal \<Rightarrow> Error \<Rightarrow> Error" where
  "annotate ordinal e = (if loc_page (err_location e) \<noteq> None then e else at_page ordinal e)"

definition store_page :: "StoreConfig \<Rightarrow> page_ordinal \<Rightarrow> (Store, PagePin) op" where
  "store_page C ordinal = op_map_err (annotate ordinal) (get_or_load (sc_alloc C) ordinal (store_reserve C) (load C ordinal))"

definition store_blob :: "StoreConfig \<Rightarrow> page_ordinal \<Rightarrow> (Store, PagePin \<times> nat \<times> nat) op" where
  "store_blob C ordinal = op_bind (store_page C ordinal) (\<lambda>pin. op_lift (blob_from_pin pin))"

subsection \<open>What callers see\<close>

text \<open>Before an operation, callers may have dropped any of the pins they held.\<close>

definition callers_drop :: "StoreConfig \<Rightarrow> Store \<Rightarrow> Store" where
  "callers_drop C s =
     (let n = store_turn s; ps = zip [0..<length (outside s)] (outside s) in
      s\<lparr>outside := map snd (filter (\<lambda>(i, pin). sc_keeps C n i) ps), store_turn := n + 1,
        mc_mem := fold pin_drop (map snd (filter (\<lambda>(i, pin). \<not> sc_keeps C n i) ps)) (mc_mem s)\<rparr>)"

definition hand_out :: "PagePin option \<times> Store \<Rightarrow> PagePin option \<times> Store" where
  "hand_out = (\<lambda>(r, s). (r, case r of None \<Rightarrow> s | Some pin \<Rightarrow> s\<lparr>outside := pin # outside s\<rparr>))"

text \<open>The operations of \<open>StoreOps\<close>.  A caller can only pass on a reference it holds: the pin that is
  cloned for \<open>retain_root\<close> is one of those outside.\<close>

definition store_ops :: "StoreConfig \<Rightarrow> Store StoreOps" where
  "store_ops C =
     \<lparr>st_page = (\<lambda>p s. op_bind (store_page C p) (\<lambda>pin s. Some (Ok pin, s\<lparr>outside := pin # outside s\<rparr>)) (callers_drop C s)),
      st_page_cached = (\<lambda>p s. hand_out (cache_get p (callers_drop C s))),
      st_retained_root = (\<lambda>t s. hand_out (retained_root t (callers_drop C s))),
      st_retain_root = (\<lambda>t pin s. if pin \<in> set (outside s) then retain_root C t pin (clone_pin pin s) else s),
      st_has_headroom_for = has_headroom_for,
      st_digests_checked_by = (\<lambda>pin t s. digests_checked_by pin t (mc_mem s)),
      st_mark_digests_checked = (\<lambda>pin t s. s\<lparr>mc_mem := mark_digests_checked pin t (mc_mem s)\<rparr>),
      st_page_count = dc_count (sc_dir C),
      st_max_tree_depth = sc_max_tree_depth C\<rparr>"

end
