(* ===== verification/Store_Spec.thy ===== *)
theory Store_Spec
  imports Store
begin

text \<open>
  What the page store promises (\<^verbatim>\<open>crates/drydb/src/store.rs\<close>).  \<open>page_of\<close> is the specification: page \<open>p\<close>
  of a file, with no cache and no budget.  \<open>store_holds\<close> is the invariant: what is cached, retained
  or held by callers are pages of the file, directory chunks hold their part of the directory,
  and the budget has given out exactly what they are charged for.  Every operation keeps it;
  reserving gives up everything that can be given up before it refuses; loading returns the
  page of the file.  The store interprets the locale \<open>page_store\<close>, the contract of the trees.
\<close>

subsection \<open>What the file says about a page\<close>

text \<open>\<open>page_of C img p\<close> is page \<open>p\<close> of the file \<open>img\<close>, or why it cannot be read: no cache, no budget and
  no source that fails.\<close>

definition page_bound :: "StoreConfig \<Rightarrow> bytes \<Rightarrow> page_ordinal \<Rightarrow> nat \<Rightarrow> nat result" where
  "page_bound C img p offset =
     (if saturating_add p 1 \<ge> dc_count (sc_dir C) then Ok (sc_directory_base C)
      else and_then (dir_offset (sc_dir C) img (saturating_add p 1)) (\<lambda>n.
        Ok (if n > offset then min n (sc_directory_base C) else sc_directory_base C)))"

definition page_data :: "StoreConfig \<Rightarrow> bytes \<Rightarrow> bytes result" where
  "page_data C stored =
     (case sc_filter C of
        None \<Rightarrow> Ok stored
      | Some f \<Rightarrow>
          and_then (page_room C f (drop PAGE_PREFIX_LEN stored)) (\<lambda>capacity.
          and_then (filter_decode f (sc_vec_capacity C capacity) (drop PAGE_PREFIX_LEN stored)) (\<lambda>d.
          and_then (decoded_payload C (sc_vec_capacity C capacity) d) (\<lambda>payload.
          and_then (ok_or (checked_add PAGE_PREFIX_LEN (length payload)) corrupt) (\<lambda>n.
          Ok (decoded_page stored payload n))))))"

definition page_of :: "StoreConfig \<Rightarrow> bytes \<Rightarrow> page_ordinal \<Rightarrow> bytes result" where
  "page_of C img p =
     and_then (dir_offset (sc_dir C) img p) (\<lambda>offset.
     and_then (checked_stored_len C (slice img offset PAGE_LENGTH_LEN)) (\<lambda>len.
     and_then (ok_or (checked_add offset len) corrupt) (\<lambda>stop.
     and_then (page_bound C img p offset) (\<lambda>bound.
     if stop > bound then Err corrupt
     else
       and_then (page_data C (slice img offset len)) (\<lambda>data.
       and_then (parse_page p data) (\<lambda>_. Ok data))))))"

definition store_fits :: "StoreConfig \<Rightarrow> bytes \<Rightarrow> bool" where
  "store_fits C img \<longleftrightarrow> dir_fits (sc_dir C) img \<and> sc_directory_base C = dc_base (sc_dir C)"

subsection \<open>What the store keeps\<close>

definition genuine_page :: "StoreConfig \<Rightarrow> bytes \<Rightarrow> page_ordinal \<Rightarrow> PagePin \<Rightarrow> bool" where
  "genuine_page C img p pin \<longleftrightarrow> pin_ordinal pin = p \<and> page_of C img p = Ok (pin_bytes pin)"

definition pin_refs :: "PagePin list \<Rightarrow> nat multiset" where
  "pin_refs pins = mset (map pin_buffer pins)"

text \<open>References and bytes held outside the cache and the directory: the retained roots with their
  table, the callers, and \<open>fixed\<close> bytes reserved for as long as the store lives.\<close>

definition roots_ok :: "StoreConfig \<Rightarrow> bytes \<Rightarrow> (nat \<Rightarrow> page_ordinal option) \<Rightarrow> Store \<Rightarrow> bool" where
  "roots_ok C img rts s \<longleftrightarrow> distinct (map fst (rr_roots s))
     \<and> (\<forall>(t, pin) \<in> set (rr_roots s). rts t = Some (pin_ordinal pin) \<and> genuine_page C img (pin_ordinal pin) pin)
     \<and> (\<forall>pin \<in> set (outside s). genuine_page C img (pin_ordinal pin) pin)"

definition store_extent :: "StoreConfig \<Rightarrow> bytes \<Rightarrow> (nat \<Rightarrow> page_ordinal option) \<Rightarrow> nat \<Rightarrow> Store extent" where
  "store_extent C img rts fixed s =
     (pin_refs (map snd (rr_roots s)) + pin_refs (outside s), fixed + bookkeeping_bytes (rr_book s),
      roots_ok C img rts s)"

lemma store_extent_framed: "dframed (store_extent C img rts fixed)"
  by (simp add: dframed_def store_extent_def roots_ok_def)

abbreviation store_holds where
  "store_holds lim C img rts fixed \<equiv>
     holds lim (genuine_page C img) (dir_extent (sc_dir C) img (store_extent C img rts fixed))"

lemmas store_framed = dir_extent_framed [OF store_extent_framed]

definition store_size :: "Store \<Rightarrow> nat" where
  "store_size s = length (pd_chunks s) + sum_list (map (\<lambda>sh. length (sh_map sh)) (pc_shards (mc_cache s))) + length (rr_roots s)"

lemma fold_drop_inv:
  "mem_inv lim m (pin_refs ps + R) h \<Longrightarrow> mem_inv lim (fold pin_drop ps m) R h"
proof (induction ps arbitrary: m)
  case (Cons p ps)
  have "mem_inv lim (pin_drop p m) (pin_refs ps + R) h" using Cons.prems by (intro pin_drop_inv) (simp add: pin_refs_def)
  then show ?case using Cons.IH by simp
qed (simp add: pin_refs_def)

lemma more_fields:
  fixes s s' :: Store
  assumes "Machine.more s' = Machine.more s"
  shows "pd_chunks s' = pd_chunks s" "rr_roots s' = rr_roots s" "outside s' = outside s" "store_turn s' = store_turn s"
  using assms framed_more [of pd_chunks s' s] framed_more [of rr_roots s' s] framed_more [of outside s' s] framed_more [of store_turn s' s]
  by (simp_all add: framed_def)

lemma evict_bytes_holds:
  fixes s :: Store
  assumes s: "store_holds lim C img rts fixed L R h s" and e: "evict_bytes A n s = (k, s')"
  shows "store_holds lim C img rts fixed L R h s'" "0 < k \<Longrightarrow> store_size s' < store_size s"
    "pd_chunks s' = pd_chunks s" "rr_roots s' = rr_roots s"
proof -
  let ?x = "dir_extent (sc_dir C) img (store_extent C img rts fixed)"
  have m: "machine_ok lim (genuine_page C img) L (R + fst (?x s)) (h + fst (snd (?x s))) s" using s by (simp add: holds_def)
  note ev = evict_bytes_ok [OF m e]
  show "store_holds lim C img rts fixed L R h s'" by (rule holds_machine [OF store_framed s ev(2,1)])
  note f = more_fields [OF ev(2)]
  show "pd_chunks s' = pd_chunks s" "rr_roots s' = rr_roots s" using f by simp_all
  show "store_size s' < store_size s" if "0 < k" using ev(4) [OF that] f by (simp add: store_size_def)
qed


text \<open>A change of the roots, the callers or the memory, as a change of the account alone.\<close>

lemma store_change:
  fixes s :: Store
  assumes s: "store_holds lim C img rts fixed L R h s" and same: "mc_cache s' = mc_cache s" "pd_chunks s' = pd_chunks s"
    and r: "roots_ok C img rts s'"
    and m: "\<And>R0 h0. mem_inv lim (mc_mem s) (R0 + (R + pin_refs (map snd (rr_roots s)) + pin_refs (outside s))) (h0 + (h + bookkeeping_bytes (rr_book s))) \<Longrightarrow>
      mem_inv lim (mc_mem s') (R0 + (R' + pin_refs (map snd (rr_roots s')) + pin_refs (outside s'))) (h0 + (h' + bookkeeping_bytes (rr_book s')))"
  shows "store_holds lim C img rts fixed L R' h' s'"
proof -
  let ?R = "sum_list (map shard_refs (pc_shards (mc_cache s)))"
  let ?h = "sum_list (map shard_book (pc_shards (mc_cache s))) + fixed + sum_list (map ch_charge (pd_chunks s))"
  have c: "cache_ok lim (genuine_page C img) L (R + (pin_refs (map snd (rr_roots s)) + pin_refs (outside s)))
      (h + (fixed + bookkeeping_bytes (rr_book s) + sum_list (map ch_charge (pd_chunks s)))) (pc_shards (mc_cache s)) (mc_mem s)"
    using s by (simp add: holds_def machine_ok_def dir_extent_def store_extent_def)
  then have "mem_inv lim (mc_mem s) (?R + (R + pin_refs (map snd (rr_roots s)) + pin_refs (outside s))) (?h + (h + bookkeeping_bytes (rr_book s)))"
    by (simp add: cache_ok_def ac_simps)
  from m [OF this] have "cache_ok lim (genuine_page C img) L (R' + (pin_refs (map snd (rr_roots s')) + pin_refs (outside s')))
      (h' + (fixed + bookkeeping_bytes (rr_book s') + sum_list (map ch_charge (pd_chunks s)))) (pc_shards (mc_cache s)) (mc_mem s')"
    using c by (simp add: cache_ok_def ac_simps)
  then show ?thesis using s r by (simp add: holds_def machine_ok_def dir_extent_def store_extent_def same)
qed

lemma store_roots: "store_holds lim C img rts fixed L R h s \<Longrightarrow> roots_ok C img rts s"
  by (simp add: holds_def dir_extent_def store_extent_def)

lemma roots_settle_ok:
  assumes s: "store_holds lim C img rts fixed L R h s" and r: "roots_settle want s = Ok s'"
  shows "store_holds lim C img rts fixed L R h s'" "rr_roots s' = rr_roots s" "outside s' = outside s"
proof -
  obtain k b where kb: "bookkeeping_settle (rr_book s) want (mem_budget (mc_mem s)) = Ok (k, b)"
    and s': "s' = s\<lparr>rr_book := k, mc_mem := (mc_mem s)\<lparr>mem_budget := b\<rparr>\<rparr>"
    using r by (auto simp: roots_settle_def)
  show "rr_roots s' = rr_roots s" "outside s' = outside s" by (simp_all add: s')
  show "store_holds lim C img rts fixed L R h s'"
  proof (rule store_change [OF s])
    show "roots_ok C img rts s'" using store_roots [OF s] by (simp add: s' roots_ok_def)
    fix R0 h0
    assume "mem_inv lim (mc_mem s) (R0 + (R + pin_refs (map snd (rr_roots s)) + pin_refs (outside s))) (h0 + (h + bookkeeping_bytes (rr_book s)))"
    then have "mem_inv lim ((mc_mem s)\<lparr>mem_budget := b\<rparr>) (R0 + (R + pin_refs (map snd (rr_roots s)) + pin_refs (outside s))) (h0 + h + bookkeeping_bytes k)"
      by (intro settle_inv [OF _ kb]) (simp add: add.assoc)
    then show "mem_inv lim (mc_mem s') (R0 + (R + pin_refs (map snd (rr_roots s')) + pin_refs (outside s'))) (h0 + (h + bookkeeping_bytes (rr_book s')))"
      by (simp add: s' add.assoc)
  qed (simp_all add: s')
qed

lemma or_unsettled_ok:
  assumes "store_holds lim C img rts fixed L R h s"
  shows "store_holds lim C img rts fixed L R h (or_unsettled (roots_settle want s) s)"
  using assms roots_settle_ok(1) [OF assms] by (auto simp: or_unsettled_def split: sum.split)

lemma drop_pin_ok:
  assumes s: "store_holds lim C img rts fixed L (add_mset (pin_buffer pin) R) h s"
  shows "store_holds lim C img rts fixed L R h (drop_pin pin s)"
  unfolding drop_pin_def by (rule holds_mem [OF store_framed s]) (rule pin_drop_inv, simp)

lemma release_roots_ok:
  assumes s: "store_holds lim C img rts fixed L R h s" and r: "release_roots s = (n, s')"
  shows "store_holds lim C img rts fixed L R h s'" "rr_roots s' = []" "0 < n \<Longrightarrow> store_size s' < store_size s" "pd_chunks s' = pd_chunks s" "mc_cache s' = mc_cache s"
proof -
  let ?pins = "map snd (rr_roots s)"
  let ?m = "fold pin_drop ?pins (mc_mem s)"
  have n: "n = sum_list (map pin_len ?pins)" and s': "s' = s\<lparr>rr_roots := [], rr_slots := 0, rr_book := None, rr_capacity := 0,
      mc_mem := (case rr_book s of None \<Rightarrow> ?m | Some c \<Rightarrow> mem_release c ?m)\<rparr>"
    using r by (auto simp: release_roots_def Let_def)
  show "store_holds lim C img rts fixed L R h s'"
  proof (rule store_change [OF s])
    show "roots_ok C img rts s'" using store_roots [OF s] by (simp add: s' roots_ok_def)
    fix R0 h0
    assume "mem_inv lim (mc_mem s) (R0 + (R + pin_refs ?pins + pin_refs (outside s))) (h0 + (h + bookkeeping_bytes (rr_book s)))"
    then have "mem_inv lim ?m (R0 + (R + pin_refs (outside s))) (h0 + h + bookkeeping_bytes (rr_book s))"
      by (intro fold_drop_inv) (simp add: ac_simps)
    then have "mem_inv lim (case rr_book s of None \<Rightarrow> ?m | Some c \<Rightarrow> mem_release c ?m) (R0 + (R + pin_refs (outside s))) (h0 + h)"
      by (auto simp: bookkeeping_bytes_def intro: mem_release_inv split: option.split)
    then show "mem_inv lim (mc_mem s') (R0 + (R + pin_refs (map snd (rr_roots s')) + pin_refs (outside s'))) (h0 + (h + bookkeeping_bytes (rr_book s')))"
      by (simp add: s' pin_refs_def bookkeeping_bytes_def)
  qed (simp_all add: s')
  show "rr_roots s' = []" "pd_chunks s' = pd_chunks s" "mc_cache s' = mc_cache s" by (simp_all add: s')
  show "store_size s' < store_size s" if "0 < n" using that n by (cases "rr_roots s") (auto simp: s' store_size_def)
qed

subsection \<open>Reclaiming to the end\<close>

definition rings_short :: "ShardInner list \<Rightarrow> bool" where
  "rings_short shards \<longleftrightarrow> (\<forall>sh \<in> set shards. 2 * length (sh_clock sh) < usize_max)"

definition ready_total :: "ShardInner list \<Rightarrow> nat" where
  "ready_total shards = sum_list (map ready_count shards)"

lemma cache_len_ready: "cache_len c = ready_total (pc_shards c)"
  by (simp add: cache_len_def ready_total_def ready_count_def [abs_def])

text \<open>The last \<open>idle\<close> shards the cursor has passed have nothing left.\<close>

definition passed_empty :: "nat \<Rightarrow> nat \<Rightarrow> ShardInner list \<Rightarrow> bool" where
  "passed_empty k idle shards \<longleftrightarrow> idle \<le> length shards \<and> idle \<le> k \<and> (\<forall>j < idle. ready_count (shards ! ((k - 1 - j) mod length shards)) = 0)"

lemma passed_all:
  assumes "passed_empty k (length shards) shards" "i < length shards"
  shows "ready_count (shards ! i) = 0"
proof -
  let ?n = "length shards"
  have k: "?n \<le> k" using assms(1) by (simp add: passed_empty_def)
  define j where "j = (k - 1 - i) mod ?n"
  have j: "j < ?n" using assms(2) unfolding j_def by (intro mod_less_divisor) linarith
  have "k - 1 = i + (j + ?n * ((k - 1 - i) div ?n))" using k assms(2) unfolding j_def by simp
  then have "k - 1 - j = i + ?n * ((k - 1 - i) div ?n)" by linarith
  then have "(k - 1 - j) mod ?n = i" using assms(2) by simp
  then show ?thesis using assms(1) j unfolding passed_empty_def by metis
qed

lemma evict_one_ring: "evict_one A sh m = (r, sh', m') \<Longrightarrow> length (sh_clock sh') \<le> length (sh_clock sh)"
  unfolding evict_one_def by (rule evict_steps_ring)

lemma evict_one_ready:
  assumes "shard_ok lim G L R h sh m" "2 * length (sh_clock sh) < usize_max" "evict_one A sh m = (r, sh', m')"
  shows "r = None \<Longrightarrow> ready_count sh = 0 \<and> ready_count sh' = 0" "r = Some b \<Longrightarrow> ready_count sh = Suc (ready_count sh') \<and> 0 < b"
  using evict_steps_ready [OF assms(1) assms(3) [unfolded evict_one_def]] evict_one_progress [OF assms(1,2)] assms(3)
  by (auto simp: nothing_ready_count)

lemma evict_bytes_loop_ready:
  "cache_ok lim G L R h shards m \<Longrightarrow> rings_short shards \<Longrightarrow> passed_empty (start + cursor) idle shards \<Longrightarrow>
    evict_bytes_loop A target start cursor idle released shards m = (released', shards', m') \<Longrightarrow>
    rings_short shards' \<and> ready_total shards' \<le> ready_total shards \<and> released \<le> released'
    \<and> (released < released' \<longrightarrow> ready_total shards' < ready_total shards) \<and> (released' < target \<longrightarrow> ready_total shards' = 0)"
proof (induction A target start cursor idle released shards m rule: evict_bytes_loop.induct)
  case (1 A target start cursor idle released shards m)
  let ?i = "(start + cursor) mod length shards"
  show ?case
  proof (cases "released < target \<and> idle < length shards")
    case True
    then have i: "?i < length shards" by (intro mod_less_divisor) linarith
    obtain r sh1 m1 where e: "evict_one A (shards ! ?i) m = (r, sh1, m1)" by (cases "evict_one A (shards ! ?i) m") auto
    note sh = cache_shard [OF 1(3) i]
    have ok: "cache_ok lim G L R h (shards[?i := sh1]) m1"
      by (rule cache_update [OF 1(3) i evict_one_ok [OF sh e]]) simp
    have ring: "2 * length (sh_clock (shards ! ?i)) < usize_max" using 1(4) i by (simp add: rings_short_def)
    have rings: "rings_short (shards[?i := sh1])"
      unfolding rings_short_def
    proof
      fix sh
      assume "sh \<in> set (shards[?i := sh1])"
      then have "sh = sh1 \<or> sh \<in> set shards" using set_update_subset_insert by fastforce
      then show "2 * length (sh_clock sh) < usize_max" using 1(4) evict_one_ring [OF e] ring by (auto simp: rings_short_def)
    qed
    note rd = evict_one_ready [OF sh ring e]
    have tot: "ready_total (shards[?i := sh1]) + ready_count (shards ! ?i) = ready_total shards + ready_count sh1"
      unfolding ready_total_def using sum_without(1) [OF i, of ready_count] sum_without(2) [OF i, of ready_count sh1] by linarith
    note unroll = evict_bytes_loop.simps [of A target start cursor idle released shards m]
    show ?thesis
    proof (cases r)
      case None
      have n: "evict_bytes_loop A target start (cursor + 1) (idle + 1) released (shards[?i := sh1]) m1 = (released', shards', m')"
        using 1(6) True e None unfolding unroll by (simp add: Let_def)
      have "passed_empty (start + (cursor + 1)) (idle + 1) (shards[?i := sh1])"
        unfolding passed_empty_def
      proof (intro conjI allI impI)
        fix j
        assume j: "j < idle + 1"
        show "ready_count (shards[?i := sh1] ! ((start + (cursor + 1) - 1 - j) mod length (shards[?i := sh1]))) = 0"
        proof (cases "(start + (cursor + 1) - 1 - j) mod length shards = ?i")
          case True
          then show ?thesis using i rd(1) [OF None] by simp
        next
          case False
          then obtain j' where j': "j = Suc j'" by (cases j) auto
          then have "ready_count (shards ! ((start + cursor - 1 - j') mod length shards)) = 0" using 1(5) j by (simp add: passed_empty_def)
          then show ?thesis using False j' by (simp add: nth_list_update)
        qed
      qed (use 1(5) True in \<open>auto simp: passed_empty_def\<close>)
      from 1(1) [OF True refl e [symmetric] None refl ok rings this n] tot rd(1) [OF None] show ?thesis by auto
    next
      case (Some b)
      have n: "evict_bytes_loop A target start (cursor + 1) 0 (released + b) (shards[?i := sh1]) m1 = (released', shards', m')"
        using 1(6) True e Some unfolding unroll by (simp add: Let_def)
      have "passed_empty (start + (cursor + 1)) 0 (shards[?i := sh1])" by (simp add: passed_empty_def)
      from 1(2) [OF True refl e [symmetric] Some refl ok rings this n] tot rd(2) [OF Some] show ?thesis by auto
    qed
  next
    case False
    then have eq: "released' = released" "shards' = shards" using 1(6) by (subst (asm) evict_bytes_loop.simps, simp)+
    have "ready_total shards = 0" if "released < target"
    proof -
      have "idle = length shards" using that False 1(5) by (auto simp: passed_empty_def)
      then have "ready_count sh = 0" if "sh \<in> set shards" for sh
        using passed_all [of "start + cursor" shards] 1(5) that by (auto simp: in_set_conv_nth)
      then show ?thesis by (simp add: ready_total_def sum_list_eq_0_iff)
    qed
    then show ?thesis using eq 1(4) by simp
  qed
qed

lemma evict_bytes_ready:
  fixes s :: Store
  assumes s: "store_holds lim C img rts fixed L R h s" and rings: "rings_short (pc_shards (mc_cache s))" and e: "evict_bytes A n s = (k, s')"
  shows "rings_short (pc_shards (mc_cache s'))" "ready_total (pc_shards (mc_cache s')) \<le> ready_total (pc_shards (mc_cache s))"
    "0 < k \<Longrightarrow> ready_total (pc_shards (mc_cache s')) < ready_total (pc_shards (mc_cache s))" "k < n \<Longrightarrow> ready_total (pc_shards (mc_cache s')) = 0"
proof -
  obtain sh m where l: "evict_bytes_loop A n (pc_next_victim_shard (mc_cache s)) 0 0 0 (pc_shards (mc_cache s)) (mc_mem s) = (k, sh, m)"
    and s': "pc_shards (mc_cache s') = sh"
    using e by (auto simp: evict_bytes_def Let_def split: prod.splits)
  have c: "\<exists>R h. cache_ok lim (genuine_page C img) L R h (pc_shards (mc_cache s)) (mc_mem s)" using s by (auto simp: holds_def machine_ok_def)
  have "passed_empty (pc_next_victim_shard (mc_cache s) + 0) 0 (pc_shards (mc_cache s))" by (simp add: passed_empty_def)
  note r = evict_bytes_loop_ready [OF _ rings this l]
  show "rings_short (pc_shards (mc_cache s'))" "ready_total (pc_shards (mc_cache s')) \<le> ready_total (pc_shards (mc_cache s))"
    "0 < k \<Longrightarrow> ready_total (pc_shards (mc_cache s')) < ready_total (pc_shards (mc_cache s))" "k < n \<Longrightarrow> ready_total (pc_shards (mc_cache s')) = 0"
    using r c by (auto simp: s')
qed

lemma chunk_evict_holds:
  fixes s :: Store
  assumes s: "store_holds lim C img rts fixed L R h s" and e: "directory_evict_one s = (b, s')"
  shows "store_holds lim C img rts fixed L R h s'" "mc_cache s' = mc_cache s" "rr_roots s' = rr_roots s"
    "if b then length (pd_chunks s) = Suc (length (pd_chunks s')) else pd_chunks s = [] \<and> s' = s"
proof -
  note d = directory_evict_ok [OF store_extent_framed s e]
  show "store_holds lim C img rts fixed L R h s'" by (rule d(1))
  show "mc_cache s' = mc_cache s" by (rule d(3))
  show "rr_roots s' = rr_roots s" using e by (auto simp: directory_evict_one_def drop_chunk_def split: option.splits)
  show "if b then length (pd_chunks s) = Suc (length (pd_chunks s')) else pd_chunks s = [] \<and> s' = s" by (rule d(5))
qed

lemma reclaim_pages_ok: "reclaims (store_holds lim C img rts fixed L R h) store_size (reclaim_pages C)"
  unfolding reclaims_def
proof (intro conjI allI impI)
  fix w n and s s' :: Store
  assume s: "store_holds lim C img rts fixed L R h s" and r: "reclaim_pages C w s = (n, s')"
  obtain k s1 where e: "evict_bytes (sc_alloc C) w s = (k, s1)" by fastforce
  note ev = evict_bytes_holds [OF s e]
  have "store_holds lim C img rts fixed L R h s' \<and> (0 < n \<longrightarrow> store_size s' < store_size s)"
  proof (cases "0 < k")
    case True
    then show ?thesis using r e ev by (simp add: reclaim_pages_def)
  next
    case False
    then have rr: "release_roots s1 = (n, s')" using r e by (simp add: reclaim_pages_def)
    have m: "sum_list (map (\<lambda>sh. length (sh_map sh)) (pc_shards (mc_cache s1))) \<le> sum_list (map (\<lambda>sh. length (sh_map sh)) (pc_shards (mc_cache s)))"
      using s e by (auto simp: holds_def intro: evict_bytes_ok(3))
    have "store_size s1 \<le> store_size s" using ev(3,4) m by (simp add: store_size_def)
    then show ?thesis using release_roots_ok(1,3) [OF ev(1) rr] by fastforce
  qed
  then show "store_holds lim C img rts fixed L R h s'" "0 < n \<Longrightarrow> store_size s' < store_size s" by simp_all
next
  fix s s' :: Store
  assume e: "directory_evict_one s = (True, s')"
  then obtain i where i: "least_used (pd_chunks s) = Some i" "s' = drop_chunk i s" by (auto simp: directory_evict_one_def split: option.splits)
  show "store_size s' < store_size s" using swap_remove_facts(1) [OF least_used_less [OF i(1)]]
    by (simp add: i(2) store_size_def drop_chunk_def)
qed

text \<open>How often a round of the reservation can still give something up.\<close>

definition reclaimable :: "Store \<Rightarrow> nat" where
  "reclaimable s = cache_len (mc_cache s) + length (pd_chunks s) + (if rr_roots s = [] then 0 else 1)"

text \<open>A refusal, which says whether the request could ever fit.\<close>

definition refused :: "nat \<Rightarrow> nat \<Rightarrow> Error \<Rightarrow> bool" where
  "refused lim n e \<longleftrightarrow> err_kind e = BudgetExceeded \<and> (is_retryable e \<longleftrightarrow> n \<le> lim)"

definition round_post :: "nat \<Rightarrow> StoreConfig \<Rightarrow> bytes \<Rightarrow> (nat \<Rightarrow> page_ordinal option) \<Rightarrow> nat \<Rightarrow> page_ordinal set \<Rightarrow> nat multiset \<Rightarrow> nat \<Rightarrow> nat \<Rightarrow>
    charge result \<Rightarrow> Store \<Rightarrow> bool" where
  "round_post lim C img rts fixed L R h n r s' \<longleftrightarrow>
     (case r of Inr c \<Rightarrow> c = n \<and> store_holds lim C img rts fixed L R (h + n) s'
      | Inl e \<Rightarrow> refused lim n e \<and> store_holds lim C img rts fixed L R h s')"

lemma holds_refused:
  assumes s: "holds lim G x L R h s" and e: "mem_reserve n (mc_mem s) = Err e"
  shows "refused lim n e" "0 < n"
proof -
  obtain R0 h0 where "mem_inv lim (mc_mem s) R0 h0" using s by (auto simp: holds_def machine_ok_def cache_ok_def)
  then have "limit (mem_budget (mc_mem s)) = lim" "used (mem_budget (mc_mem s)) \<le> lim" "lim \<le> usize_max"
    by (auto simp: mem_inv_def accounts_def)
  then show "refused lim n e" "0 < n" using e
    by (auto simp: mem_reserve_def try_reserve_def budget_take_def take_decision_def checked_add_def refused_def is_retryable_def error_budget_def
        split: if_splits)
qed

lemma round_facts:
  assumes s: "store_holds lim C img rts fixed L R h s" and e: "evict_bytes A n s = (freed, s1)"
    and d: "(if freed = 0 then directory_evict_one s1 else (False, s1)) = (dropped, s2)"
    and r: "(if freed = 0 \<and> \<not> dropped then release_roots s2 else (0, s2)) = (released, s3)"
  shows "store_holds lim C img rts fixed L R h s3"
    "rings_short (pc_shards (mc_cache s)) \<Longrightarrow> 0 < n \<Longrightarrow> rings_short (pc_shards (mc_cache s3))
      \<and> (if freed = 0 \<and> \<not> dropped \<and> released = 0 then reclaimable s3 = 0 else reclaimable s3 < reclaimable s)"
proof -
  note ev = evict_bytes_holds [OF s e]
  have "store_holds lim C img rts fixed L R h s2 \<and> rr_roots s2 = rr_roots s1 \<and> mc_cache s2 = mc_cache s1
    \<and> (if dropped then freed = 0 \<and> length (pd_chunks s1) = Suc (length (pd_chunks s2)) else pd_chunks s2 = pd_chunks s1 \<and> (freed = 0 \<longrightarrow> pd_chunks s1 = []))"
  proof (cases "freed = 0")
    case True
    then have "directory_evict_one s1 = (dropped, s2)" using d by simp
    note c = chunk_evict_holds [OF ev(1) this]
    show ?thesis using c True by (cases dropped) simp_all
  next
    case False
    then show ?thesis using d ev(1) by simp
  qed
  then have s2: "store_holds lim C img rts fixed L R h s2" "rr_roots s2 = rr_roots s1" "mc_cache s2 = mc_cache s1"
    "if dropped then freed = 0 \<and> length (pd_chunks s1) = Suc (length (pd_chunks s2)) else pd_chunks s2 = pd_chunks s1 \<and> (freed = 0 \<longrightarrow> pd_chunks s1 = [])"
    by blast+
  have "store_holds lim C img rts fixed L R h s3 \<and> mc_cache s3 = mc_cache s2 \<and> pd_chunks s3 = pd_chunks s2
    \<and> (if freed = 0 \<and> \<not> dropped then rr_roots s3 = [] \<and> (0 < released \<longrightarrow> rr_roots s2 \<noteq> []) else rr_roots s3 = rr_roots s2 \<and> released = 0)"
  proof (cases "freed = 0 \<and> \<not> dropped")
    case True
    then have rr: "release_roots s2 = (released, s3)" using r by simp
    have "released = sum_list (map pin_len (map snd (rr_roots s2)))" using rr by (auto simp: release_roots_def Let_def)
    then have "0 < released \<longrightarrow> rr_roots s2 \<noteq> []" by auto
    then show ?thesis using release_roots_ok(1,2,4,5) [OF s2(1) rr] True by simp
  next
    case False
    then show ?thesis using r s2(1) by auto
  qed
  then have s3: "store_holds lim C img rts fixed L R h s3" "mc_cache s3 = mc_cache s2" "pd_chunks s3 = pd_chunks s2"
    "if freed = 0 \<and> \<not> dropped then rr_roots s3 = [] \<and> (0 < released \<longrightarrow> rr_roots s2 \<noteq> []) else rr_roots s3 = rr_roots s2 \<and> released = 0"
    by blast+
  show "store_holds lim C img rts fixed L R h s3" by (rule s3(1))
  assume rings: "rings_short (pc_shards (mc_cache s))" and n: "0 < n"
  note rd = evict_bytes_ready [OF s rings e]
  note eqs = s2(2,3) s3(2,3) ev(3,4)
  have "if freed = 0 \<and> \<not> dropped \<and> released = 0 then reclaimable s3 = 0 else reclaimable s3 < reclaimable s"
  proof (cases "freed = 0")
    case False
    then show ?thesis using rd(3) s2(4) s3(4) eqs by (auto simp: reclaimable_def cache_len_ready split: if_splits)
  next
    case True
    then have z: "ready_total (pc_shards (mc_cache s1)) = 0" using rd(4) n by simp
    show ?thesis
    proof (cases dropped)
      case d: True
      then show ?thesis using True z s2(4) s3(4) eqs by (simp add: reclaimable_def cache_len_ready)
    next
      case d: False
      then show ?thesis using True z s2(4) s3(4) eqs rd(2) by (auto simp: reclaimable_def cache_len_ready)
    qed
  qed
  then show "rings_short (pc_shards (mc_cache s3))
      \<and> (if freed = 0 \<and> \<not> dropped \<and> released = 0 then reclaimable s3 = 0 else reclaimable s3 < reclaimable s)"
    using rd(1) eqs by simp
qed

lemma reserve_rounds_ok:
  "store_holds lim C img rts fixed L R h s \<Longrightarrow> (lst = None \<longrightarrow> 0 < k) \<Longrightarrow> (\<forall>e. lst = Some e \<longrightarrow> refused lim n e) \<Longrightarrow>
    reserve_rounds C n k lst s = (r, s') \<Longrightarrow>
    round_post lim C img rts fixed L R h n r s'
    \<and> (rings_short (pc_shards (mc_cache s)) \<longrightarrow> 0 < n \<longrightarrow> reclaimable s < k \<longrightarrow> is_ok r \<or> reclaimable s' = 0)"
proof (induction k arbitrary: lst s)
  case 0
  then show ?case by (auto simp: round_post_def split: option.splits)
next
  case (Suc k)
  obtain freed s1 where e: "evict_bytes (sc_alloc C) n s = (freed, s1)" by fastforce
  obtain dropped s2 where d: "(if freed = 0 then directory_evict_one s1 else (False, s1)) = (dropped, s2)" by fastforce
  obtain released s3 where rl: "(if freed = 0 \<and> \<not> dropped then release_roots s2 else (0, s2)) = (released, s3)" by fastforce
  let ?stop = "freed = 0 \<and> \<not> dropped \<and> released = 0"
  have step: "(case mem_reserve n (mc_mem s3) of Inr (c, m) \<Rightarrow> (Ok c, s3\<lparr>mc_mem := m\<rparr>)
      | Inl e \<Rightarrow> (if ?stop then (Err e, s3) else reserve_rounds C n k (Some e) s3)) = (r, s')"
    using Suc.prems(4) unfolding reserve_rounds.simps e prod.case d rl .
  note s3 = round_facts [OF Suc.prems(1) e d rl]
  note res = holds_reserve [OF store_framed s3(1), of n]
  show ?case
  proof (cases "mem_reserve n (mc_mem s3)")
    case (Inr x)
    obtain c m where x: "x = (c, m)" by fastforce
    then have "r = Ok c" "s' = s3\<lparr>mc_mem := m\<rparr>" using step Inr by simp_all
    then show ?thesis using res(1) [of c m] Inr x by (simp add: round_post_def is_ok_def)
  next
    case (Inl err)
    have b: "refused lim n err" by (rule holds_refused(1) [OF s3(1) Inl])
    show ?thesis
    proof (cases ?stop)
      case True
      then have "r = Err err" "s' = s3" using step Inl by simp_all
      then show ?thesis using b s3(1) s3(2) True by (simp add: round_post_def)
    next
      case False
      have nx: "reserve_rounds C n k (Some err) s3 = (r, s')" using step Inl False by simp
      from Suc.IH [OF s3(1) _ _ nx] b
      have "round_post lim C img rts fixed L R h n r s'"
        "rings_short (pc_shards (mc_cache s3)) \<Longrightarrow> 0 < n \<Longrightarrow> reclaimable s3 < k \<Longrightarrow> is_ok r \<or> reclaimable s' = 0" by simp_all
      then show ?thesis using s3(2) False by auto
    qed
  qed
qed

lemma store_reserve_ok:
  "triple (store_holds lim C img rts fixed L R h) (store_reserve C n) (\<lambda>c s. c = n \<and> store_holds lim C img rts fixed L R (h + n) s)
    (\<lambda>e s. err_kind e = BudgetExceeded \<and> store_holds lim C img rts fixed L R h s)"
proof (rule tripleI)
  fix s
  assume s: "store_holds lim C img rts fixed L R h s"
  note res = holds_reserve [OF store_framed s, of n]
  let ?k = "saturating_add (saturating_add (cache_len (mc_cache s)) (chunks_held s)) EVICT_ROUNDS"
  have k: "0 < ?k" by (simp add: saturating_add_def EVICT_ROUNDS_def usize_max_def)
  obtain r s' where r: "reserve_rounds C n ?k None s = (r, s')" by fastforce
  have post: "round_post lim C img rts fixed L R h n r s'" using reserve_rounds_ok [OF s _ _ r] k by simp
  show "\<exists>r s'. store_reserve C n s = Some (r, s') \<and> (case r of Inl e \<Rightarrow> err_kind e = BudgetExceeded \<and> store_holds lim C img rts fixed L R h s'
      | Inr c \<Rightarrow> c = n \<and> store_holds lim C img rts fixed L R (h + n) s')"
  proof (cases "mem_reserve n (mc_mem s)")
    case (Inr x)
    then show ?thesis using res(1) by (cases x) (simp add: store_reserve_def)
  next
    case (Inl e)
    show ?thesis
    proof (cases "is_retryable e")
      case True
      then show ?thesis using Inl r post by (auto simp: store_reserve_def round_post_def refused_def split: sum.splits)
    next
      case False
      then show ?thesis using Inl s res(2) [OF Inl] by (simp add: store_reserve_def)
    qed
  qed
qed

subsection \<open>Loading returns the page of the file\<close>

lemma triple_seq:
  assumes "triple P m (\<lambda>v s. \<phi> v \<and> Q v s) F" "\<And>v. \<phi> v \<Longrightarrow> triple (Q v) (f v) R F"
  shows "triple P (op_bind m f) R F"
proof (rule triple_bind [OF assms(1)])
  fix v
  show "triple (\<lambda>s. \<phi> v \<and> Q v s) (f v) R F"
  proof (rule triple_assume [of _ "\<phi> v"])
    assume "\<phi> v"
    show "triple (\<lambda>s. \<phi> v \<and> Q v s) (f v) R F" by (rule triple_weaken [OF assms(2) [OF \<open>\<phi> v\<close>]]) simp_all
  qed simp
qed

lemma op_held_ok:
  assumes x: "framed x"
    and m: "triple (holds lim G x L R (h + c)) m (\<lambda>v s. \<phi> v \<and> holds lim G x L R (k v + c) s) (\<lambda>e s. K e \<and> holds lim G x L R (h + c) s)"
  shows "triple (holds lim G x L R (h + c)) (op_held c m) (\<lambda>v s. \<phi> v \<and> holds lim G x L R (k v) s) (\<lambda>e s. K e \<and> holds lim G x L R h s)"
proof (rule tripleI)
  fix s
  assume "holds lim G x L R (h + c) s"
  with m show "\<exists>r s'. op_held c m s = Some (r, s') \<and> (case r of Inl e \<Rightarrow> K e \<and> holds lim G x L R h s' | Inr v \<Rightarrow> \<phi> v \<and> holds lim G x L R (k v) s')"
    by (cases rule: tripleE) (auto simp: op_held_def intro: holds_release [OF x])
qed

lemma triple_pure: "(\<And>v. r = Inr v \<Longrightarrow> \<phi> v) \<Longrightarrow> (\<And>e. r = Inl e \<Longrightarrow> K e) \<Longrightarrow>
    triple P (op_lift r) (\<lambda>v s. \<phi> v \<and> P s) (\<lambda>e s. K e \<and> P s)"
  by (rule triple_lift) auto

definition decode_error :: "StoreConfig \<Rightarrow> bytes \<Rightarrow> Error \<Rightarrow> bool" where
  "decode_error C stored e \<longleftrightarrow> err_kind e = BudgetExceeded \<or> page_data C stored = Err e"

definition decoded_ok :: "StoreConfig \<Rightarrow> bytes \<Rightarrow> charge \<times> bytes \<Rightarrow> bool" where
  "decoded_ok C stored v \<longleftrightarrow> page_data C stored = Ok (snd v) \<and> 0 < fst v"

lemma page_data_filter:
  "sc_filter C = Some f \<Longrightarrow> page_data C stored = and_then (page_room C f (drop PAGE_PREFIX_LEN stored)) (\<lambda>capacity.
     and_then (filter_decode f (sc_vec_capacity C capacity) (drop PAGE_PREFIX_LEN stored)) (\<lambda>d.
     and_then (decoded_payload C (sc_vec_capacity C capacity) d) (\<lambda>payload.
     and_then (ok_or (checked_add PAGE_PREFIX_LEN (length payload)) corrupt) (\<lambda>n.
     Ok (decoded_page stored payload n)))))"
  by (simp add: page_data_def)

lemma decode_reserve:
  assumes J: "J = store_holds lim C img rts fixed"
  shows "triple (J L R h) (store_reserve C n) (\<lambda>c s. c = n \<and> J L R (h + n) s) (\<lambda>e s. decode_error C stored e \<and> J L R h s)"
  unfolding J by (rule triple_weaken [OF store_reserve_ok]) (auto simp: decode_error_def)

lemma decode_tail_ok:
  assumes f: "sc_filter C = Some f" and J: "J = store_holds lim C img rts fixed"
    and c: "page_room C f (drop PAGE_PREFIX_LEN stored) = Ok capacity"
      "filter_decode f (sc_vec_capacity C capacity) (drop PAGE_PREFIX_LEN stored) = Ok d"
  shows "triple (J L R h) (op_bind (op_lift (decoded_payload C (sc_vec_capacity C capacity) d)) (\<lambda>payload.
      op_bind (op_lift (ok_or (checked_add PAGE_PREFIX_LEN (length payload)) corrupt)) (\<lambda>total_len.
      op_bind (store_reserve C (total_len + BUFFER_OVERHEAD)) (\<lambda>exact_charge.
      op_return (exact_charge, decoded_page stored payload total_len)))))
    (\<lambda>v s. decoded_ok C stored v \<and> J L R (h + fst v) s) (\<lambda>e s. decode_error C stored e \<and> J L R h s)"
proof (rule triple_seq [where \<phi> = "\<lambda>payload. decoded_payload C (sc_vec_capacity C capacity) d = Ok payload", OF triple_pure], goal_cases)
  case (3 payload)
  show ?case
  proof (rule triple_seq [where \<phi> = "\<lambda>n. checked_add PAGE_PREFIX_LEN (length payload) = Some n", OF triple_pure], goal_cases)
    case (3 n)
    have "0 < n" using 3 by (auto simp: checked_add_def PAGE_PREFIX_LEN_def split: if_splits)
    then show ?case
      using \<open>decoded_payload C (sc_vec_capacity C capacity) d = Ok payload\<close> 3 c
      by (intro triple_seq [OF decode_reserve [OF J]]) (auto simp: page_data_filter [OF f] decoded_ok_def intro!: triple_return)
  qed (use 3 c in \<open>simp_all add: page_data_filter [OF f] checked_add_def decode_error_def\<close>)
qed (use c in \<open>simp_all add: page_data_filter [OF f] decode_error_def\<close>)

lemma decode_within_ok:
  assumes f: "sc_filter C = Some f" and J: "J = store_holds lim C img rts fixed" and c: "page_room C f (drop PAGE_PREFIX_LEN stored) = Ok capacity"
  shows "triple (J L R h) (decode_within C f stored capacity) (\<lambda>v s. decoded_ok C stored v \<and> J L R (h + fst v) s)
    (\<lambda>e s. decode_error C stored e \<and> J L R h s)"
  unfolding decode_within_def Let_def
proof (rule triple_seq [OF decode_reserve [OF J]], goal_cases)
  case (1 probe)
  have hp: "triple (J L R (h + probe)) (op_held probe (op_return (working_set_bytes f))) (\<lambda>v s. True \<and> J L R h s)
      (\<lambda>e s. decode_error C stored e \<and> J L R h s)"
    unfolding J by (rule op_held_ok [OF store_framed, where k = "\<lambda>_. h"]) (rule triple_return, simp)
  show ?case unfolding 1 [symmetric]
  proof (rule triple_seq [OF hp], rule triple_seq [OF decode_reserve [OF J]], goal_cases)
    case (1 working wc)
    have hw: "triple (J L R (h + wc)) (op_held wc (op_lift (filter_decode f (sc_vec_capacity C capacity) (drop PAGE_PREFIX_LEN stored))))
        (\<lambda>d s. filter_decode f (sc_vec_capacity C capacity) (drop PAGE_PREFIX_LEN stored) = Ok d \<and> J L R h s)
        (\<lambda>e s. decode_error C stored e \<and> J L R h s)"
      unfolding J by (rule op_held_ok [OF store_framed, where k = "\<lambda>_. h"])
        (rule triple_pure, use c in \<open>simp_all add: page_data_filter [OF f] decode_error_def\<close>)
    show ?case unfolding 1(2) [symmetric] by (rule triple_seq [OF hw decode_tail_ok [OF f J c]])
  qed
qed

lemma decode_page_ok:
  assumes f: "sc_filter C = Some f" and J: "J = store_holds lim C img rts fixed"
  shows "triple (J L R (h + sc)) (decode_page C f stored sc) (\<lambda>v s. decoded_ok C stored v \<and> J L R (h + fst v) s)
    (\<lambda>e s. decode_error C stored e \<and> J L R h s)"
  unfolding decode_page_def J
proof (rule op_held_ok [OF store_framed, where k = "\<lambda>v. h + fst v"], unfold J [symmetric], goal_cases)
  case 1
  show ?case
  proof (rule triple_seq [where \<phi> = "\<lambda>c. page_room C f (drop PAGE_PREFIX_LEN stored) = Ok c", OF triple_pure], goal_cases)
    case (3 capacity)
    show ?case
    proof (rule triple_seq [OF decode_reserve [OF J]], goal_cases)
      case (1 scratch)
      have "triple (J L R (h + sc + scratch)) (op_held scratch (decode_within C f stored capacity))
          (\<lambda>v s. decoded_ok C stored v \<and> J L R (h + sc + fst v) s) (\<lambda>e s. decode_error C stored e \<and> J L R (h + sc) s)"
        unfolding J
      proof (rule op_held_ok [OF store_framed, where k = "\<lambda>v. h + sc + fst v"], unfold J [symmetric], goal_cases)
        case 1
        show ?case by (rule triple_weaken [OF decode_within_ok [OF f J 3]]) (simp_all add: ac_simps)
      qed
      then show ?case unfolding 1 [symmetric] by (rule triple_weaken) (simp_all add: ac_simps)
    qed
  qed (simp_all add: page_data_filter [OF f] decode_error_def)
qed

lemma store_offset_ok:
  assumes src: "page_source (dc_source (sc_dir C)) img" and f: "store_fits C img" and J: "J = store_holds lim C img rts fixed"
  shows "triple (J L R h) (store_offset_of C p) (\<lambda>o' s. dir_offset (sc_dir C) img p = Ok o' \<and> J L R h s)
    (\<lambda>e s. (store_error (dc_source (sc_dir C)) e \<or> dir_offset (sc_dir C) img p = Err e) \<and> J L R h s)"
  unfolding store_offset_of_def J using f
  by (intro directory_offset_ok [OF src store_extent_framed refl reclaim_pages_ok]) (simp add: store_fits_def)

lemma page_limit_ok:
  assumes src: "page_source (dc_source (sc_dir C)) img" and f: "store_fits C img" and J: "J = store_holds lim C img rts fixed"
  shows "triple (J L R h) (page_limit C p offset) (\<lambda>b s. page_bound C img p offset = Ok b \<and> J L R h s)
    (\<lambda>e s. (store_error (dc_source (sc_dir C)) e \<or> page_bound C img p offset = Err e) \<and> J L R h s)"
proof (cases "saturating_add p 1 \<ge> dc_count (sc_dir C)")
  case True
  then show ?thesis by (auto simp: page_limit_def page_bound_def Let_def intro: triple_return)
next
  case False
  let ?q = "saturating_add p 1"
  have pb: "page_bound C img p offset = and_then (dir_offset (sc_dir C) img ?q) (\<lambda>n. Ok (if n > offset then min n (sc_directory_base C) else sc_directory_base C))"
    using False by (simp add: page_bound_def)
  have o: "triple (J L R h) (store_offset_of C ?q) (\<lambda>n s. dir_offset (sc_dir C) img ?q = Ok n \<and> J L R h s)
      (\<lambda>e s. (store_error (dc_source (sc_dir C)) e \<or> page_bound C img p offset = Err e) \<and> J L R h s)"
    by (rule triple_weaken [OF store_offset_ok [OF src f J]]) (auto simp: pb)
  have "triple (J L R h) (op_bind (store_offset_of C ?q) (\<lambda>n. op_return (if n > offset then min n (sc_directory_base C) else sc_directory_base C)))
      (\<lambda>b s. page_bound C img p offset = Ok b \<and> J L R h s) (\<lambda>e s. (store_error (dc_source (sc_dir C)) e \<or> page_bound C img p offset = Err e) \<and> J L R h s)"
    by (rule triple_seq [OF o]) (auto simp: pb intro!: triple_return)
  then show ?thesis using False by (simp add: page_limit_def Let_def)
qed

text \<open>A page starts before the directory, so its length field can be read.\<close>

lemma dir_offset_bounds:
  assumes "dir_offset D img p = Ok offset" "dir_fits D img"
  shows "offset < dc_base D" "offset + 4 \<le> length img" "offset + 4 \<le> usize_max"
proof -
  have p: "p < dc_count D" and o: "offset < dc_base D"
    using assms(1) by (auto simp: dir_offset_def validate_offset_def split: if_splits)
  show "offset < dc_base D" by (rule o)
  have "dc_base D + 8 \<le> dc_base D + dc_count D * DIRECTORY_SLOT_LEN" using p by (simp add: DIRECTORY_SLOT_LEN_def)
  then show "offset + 4 \<le> length img" "offset + 4 \<le> usize_max" using o assms(2) by (auto simp: dir_fits_def)
qed

lemma page_bound_le: "page_bound C img p offset = Ok b \<Longrightarrow> b \<le> sc_directory_base C"
  by (auto simp: page_bound_def split: if_splits)

lemma new_page_ok:
  assumes J: "J = store_holds lim C img rts fixed" and po: "page_of C img p = and_then (parse_page p data) (\<lambda>_. Ok data)" and c: "0 < c"
  shows "triple (J L R (h + c)) (new_page p c data)
    (\<lambda>(pin, bytes) s. genuine_page C img p pin \<and> 0 < bytes \<and> J L (add_mset (pin_buffer pin) R) h s) (\<lambda>e s. page_of C img p = Err e \<and> J L R h s)"
proof -
  have paid: "triple (J L R (h + c)) (op_paid c (op_lift (parse_page p data))) (\<lambda>_ s. page_of C img p = Ok data \<and> J L R (h + c) s)
      (\<lambda>e s. page_of C img p = Err e \<and> J L R h s)"
    unfolding J by (rule op_paid_ok [OF store_framed], rule triple_lift) (auto simp: po)
  show ?thesis unfolding new_page_def
  proof (rule triple_seq [OF paid], rule tripleI)
    fix s
    assume g: "page_of C img p = Ok data" and s: "J L R (h + c) s"
    obtain pin m where b: "buffer_new p data c (mc_mem s) = (pin, m)" by fastforce
    have "store_holds lim C img rts fixed L (add_mset (pin_buffer pin) R) h (s\<lparr>mc_mem := m\<rparr>)"
    proof (rule holds_mem [OF store_framed s [unfolded J]])
      fix R0 h0
      assume "mem_inv lim (mc_mem s) (R0 + R) (h0 + (h + c))"
      from buffer_new_inv(1) [OF this [unfolded add.assoc [symmetric]] b] show "mem_inv lim m (R0 + add_mset (pin_buffer pin) R) (h0 + h)" by simp
    qed
    moreover have "genuine_page C img p pin" using b g by (auto simp: genuine_page_def buffer_new_def)
    ultimately show "\<exists>r s'. (case buffer_new p data c (mc_mem s) of (pin, m) \<Rightarrow> Some (Ok (pin, c), s\<lparr>mc_mem := m\<rparr>)) = Some (r, s') \<and>
        (case r of Inl e \<Rightarrow> page_of C img p = Err e \<and> J L R h s'
         | Inr v \<Rightarrow> (case v of (pin, bytes) \<Rightarrow> \<lambda>s. genuine_page C img p pin \<and> 0 < bytes \<and> J L (add_mset (pin_buffer pin) R) h s) s')"
      using b c by (simp add: J)
  qed
qed

lemma load_stored_ok:
  assumes src: "page_source (dc_source (sc_dir C)) img" and J: "J = store_holds lim C img rts fixed"
    and fit: "offset + n \<le> length img" "offset + n \<le> usize_max"
    and po: "page_of C img p = and_then (page_data C (slice img offset n)) (\<lambda>data. and_then (parse_page p data) (\<lambda>_. Ok data))" and n: "0 < n"
  shows "triple (J L R h) (load_stored C p offset n)
    (\<lambda>(pin, bytes) s. genuine_page C img p pin \<and> 0 < bytes \<and> J L (add_mset (pin_buffer pin) R) h s)
    (\<lambda>e s. (store_error (dc_source (sc_dir C)) e \<or> page_of C img p = Err e) \<and> J L R h s)"
  unfolding load_stored_def
proof -
  let ?src = "dc_source (sc_dir C)" and ?stored = "slice img offset n" and ?c = "n + BUFFER_OVERHEAD"
  let ?K = "\<lambda>e. store_error ?src e \<or> page_of C img p = Err e"
  let ?Q = "\<lambda>(pin, bytes) s. genuine_page C img p pin \<and> 0 < bytes \<and> J L (add_mset (pin_buffer pin) R) h s"
  have rs: "triple (J L R h) (store_reserve C ?c) (\<lambda>c s. c = ?c \<and> J L R (h + ?c) s) (\<lambda>e s. ?K e \<and> J L R h s)"
    unfolding J by (rule triple_weaken [OF store_reserve_ok]) (auto simp: store_error_def)
  have rd: "triple (J L R (h + ?c)) (op_paid ?c (source_read ?src n offset)) (\<lambda>bs s. bs = ?stored \<and> J L R (h + ?c) s) (\<lambda>e s. ?K e \<and> J L R h s)"
    unfolding J by (rule op_paid_ok [OF store_framed], rule triple_weaken [OF source_read_ok [OF src store_extent_framed refl]])
      (use fit in \<open>auto simp: store_error_def\<close>)
  have np: "triple (J L R (h + c)) (new_page p c data) ?Q (\<lambda>e s. ?K e \<and> J L R h s)" if "page_data C ?stored = Ok data" "0 < c" for c data
    by (rule triple_weaken [OF new_page_ok [OF J _ that(2)]]) (auto simp: po that(1))
  have dc: "triple (J L R (h + ?c)) (case sc_filter C of None \<Rightarrow> op_return (?c, ?stored) | Some f \<Rightarrow> decode_page C f ?stored ?c)
      (\<lambda>v s. decoded_ok C ?stored v \<and> J L R (h + fst v) s) (\<lambda>e s. ?K e \<and> J L R h s)"
  proof (cases "sc_filter C")
    case None
    then show ?thesis using n by (auto intro!: triple_return simp: page_data_def decoded_ok_def)
  next
    case (Some g)
    show ?thesis unfolding Some option.case
      by (rule triple_weaken [OF decode_page_ok [OF Some J]]) (auto simp: po store_error_def decode_error_def)
  qed
  show "triple (J L R h) (op_bind (store_reserve C ?c) (\<lambda>stored_charge.
     op_bind (op_paid stored_charge (source_read ?src n offset)) (\<lambda>stored.
     op_bind (case sc_filter C of
                None \<Rightarrow> op_return (stored_charge, stored)
              | Some f \<Rightarrow> decode_page C f stored stored_charge) (\<lambda>(c, data).
     new_page p c data)))) ?Q (\<lambda>e s. ?K e \<and> J L R h s)"
  proof (rule triple_seq [OF rs], goal_cases)
    case (1 c)
    show ?case unfolding 1
    proof (rule triple_seq [OF rd], goal_cases)
      case (1 stored)
      show ?case unfolding 1 by (rule triple_seq [OF dc]) (auto intro: np simp: decoded_ok_def)
    qed
  qed
qed

lemma load_ok:
  assumes src: "page_source (dc_source (sc_dir C)) img" and f: "store_fits C img" and J: "J = store_holds lim C img rts fixed"
  shows "triple (J L R h) (load C p)
    (\<lambda>(pin, bytes) s. genuine_page C img p pin \<and> 0 < bytes \<and> J L (add_mset (pin_buffer pin) R) h s)
    (\<lambda>e s. (store_error (dc_source (sc_dir C)) e \<or> page_of C img p = Err e) \<and> J L R h s)"
proof -
  let ?src = "dc_source (sc_dir C)" and ?D = "sc_dir C"
  let ?K = "\<lambda>e. store_error ?src e \<or> page_of C img p = Err e"
  have fd: "dir_fits ?D img" "sc_directory_base C = dc_base ?D" using f by (simp_all add: store_fits_def)
  have o: "triple (J L R h) (store_offset_of C p) (\<lambda>o' s. dir_offset ?D img p = Ok o' \<and> J L R h s) (\<lambda>e s. ?K e \<and> J L R h s)"
    by (rule triple_weaken [OF store_offset_ok [OF src f J]]) (auto simp: page_of_def)
  have rd: "triple (J L R h) (source_read ?src PAGE_LENGTH_LEN offset) (\<lambda>bs s. bs = slice img offset PAGE_LENGTH_LEN \<and> J L R h s) (\<lambda>e s. ?K e \<and> J L R h s)"
    if "dir_offset ?D img p = Ok offset" for offset
    unfolding J by (rule triple_weaken [OF source_read_ok [OF src store_extent_framed refl]])
      (use dir_offset_bounds [OF that fd(1)] in \<open>auto simp: store_error_def PAGE_LENGTH_LEN_def\<close>)
  show ?thesis unfolding load_def
  proof (rule triple_seq [OF o], rule triple_seq [OF rd], goal_cases)
    case (2 offset lb)
    show ?case
    proof (rule triple_seq [where \<phi> = "\<lambda>n. checked_stored_len C lb = Ok n", OF triple_pure], goal_cases)
      case (3 n)
      show ?case
      proof (rule triple_seq [where \<phi> = "\<lambda>stop. checked_add offset n = Some stop", OF triple_pure], goal_cases)
        case (3 stop)
        have lim: "triple (J L R h) (page_limit C p offset) (\<lambda>b s. page_bound C img p offset = Ok b \<and> J L R h s) (\<lambda>e s. ?K e \<and> J L R h s)"
          by (rule triple_weaken [OF page_limit_ok [OF src f J]]) (use 2 3 \<open>checked_stored_len C lb = Ok n\<close> in \<open>auto simp: page_of_def checked_add_def\<close>)
        show ?case
        proof (rule triple_seq [OF lim], goal_cases)
          case (1 b)
          note facts = 2 3 1 \<open>checked_stored_len C lb = Ok n\<close>
          show ?case
          proof (cases "stop > b")
            case True
            then show ?thesis using facts by (auto intro!: triple_fail simp: page_of_def checked_add_def)
          next
            case False
            have st: "stop = offset + n" "0 < n" using facts by (auto simp: checked_add_def checked_stored_len_def PAGE_PREFIX_LEN_def split: if_splits)
            have "stop \<le> dc_base ?D" using False page_bound_le [OF 1] fd(2) by simp
            then have "offset + n \<le> length img" "offset + n \<le> usize_max" using st fd(1) by (auto simp: dir_fits_def)
            from load_stored_ok [OF src J this _ st(2), of p] show ?thesis using False facts by (simp add: page_of_def checked_add_def)
          qed
        qed
      qed (use 2 3 in \<open>auto simp: page_of_def checked_add_def\<close>)
    qed (use 2 in \<open>simp_all add: page_of_def\<close>)
  qed
qed

subsection \<open>Pages through the store\<close>

lemma triple_map_err:
  assumes "triple P m Q F" shows "triple P (op_map_err g m) Q (\<lambda>e s. \<exists>e'. e = g e' \<and> F e' s)"
proof (rule tripleI)
  fix s
  assume "P s"
  with assms show "\<exists>r s'. op_map_err g m s = Some (r, s') \<and> (case r of Inl e \<Rightarrow> \<exists>e'. e = g e' \<and> F e' s' | Inr v \<Rightarrow> Q v s')"
    by (cases rule: tripleE) (auto simp: op_map_err_def)
qed

lemma annotate_kind [simp]: "err_kind (annotate p e) = err_kind e"
  by (simp add: annotate_def)

lemma store_page_ok:
  assumes src: "page_source (dc_source (sc_dir C)) img" and f: "store_fits C img" and J: "J = store_holds lim C img rts fixed"
  shows "triple (J {} R h) (store_page C p) (\<lambda>pin s. genuine_page C img p pin \<and> J {} (add_mset (pin_buffer pin) R) h s)
    (\<lambda>e s. (store_error (dc_source (sc_dir C)) e \<or> (\<exists>e'. page_of C img p = Err e' \<and> e = annotate p e')) \<and> J {} R h s)"
proof -
  let ?K = "\<lambda>e. store_error (dc_source (sc_dir C)) e \<or> page_of C img p = Err e"
  have rs: "triple (J {} R h) (store_reserve C n) (\<lambda>c. J {} R (h + c)) (\<lambda>e s. ?K e \<and> J {} R h s)" for n R h
    unfolding J by (rule triple_weaken [OF store_reserve_ok]) (auto simp: store_error_def)
  have "triple (J {} R h) (get_or_load (sc_alloc C) p (store_reserve C) (load C p))
      (\<lambda>pin s. genuine_page C img p pin \<and> J {} (add_mset (pin_buffer pin) R) h s) (\<lambda>e s. ?K e \<and> J {} R h s)"
    by (rule get_or_load_ok [OF rs load_ok [OF src f J] store_framed J]) (simp add: store_error_def error_budget_def)
  from triple_map_err [OF this, of "annotate p"] show ?thesis unfolding store_page_def
    by (rule triple_weaken) (auto simp: store_error_def)
qed

subsection \<open>Roots and callers\<close>

lemma pin_refs_simps [simp]: "pin_refs [] = {#}" "pin_refs (p # ps) = add_mset (pin_buffer p) (pin_refs ps)"
  by (simp_all add: pin_refs_def)

lemma pin_refs_map: "pin_refs (map snd al) = sum_list (map (\<lambda>x. {#pin_buffer (snd x)#}) al)"
  by (induction al) simp_all

lemma roots_insert:
  fixes s :: Store
  assumes s: "store_holds lim C img rts fixed L (add_mset (pin_buffer pin) R) h s" and g: "rts t = Some (pin_ordinal pin)" "genuine_page C img (pin_ordinal pin) pin"
  shows "store_holds lim C img rts fixed L (case map_of (rr_roots s) t of None \<Rightarrow> R | Some old \<Rightarrow> add_mset (pin_buffer old) R) h
    (s\<lparr>rr_roots := map_insert t pin (rr_roots s), rr_capacity := a, rr_slots := b\<rparr>)"
proof (rule store_change [OF s])
  note r = store_roots [OF s]
  have d: "distinct (map fst (rr_roots s))" using r by (simp add: roots_ok_def)
  show "roots_ok C img rts (s\<lparr>rr_roots := map_insert t pin (rr_roots s), rr_capacity := a, rr_slots := b\<rparr>)"
    using r g keys_map(3) [OF d, of t pin] by (auto simp: roots_ok_def map_insert_def)
  have refs: "add_mset (pin_buffer pin) R + pin_refs (map snd (rr_roots s))
      = (case map_of (rr_roots s) t of None \<Rightarrow> R | Some old \<Rightarrow> add_mset (pin_buffer old) R) + pin_refs (map snd (map_insert t pin (rr_roots s)))"
  proof (cases "map_of (rr_roots s) t")
    case None
    then have "filter (\<lambda>x. fst x \<noteq> t) (rr_roots s) = rr_roots s" using map_remove_absent [OF None] by (simp add: map_remove_def)
    then show ?thesis using None by (simp add: map_insert_def)
  next
    case (Some old)
    then show ?thesis using sum_map_remove [OF d Some, of "\<lambda>x. {#pin_buffer (snd x)#}"]
      by (simp add: map_insert_def map_remove_def pin_refs_map)
  qed
  fix R0 h0
  assume "mem_inv lim (mc_mem s) (R0 + (add_mset (pin_buffer pin) R + pin_refs (map snd (rr_roots s)) + pin_refs (outside s))) (h0 + (h + bookkeeping_bytes (rr_book s)))"
  then show "mem_inv lim (mc_mem (s\<lparr>rr_roots := map_insert t pin (rr_roots s), rr_capacity := a, rr_slots := b\<rparr>))
      (R0 + ((case map_of (rr_roots s) t of None \<Rightarrow> R | Some old \<Rightarrow> add_mset (pin_buffer old) R)
        + pin_refs (map snd (rr_roots (s\<lparr>rr_roots := map_insert t pin (rr_roots s), rr_capacity := a, rr_slots := b\<rparr>)))
        + pin_refs (outside (s\<lparr>rr_roots := map_insert t pin (rr_roots s), rr_capacity := a, rr_slots := b\<rparr>))))
      (h0 + (h + bookkeeping_bytes (rr_book (s\<lparr>rr_roots := map_insert t pin (rr_roots s), rr_capacity := a, rr_slots := b\<rparr>))))"
    unfolding refs by simp
qed simp_all

lemma drop_entry_ok:
  assumes "store_holds lim C img rts fixed L (case entry of None \<Rightarrow> R | Some old \<Rightarrow> add_mset (pin_buffer old) R) h s"
  shows "store_holds lim C img rts fixed L R h (drop_entry entry s)"
  using assms drop_pin_ok by (auto simp: drop_entry_def split: option.splits)

lemma retain_root_ok:
  assumes s: "store_holds lim C img rts fixed L (add_mset (pin_buffer pin) R) h s" and g: "rts t = Some (pin_ordinal pin)" "genuine_page C img (pin_ordinal pin) pin"
  shows "store_holds lim C img rts fixed L R h (retain_root C t pin s)"
proof -
  let ?want = "hash_table_peak_bytes (rr_slots s) (rr_capacity s) (length (rr_roots s)) (root_entry_bytes (sc_alloc C))"
  show ?thesis
  proof (cases "roots_settle ?want s")
    case (Inl e)
    then show ?thesis using drop_pin_ok [OF s] by (simp add: retain_root_def)
  next
    case (Inr s1)
    note s1 = roots_settle_ok(1) [OF s Inr]
    note ins = drop_entry_ok [OF roots_insert [OF s1 g]]
    show ?thesis unfolding retain_root_def Let_def Inr sum.case by (rule or_unsettled_ok, rule ins)
  qed
qed

lemma roots_remove:
  fixes s :: Store
  assumes s: "store_holds lim C img rts fixed L R h s"
  shows "store_holds lim C img rts fixed L (case map_of (rr_roots s) t of None \<Rightarrow> R | Some old \<Rightarrow> add_mset (pin_buffer old) R) h
    (s\<lparr>rr_roots := map_remove t (rr_roots s), rr_capacity := a\<rparr>)" (is "store_holds lim C img rts fixed L ?R h ?s")
proof (rule store_change [OF s])
  note r = store_roots [OF s]
  have d: "distinct (map fst (rr_roots s))" using r by (simp add: roots_ok_def)
  show "roots_ok C img rts ?s" using r keys_map(2) [OF d, of t] by (auto simp: roots_ok_def map_remove_def)
  have refs: "R + pin_refs (map snd (rr_roots s)) = ?R + pin_refs (map snd (map_remove t (rr_roots s)))"
  proof (cases "map_of (rr_roots s) t")
    case None
    then show ?thesis using map_remove_absent [OF None] by simp
  next
    case (Some old)
    then show ?thesis using sum_map_remove [OF d Some, of "\<lambda>x. {#pin_buffer (snd x)#}"] by (simp add: pin_refs_map)
  qed
  fix R0 h0
  assume "mem_inv lim (mc_mem s) (R0 + (R + pin_refs (map snd (rr_roots s)) + pin_refs (outside s))) (h0 + (h + bookkeeping_bytes (rr_book s)))"
  then show "mem_inv lim (mc_mem ?s) (R0 + (?R + pin_refs (map snd (rr_roots ?s)) + pin_refs (outside ?s))) (h0 + (h + bookkeeping_bytes (rr_book ?s)))"
    unfolding refs by simp
qed simp_all

lemma roots_fields:
  assumes "store_holds lim C img rts fixed L R h s"
  shows "store_holds lim C img rts fixed L R h (s\<lparr>rr_capacity := a, rr_slots := b\<rparr>)"
  by (rule store_change [OF assms]) (use store_roots [OF assms] in \<open>simp_all add: roots_ok_def\<close>)

lemma release_root_ok:
  assumes s: "store_holds lim C img rts fixed L R h s"
  shows "store_holds lim C img rts fixed L R h (release_root C t s)"
proof -
  let ?roots = "map_remove t (rr_roots s)" and ?A = "sc_alloc C"
  let ?R = "case map_of (rr_roots s) t of None \<Rightarrow> R | Some old \<Rightarrow> add_mset (pin_buffer old) R"
  let ?s1 = "s\<lparr>rr_roots := ?roots, rr_capacity := map_cap_remove ?A (rr_capacity s) (length ?roots)\<rparr>"
  have s1: "store_holds lim C img rts fixed L ?R h ?s1" by (rule roots_remove [OF s])
  let ?during = "roots_footprint C ?s1 + hash_table_bytes (length ?roots) (root_entry_bytes ?A)"
  let ?shrunk = "\<lambda>t. t\<lparr>rr_capacity := map_cap_shrink ?A (rr_capacity t) (length ?roots),
      rr_slots := (if map_cap_shrink ?A (rr_capacity t) (length ?roots) \<noteq> rr_capacity t then map_cap_shrink ?A (rr_capacity t) (length ?roots) else rr_slots t)\<rparr>"
  let ?s2 = "if rr_slots ?s1 > 2 * length ?roots then (case roots_settle ?during ?s1 of Inl _ \<Rightarrow> ?s1 | Inr t \<Rightarrow> ?shrunk t) else ?s1"
  have "store_holds lim C img rts fixed L ?R h (?shrunk t')" if "roots_settle ?during ?s1 = Ok t'" for t'
    by (rule roots_fields [OF roots_settle_ok(1) [OF s1 that]])
  then have s2: "store_holds lim C img rts fixed L ?R h ?s2" using s1 by (simp split: sum.split)
  show ?thesis unfolding release_root_def Let_def by (rule drop_entry_ok, rule or_unsettled_ok, rule s2)
qed

text \<open>A reference to a page the store or a caller already holds.\<close>

lemma clone_held:
  fixes s :: Store
  assumes s: "store_holds lim C img rts fixed L R h s" and p: "pin_buffer pin \<in># pin_refs (map snd (rr_roots s)) + pin_refs (outside s)"
  shows "store_holds lim C img rts fixed L (add_mset (pin_buffer pin) R) h (clone_pin pin s)"
proof (rule store_change [OF s])
  show "roots_ok C img rts (clone_pin pin s)" using store_roots [OF s] by (simp add: roots_ok_def clone_pin_def)
  fix R0 h0
  assume "mem_inv lim (mc_mem s) (R0 + (R + pin_refs (map snd (rr_roots s)) + pin_refs (outside s))) (h0 + (h + bookkeeping_bytes (rr_book s)))"
  from pin_clone_inv [OF this, of pin] p
  show "mem_inv lim (mc_mem (clone_pin pin s)) (R0 + (add_mset (pin_buffer pin) R + pin_refs (map snd (rr_roots (clone_pin pin s)))
      + pin_refs (outside (clone_pin pin s)))) (h0 + (h + bookkeeping_bytes (rr_book (clone_pin pin s))))"
    by (auto simp: clone_pin_def)
qed (simp_all add: clone_pin_def)

lemma retained_root_ok:
  assumes s: "store_holds lim C img rts fixed L R h s" and r: "retained_root t s = (r, s')"
  shows "r = None \<Longrightarrow> store_holds lim C img rts fixed L R h s'"
    "r = Some pin \<Longrightarrow> rts t = Some (pin_ordinal pin) \<and> genuine_page C img (pin_ordinal pin) pin \<and> store_holds lim C img rts fixed L (add_mset (pin_buffer pin) R) h s'"
proof -
  show "r = None \<Longrightarrow> store_holds lim C img rts fixed L R h s'" using r s by (auto simp: retained_root_def split: option.splits)
  assume "r = Some pin"
  then have m: "map_of (rr_roots s) t = Some pin" and s': "s' = clone_pin pin s" using r by (auto simp: retained_root_def split: option.splits)
  have i: "(t, pin) \<in> set (rr_roots s)" using m by (rule map_of_SomeD)
  have "pin_buffer pin \<in># pin_refs (map snd (rr_roots s)) + pin_refs (outside s)" using i by (force simp: pin_refs_def)
  from clone_held [OF s this] show "rts t = Some (pin_ordinal pin) \<and> genuine_page C img (pin_ordinal pin) pin \<and> store_holds lim C img rts fixed L (add_mset (pin_buffer pin) R) h s'"
    using i store_roots [OF s] by (auto simp: s' roots_ok_def)
qed

lemma hand_over:
  fixes s :: Store
  assumes s: "store_holds lim C img rts fixed L (add_mset (pin_buffer pin) R) h s" and g: "genuine_page C img (pin_ordinal pin) pin"
  shows "store_holds lim C img rts fixed L R h (s\<lparr>outside := pin # outside s\<rparr>)"
  by (rule store_change [OF s]) (use store_roots [OF s] g in \<open>simp_all add: roots_ok_def\<close>)

lemma pin_refs_split:
  "pin_refs (map snd ps) = pin_refs (map snd (filter (\<lambda>(i, pin). \<not> P i) ps)) + pin_refs (map snd (filter (\<lambda>(i, pin). P i) ps))"
  by (induction ps) auto

lemma callers_drop_ok:
  assumes s: "store_holds lim C img rts fixed L R h s"
  shows "store_holds lim C img rts fixed L R h (callers_drop C s)"
proof (rule store_change [OF s])
  let ?ps = "zip [0..<length (outside s)] (outside s)" and ?P = "\<lambda>(i, pin). sc_keeps C (store_turn s) i"
  let ?kept = "map snd (filter ?P ?ps)" and ?gone = "map snd (filter (\<lambda>(i, pin). \<not> sc_keeps C (store_turn s) i) ?ps)"
  have "map snd ?ps = outside s" by simp
  then have refs: "pin_refs (outside s) = pin_refs ?gone + pin_refs ?kept"
    using pin_refs_split [of ?ps "sc_keeps C (store_turn s)"] by simp
  have c: "callers_drop C s = s\<lparr>outside := ?kept, store_turn := store_turn s + 1, mc_mem := fold pin_drop ?gone (mc_mem s)\<rparr>"
    by (simp add: callers_drop_def Let_def)
  have "set ?kept \<subseteq> set (outside s)" by (auto dest: set_zip_rightD)
  then show "roots_ok C img rts (callers_drop C s)" using store_roots [OF s] by (auto simp: roots_ok_def c)
  show "mc_cache (callers_drop C s) = mc_cache s" "pd_chunks (callers_drop C s) = pd_chunks s" by (simp_all add: c)
  fix R0 h0
  assume "mem_inv lim (mc_mem s) (R0 + (R + pin_refs (map snd (rr_roots s)) + pin_refs (outside s))) (h0 + (h + bookkeeping_bytes (rr_book s)))"
  then have "mem_inv lim (fold pin_drop ?gone (mc_mem s)) (R0 + (R + pin_refs (map snd (rr_roots s)) + pin_refs ?kept)) (h0 + (h + bookkeeping_bytes (rr_book s)))"
    unfolding refs by (intro fold_drop_inv) (simp add: ac_simps)
  then show "mem_inv lim (mc_mem (callers_drop C s)) (R0 + (R + pin_refs (map snd (rr_roots (callers_drop C s))) + pin_refs (outside (callers_drop C s))))
      (h0 + (h + bookkeeping_bytes (rr_book (callers_drop C s))))"
    by (simp add: c)
qed


subsection \<open>The store keeps the contract of the trees\<close>

definition disk :: "StoreConfig \<Rightarrow> bytes \<Rightarrow> page_ordinal \<Rightarrow> bytes option" where
  "disk C img p = (case page_of C img p of Inr bs \<Rightarrow> Some bs | Inl _ \<Rightarrow> None)"

definition store_inv :: "nat \<Rightarrow> StoreConfig \<Rightarrow> bytes \<Rightarrow> (nat \<Rightarrow> page_ordinal option) \<Rightarrow> nat \<Rightarrow> Store \<Rightarrow> bool" where
  "store_inv lim C img rts fixed s \<longleftrightarrow>
     page_source (dc_source (sc_dir C)) img \<and> store_fits C img \<and> store_holds lim C img rts fixed {} {#} 0 s"

lemma genuine_disk: "genuine_page C img p pin \<longleftrightarrow> pin_ordinal pin = p \<and> disk C img p = Some (pin_bytes pin)"
  by (auto simp: genuine_page_def disk_def split: sum.split)

lemma store_page_yields:
  assumes d: "disk C img p = Some bs"
  shows "yields (store_inv lim C img rts fixed) (store_error (dc_source (sc_dir C))) (\<lambda>pin. pin_ordinal pin = p \<and> pin_bytes pin = bs)
    (st_page (store_ops C) p)"
  unfolding yields_def
proof (intro allI impI)
  fix s
  assume i: "store_inv lim C img rts fixed s"
  then have src: "page_source (dc_source (sc_dir C)) img" and f: "store_fits C img"
    and s: "store_holds lim C img rts fixed {} {#} 0 (callers_drop C s)" by (auto simp: store_inv_def intro: callers_drop_ok)
  from store_page_ok [OF src f refl, of lim rts fixed "{#}" 0 p] s
  show "\<exists>r s'. st_page (store_ops C) p s = Some (r, s') \<and> store_inv lim C img rts fixed s'
      \<and> (case r of Inl e \<Rightarrow> store_error (dc_source (sc_dir C)) e | Inr pin \<Rightarrow> pin_ordinal pin = p \<and> pin_bytes pin = bs)"
  proof (cases rule: tripleE)
    case (ok pin t)
    then have "genuine_page C img (pin_ordinal pin) pin" by (auto simp: genuine_page_def)
    from hand_over [OF _ this, of lim rts fixed "{}" "{#}" 0 t] ok show ?thesis using src f d
      by (auto simp: store_ops_def op_bind_def store_inv_def genuine_disk)
  next
    case (err e t)
    then show ?thesis using src f d by (auto simp: store_ops_def op_bind_def store_inv_def disk_def)
  qed
qed

lemma hand_out_yields:
  assumes i: "store_inv lim C img rts fixed s" and q: "q = (r, t)" "hand_out q = (r', s')"
    and none: "r = None \<Longrightarrow> store_holds lim C img rts fixed {} {#} 0 t"
    and some: "\<And>pin. r = Some pin \<Longrightarrow> Q pin \<and> genuine_page C img (pin_ordinal pin) pin \<and> store_holds lim C img rts fixed {} {#pin_buffer pin#} 0 t"
  shows "store_inv lim C img rts fixed s' \<and> (\<forall>pin. r' = Some pin \<longrightarrow> Q pin)"
proof (cases r)
  case None
  then show ?thesis using i q none by (auto simp: hand_out_def store_inv_def)
next
  case (Some pin)
  then show ?thesis using i q some [OF Some] hand_over [of lim C img rts fixed "{}" pin "{#}" 0 t] by (auto simp: hand_out_def store_inv_def)
qed

interpretation store: page_store "store_ops C" "store_inv lim C img rts fixed" "disk C img" "store_error (dc_source (sc_dir C))" rts
  for lim C img rts fixed
proof
  let ?x = "dir_extent (sc_dir C) img (store_extent C img rts fixed)"
  fix s s' p r
  assume i: "store_inv lim C img rts fixed s" and r: "st_page_cached (store_ops C) p s = (r, s')"
  have s: "store_holds lim C img rts fixed {} {#} 0 (callers_drop C s)" using i by (auto simp: store_inv_def intro: callers_drop_ok)
  obtain q t where q: "cache_get p (callers_drop C s) = (q, t)" by fastforce
  have "machine_ok lim (genuine_page C img) {} (fst (?x (callers_drop C s))) (fst (snd (?x (callers_drop C s)))) (callers_drop C s)"
    using s by (simp add: holds_def)
  note g = cache_get_ok [OF this q]
  show "store_inv lim C img rts fixed s' \<and> (\<forall>pin. r = Some pin \<longrightarrow> pin_ordinal pin = p \<and> disk C img p = Some (pin_bytes pin))"
  proof (rule hand_out_yields [OF i q])
    show "hand_out (cache_get p (callers_drop C s)) = (r, s')" using r by (simp add: store_ops_def)
    show "store_holds lim C img rts fixed {} {#} 0 t" if "q = None"
      using g(2) [OF that] by (intro holds_machine [OF store_framed s g(1)]) simp
    show "(pin_ordinal pin = p \<and> disk C img p = Some (pin_bytes pin)) \<and> genuine_page C img (pin_ordinal pin) pin \<and> store_holds lim C img rts fixed {} {#pin_buffer pin#} 0 t" if "q = Some pin" for pin
      using g(3) [OF that] by (intro conjI holds_machine [OF store_framed s g(1)]) (simp_all add: genuine_disk)
  qed
next
  fix s s' t r
  assume i: "store_inv lim C img rts fixed s" and r: "st_retained_root (store_ops C) t s = (r, s')"
  have s: "store_holds lim C img rts fixed {} {#} 0 (callers_drop C s)" using i by (auto simp: store_inv_def intro: callers_drop_ok)
  obtain q u where q: "retained_root t (callers_drop C s) = (q, u)" by fastforce
  note g = retained_root_ok [OF s q]
  show "store_inv lim C img rts fixed s' \<and> (\<forall>pin. r = Some pin \<longrightarrow> rts t = Some (pin_ordinal pin) \<and> disk C img (pin_ordinal pin) = Some (pin_bytes pin))"
  proof (rule hand_out_yields [OF i q])
    show "hand_out (retained_root t (callers_drop C s)) = (r, s')" using r by (simp add: store_ops_def)
  qed (use g in \<open>simp_all add: genuine_disk\<close>)
next
  fix s t and pin :: PagePin
  assume i: "store_inv lim C img rts fixed s" and p: "rts t = Some (pin_ordinal pin)" "disk C img (pin_ordinal pin) = Some (pin_bytes pin)"
  have "store_holds lim C img rts fixed {} {#} 0 (retain_root C t pin (clone_pin pin s))" if "pin \<in> set (outside s)"
    using i p that by (intro retain_root_ok clone_held) (auto simp: store_inv_def genuine_disk pin_refs_def)
  then show "store_inv lim C img rts fixed (st_retain_root (store_ops C) t pin s)" using i by (auto simp: store_ops_def store_inv_def)
next
  fix s t and pin :: PagePin
  assume i: "store_inv lim C img rts fixed s"
  have "store_holds lim C img rts fixed {} {#} 0 (s\<lparr>mc_mem := mark_digests_checked pin t (mc_mem s)\<rparr>)"
    using i by (intro holds_mem [OF store_framed]) (auto simp: store_inv_def intro: mark_inv)
  then show "store_inv lim C img rts fixed (st_mark_digests_checked (store_ops C) pin t s)" using i by (simp add: store_ops_def store_inv_def)
qed (rule store_page_yields)

subsection \<open>A store from the start\<close>

text \<open>The store as it is opened: \<open>fixed\<close> bytes of the budget are reserved for its own memory.\<close>

definition store_new :: "nat \<Rightarrow> nat \<Rightarrow> nat \<Rightarrow> nat \<Rightarrow> Store" where
  "store_new lim fixed capacity shards =
     \<lparr>mc_mem = memory_new \<lparr>limit = lim, used = fixed, peak = fixed\<rparr>, mc_cache = cache_new capacity shards,
      pd_chunks = [], pd_tick = 0, io_clock = 0,
      rr_roots = [], rr_slots = 0, rr_book = None, rr_capacity = 0, outside = [], store_turn = 0\<rparr>"

lemma shard_new_inv: "shard_inv G {} shard_new" "shard_refs shard_new = {#}" "shard_book shard_new = 0"
  by (simp_all add: shard_inv_def shard_new_def shard_refs_def shard_book_def bookkeeping_bytes_def)

lemma next_power_of_two_pos: "0 < next_power_of_two n"
  using next_power_of_two(2) [of n] by auto

lemma store_new_inv:
  assumes "page_source (dc_source (sc_dir C)) img" "store_fits C img" "fixed \<le> lim" "lim \<le> usize_max"
  shows "store_inv lim C img rts fixed (store_new lim fixed capacity shards)"
proof -
  have sum: "sum_list (replicate n {#}) = ({#} :: nat multiset)" for n by (induction n) simp_all
  have "shard_count shards \<noteq> 0" using next_power_of_two_pos by (simp add: shard_count_def)
  then show ?thesis using assms
    by (simp add: sum shard_new_inv sum_list_replicate store_inv_def holds_def machine_ok_def cache_ok_def store_new_def cache_new_def Let_def dir_extent_def store_extent_def
        roots_ok_def pin_refs_def bookkeeping_bytes_def mem_inv_def memory_new_def accounts_def live_bytes_def fun_eq_iff)
qed

text \<open>What callers can do with the store, in any order.\<close>

inductive store_step :: "StoreConfig \<Rightarrow> (nat \<Rightarrow> page_ordinal option) \<Rightarrow> Store \<Rightarrow> Store \<Rightarrow> bool" for C rts where
  step_page: "st_page (store_ops C) p s = Some (r, s') \<Longrightarrow> store_step C rts s s'"
| step_cached: "st_page_cached (store_ops C) p s = (q, s') \<Longrightarrow> store_step C rts s s'"
| step_root: "st_retained_root (store_ops C) t s = (q, s') \<Longrightarrow> store_step C rts s s'"
| step_retain: "rts t = Some (pin_ordinal pin) \<Longrightarrow> store_step C rts s (st_retain_root (store_ops C) t pin s)"
| step_release: "store_step C rts s (release_root C t s)"
| step_mark: "store_step C rts s (st_mark_digests_checked (store_ops C) pin t s)"

text \<open>Every answer of \<open>page\<close>, also for a page that cannot be read.\<close>

lemma page_answers:
  assumes i: "store_inv lim C img rts fixed s"
  shows "\<exists>r s'. st_page (store_ops C) p s = Some (r, s') \<and> store_inv lim C img rts fixed s'
    \<and> (case r of Inr pin \<Rightarrow> pin_ordinal pin = p \<and> page_of C img p = Ok (pin_bytes pin)
       | Inl e \<Rightarrow> store_error (dc_source (sc_dir C)) e \<or> (\<exists>e'. page_of C img p = Err e' \<and> e = annotate p e'))"
proof -
  have src: "page_source (dc_source (sc_dir C)) img" and f: "store_fits C img"
    and s: "store_holds lim C img rts fixed {} {#} 0 (callers_drop C s)" using i by (auto simp: store_inv_def intro: callers_drop_ok)
  from store_page_ok [OF src f refl, of lim rts fixed "{#}" 0 p] s
  show ?thesis
  proof (cases rule: tripleE)
    case (ok pin t)
    then have "genuine_page C img (pin_ordinal pin) pin" by (auto simp: genuine_page_def)
    from hand_over [OF _ this, of lim rts fixed "{}" "{#}" 0 t] ok show ?thesis using src f
      by (auto simp: store_ops_def op_bind_def store_inv_def genuine_page_def)
  next
    case (err e t)
    then show ?thesis using src f by (auto simp: store_ops_def op_bind_def store_inv_def)
  qed
qed

lemma store_step_inv:
  assumes i: "store_inv lim C img rts fixed s" and st: "store_step C rts s s'"
  shows "store_inv lim C img rts fixed s'"
  using st
proof (cases rule: store_step.cases)
  case (step_page p r)
  then show ?thesis using page_answers [OF i, of p] by auto
next
  case (step_cached p q)
  then show ?thesis using store.cached_sound [OF i] by blast
next
  case (step_root t q)
  then show ?thesis using store.retained_sound [OF i] by blast
next
  case (step_retain t pin)
  show ?thesis
  proof (cases "pin \<in> set (outside s)")
    case True
    have "roots_ok C img rts s" using i store_roots by (auto simp: store_inv_def)
    then have "disk C img (pin_ordinal pin) = Some (pin_bytes pin)" using True by (auto simp: roots_ok_def genuine_disk)
    then show ?thesis using store.retain_sound [OF i] step_retain by blast
  next
    case False
    then show ?thesis using i step_retain by (simp add: store_ops_def)
  qed
next
  case (step_release t)
  then show ?thesis using i release_root_ok by (auto simp: store_inv_def)
next
  case (step_mark pin t)
  then show ?thesis using store.mark_sound [OF i] by simp
qed

subsection \<open>Properties\<close>

text \<open>A file with one blob page, and a store on it.\<close>

definition small_page :: bytes where
  "small_page = i32_to_le 29 @ i32_to_le 0 @ i32_to_le 0 @ i64_to_le (- 1) @ i64_to_le (- 1) @ [7]"

definition small_file :: bytes where
  "small_file = replicate 26 0 @ small_page @ i64_to_le 26"

definition small_config :: StoreConfig where
  "small_config = \<lparr>sc_dir = page_directory_new (memory_source small_file) 55 1 512 4, sc_filter = None,
     sc_max_stored_page_bytes = 1000, sc_max_decoded_page_bytes = 1000, sc_max_tree_depth = 64, sc_directory_base = 55,
     sc_alloc = one_alloc, sc_vec_capacity = (\<lambda>n. n), sc_keeps = (\<lambda>n i. i < n)\<rparr>"

lemma small_fits:
  "page_source (dc_source (sc_dir small_config)) small_file" "store_fits small_config small_file"
  by (simp_all add: small_config_def page_directory_new_def memory.page_source_axioms store_fits_def dir_fits_def small_file_def small_page_def
      DIRECTORY_SLOT_LEN_def usize_max_def)

lemma small_inv: "store_inv 5000 small_config small_file rts 100 (store_new 5000 100 2000 2)"
  by (rule store_new_inv [OF small_fits]) (simp_all add: usize_max_def)

text \<open>C2: Reading a page through the store is reading it from the file.  \<open>page_of\<close> says what page \<open>p\<close> of
  the file is, or why it cannot be read, with no cache, no directory chunks and no budget.
  Whatever is cached, evicted or held by callers, \<open>page\<close> returns after finitely many steps, and
  returns exactly that page, or exactly that error with the page noted in it, or an error that
  is about the machine and not the file: no memory, or a source that can fail.\<close>
theorem page_refines_file:
  assumes "store_inv lim C img rts fixed s"
  shows "\<exists>r s'. st_page (store_ops C) p s = Some (r, s') \<and> store_inv lim C img rts fixed s'
    \<and> (case r of Inr pin \<Rightarrow> pin_ordinal pin = p \<and> page_of C img p = Ok (pin_bytes pin)
       | Inl e \<Rightarrow> store_error (dc_source (sc_dir C)) e \<or> (\<exists>e'. page_of C img p = Err e' \<and> e = annotate p e'))"
  by (rule page_answers [OF assms])

theorem page_refines_file_witness:
  "\<exists>r s'. st_page (store_ops small_config) 0 (store_new 5000 100 2000 2) = Some (r, s')
    \<and> (case r of Inr pin \<Rightarrow> pin_ordinal pin = 0 \<and> page_of small_config small_file 0 = Ok (pin_bytes pin)
       | Inl e \<Rightarrow> store_error (memory_source small_file) e \<or> (\<exists>e'. page_of small_config small_file 0 = Err e' \<and> e = annotate 0 e'))"
proof -
  have src: "dc_source (sc_dir small_config) = memory_source small_file" by (simp add: small_config_def page_directory_new_def)
  show ?thesis using page_refines_file [OF small_inv [of "\<lambda>_. None"], of 0] unfolding src by blast
qed

text \<open>C3: The budget is never exceeded, and nothing is lost from it.  However callers read pages, look
  into the cache, keep and release roots and drop the pins they were given, the bytes taken
  from the budget are at every point the charges of the buffers somebody still refers to, of the
  shards' tables, of the directory chunks, of the table of roots, and of the store's fixed
  memory, and never more than the limit; and every buffer's count is the number of references
  the cache, the roots and the callers hold to it.\<close>
theorem store_within_budget:
  assumes src: "page_source (dc_source (sc_dir C)) img" and f: "store_fits C img" and l: "fixed \<le> lim" "lim \<le> usize_max"
    and run: "rtranclp (store_step C rts) (store_new lim fixed capacity shards) s"
  defines "m \<equiv> mc_mem s" and "sh \<equiv> pc_shards (mc_cache s)"
  shows "used (mem_budget m) = live_bytes m + (sum_list (map shard_book sh) + sum_list (map ch_charge (pd_chunks s))
      + bookkeeping_bytes (rr_book s) + fixed)
    \<and> used (mem_budget m) \<le> lim \<and> peak (mem_budget m) \<le> lim
    \<and> mem_count m = count (sum_list (map shard_refs sh) + pin_refs (map snd (rr_roots s)) + pin_refs (outside s))"
proof -
  have i: "store_inv lim C img rts fixed s" using run
    by (induction rule: rtranclp_induct) (auto intro: store_new_inv [OF src f l] store_step_inv)
  let ?h = "sum_list (map shard_book sh) + (fixed + bookkeeping_bytes (rr_book s) + sum_list (map ch_charge (pd_chunks s)))"
  have m: "mem_inv lim m (sum_list (map shard_refs sh) + (pin_refs (map snd (rr_roots s)) + pin_refs (outside s))) ?h"
    using i by (simp add: store_inv_def holds_def machine_ok_def cache_ok_def dir_extent_def store_extent_def m_def sh_def)
  show ?thesis using mem_inv_bounded [OF m] m by (simp add: mem_inv_def add.assoc)
qed

theorem store_within_budget_witness:
  "\<exists>r s'. st_page (store_ops small_config) 0 (store_new 5000 100 2000 2) = Some (r, s') \<and> used (mem_budget (mc_mem s')) \<le> 5000"
proof -
  obtain r s' where r: "st_page (store_ops small_config) 0 (store_new 5000 100 2000 2) = Some (r, s')"
    using page_answers [OF small_inv [of "\<lambda>_. None"], of 0] by blast
  then have "rtranclp (store_step small_config (\<lambda>_. None)) (store_new 5000 100 2000 2) s'" by (blast intro: step_page)
  from store_within_budget [OF small_fits _ _ this] r show ?thesis by (simp add: usize_max_def)
qed

text \<open>C5: A reservation is refused only when there is nothing left to give up.  For a request that
  fits the budget at all, \<open>reserve\<close> either hands out the charge, or it has dropped every cached
  page, every directory chunk and every retained root: the number of rounds it allows itself is
  always enough.  The conditions are that the counts involved fit a machine word.\<close>
theorem reserve_exhausts:
  assumes s: "store_holds lim C img rts fixed L R h s" and n: "n \<le> lim"
    and rings: "rings_short (pc_shards (mc_cache s))" and fit: "cache_len (mc_cache s) + chunks_held s + EVICT_ROUNDS \<le> usize_max"
  shows "\<exists>r s'. store_reserve C n s = Some (r, s') \<and> (case r of
      Inr c \<Rightarrow> c = n \<and> store_holds lim C img rts fixed L R (h + n) s'
    | Inl e \<Rightarrow> is_retryable e \<and> cache_len (mc_cache s') = 0 \<and> pd_chunks s' = [] \<and> rr_roots s' = []
        \<and> store_holds lim C img rts fixed L R h s')"
proof (cases "mem_reserve n (mc_mem s)")
  case (Inr x)
  then show ?thesis using holds_reserve(1) [OF store_framed s, of n] by (cases x) (simp add: store_reserve_def)
next
  case (Inl e)
  note rf = holds_refused [OF s Inl]
  let ?k = "saturating_add (saturating_add (cache_len (mc_cache s)) (chunks_held s)) EVICT_ROUNDS"
  have k: "?k = cache_len (mc_cache s) + chunks_held s + EVICT_ROUNDS" using fit by (simp add: saturating_add_def)
  then have "0 < ?k" "reclaimable s < ?k" by (simp_all add: EVICT_ROUNDS_def reclaimable_def chunks_held_def)
  moreover obtain r s' where r: "reserve_rounds C n ?k None s = (r, s')" by fastforce
  ultimately have post: "round_post lim C img rts fixed L R h n r s'" "is_ok r \<or> reclaimable s' = 0"
    using reserve_rounds_ok [OF s _ _ r] rings rf(2) by simp_all
  have eq: "store_reserve C n s = Some (r, s')" using Inl rf(1) n r by (simp add: store_reserve_def refused_def)
  show ?thesis
  proof (cases r)
    case (Inl e')
    then have "cache_len (mc_cache s') = 0 \<and> pd_chunks s' = [] \<and> rr_roots s' = []"
      using post(2) by (auto simp: is_ok_def reclaimable_def split: if_splits)
    then show ?thesis using eq Inl post(1) n by (simp add: round_post_def refused_def)
  next
    case (Inr c)
    then show ?thesis using eq post(1) by (simp add: round_post_def)
  qed
qed

theorem reserve_exhausts_witness:
  "\<exists>r s'. store_reserve small_config 4000 (store_new 5000 100 2000 2) = Some (r, s') \<and> (case r of
      Inr c \<Rightarrow> c = 4000 | Inl e \<Rightarrow> cache_len (mc_cache s') = 0 \<and> pd_chunks s' = [] \<and> rr_roots s' = [])"
proof -
  let ?s = "store_new 5000 100 2000 2"
  have s: "store_holds 5000 small_config small_file (\<lambda>_. None) 100 {} {#} 0 ?s" using small_inv by (simp add: store_inv_def)
  have "rings_short (pc_shards (mc_cache ?s))" "cache_len (mc_cache ?s) + chunks_held ?s + EVICT_ROUNDS \<le> usize_max"
    by (auto simp: rings_short_def store_new_def cache_new_def Let_def shard_new_def usize_max_def cache_len_def chunks_held_def EVICT_ROUNDS_def
        sum_list_replicate)
  from reserve_exhausts [OF s _ this, of 4000] show ?thesis by (auto split: sum.splits)
qed

end
