(* ===== verification/Table.thy ===== *)
theory Table
  imports Tree_Search Store_Spec
begin

text \<open>
  Table lookups (\<^verbatim>\<open>get\<close>, \<^verbatim>\<open>get_cached\<close> and \<^verbatim>\<open>contains_key\<close> of \<^verbatim>\<open>Table\<close> in
  \<^verbatim>\<open>crates/drydb/src/db.rs\<close>), over any page store that holds a built tree, and the composition of the
  parts below: the tree writer's pages and the sink's directory make a file (\<open>page_file\<close>) whose
  pages the store reads back (\<open>file_page\<close>), so a lookup through the store, its cache and its budget
  answers with the rows that were pushed.
\<close>

subsection \<open>Lookups\<close>

datatype CachedLookup = NotCached | Missing | CachedValue ValueGuard

definition found_entry :: "PagePin \<Rightarrow> nat \<Rightarrow> LeafEntry result" where
  "found_entry pin index = and_then (pin_view pin) (\<lambda>v. leaf_entry v index)"

definition table_get :: "'s StoreOps \<Rightarrow> Tree \<Rightarrow> bytes \<Rightarrow> ('s, ValueGuard option) op" where
  "table_get S T key =
     op_bind (op_lift (validate_key (tree_encoding T) key)) (\<lambda>_.
     op_bind (tree_find S T key) (\<lambda>found.
     case found of
       None \<Rightarrow> op_return None
     | Some (pin, index) \<Rightarrow>
         op_bind (op_lift (found_entry pin index)) (\<lambda>entry.
         op_bind (resolve_value S pin entry) (\<lambda>(value_pin, start, stop).
         op_bind (op_lift (into_guard value_pin start stop)) (\<lambda>g.
         op_return (Some g))))))"

definition get_cached :: "'s StoreOps \<Rightarrow> Tree \<Rightarrow> bytes \<Rightarrow> ('s, CachedLookup) op" where
  "get_cached S T key =
     op_bind (op_lift (validate_key (tree_encoding T) key)) (\<lambda>_.
     op_bind (find_cached S T key) (\<lambda>answer.
     case answer of
       None \<Rightarrow> op_return NotCached
     | Some None \<Rightarrow> op_return Missing
     | Some (Some (pin, index)) \<Rightarrow>
         op_bind (op_lift (found_entry pin index)) (\<lambda>entry.
         op_bind (resolve_value_cached S pin entry) (\<lambda>resolved.
         case resolved of
           None \<Rightarrow> op_return NotCached
         | Some (value_pin, start, stop) \<Rightarrow>
             op_bind (op_lift (into_guard value_pin start stop)) (\<lambda>g. op_return (CachedValue g))))))"

definition contains_key :: "'s StoreOps \<Rightarrow> Tree \<Rightarrow> bytes \<Rightarrow> ('s, bool) op" where
  "contains_key S T key =
     op_bind (op_lift (validate_key (tree_encoding T) key)) (\<lambda>_.
     op_bind (tree_find S T key) (\<lambda>found. op_return (found \<noteq> None)))"

context tree_store
begin

lemma into_guard_range:
  assumes "range_holds val (pin, a, b)"
  shows "\<exists>g. into_guard pin a b = Ok g \<and> guard_bytes g = val"
  using assms by (auto simp: range_holds_def into_guard_def guard_bytes_def pin_len_def)

text \<open>The first entry equal to a key is the entry of that key.\<close>

lemma first_match_lookup:
  assumes d: "on_disk T lay psize gs ht rt kvs" and key: "valid key"
  shows "case first_match OpEqual key kvs of None \<Rightarrow> map_of kvs key = None
    | Some i \<Rightarrow> i < length kvs \<and> map_of kvs key = Some (snd (kvs ! i))"
proof -
  have st: "ascending_keys (map fst kvs)" using on_disk_built(2) [OF d] by (simp add: stored_keys_def)
  then have v: "\<And>i. i < length kvs \<Longrightarrow> valid (fst (kvs ! i))" by (auto simp: ascending_keys_def)
  have eq: "order_of (fst (kvs ! i)) key = Equal \<longleftrightarrow> fst (kvs ! i) = key" if "i < length kvs" for i
    using compare_order_of [OF v [OF that] key] compare_Equal [OF v [OF that] key] by auto
  have less: "fst (kvs ! i) \<noteq> fst (kvs ! j)" if "i < j" "j < length kvs" for i j
    using ascending_nth [OF st that(1)] compare_Equal [OF v [of i] v [of j]] that by auto
  have dist: "distinct (map fst kvs)"
    unfolding distinct_conv_nth
  proof (intro allI impI)
    fix i j assume "i < length (map fst kvs)" "j < length (map fst kvs)" "i \<noteq> j"
    then show "map fst kvs ! i \<noteq> map fst kvs ! j" using less [of i j] less [of j i] by (cases i j rule: linorder_cases) auto
  qed
  show ?thesis
  proof (cases "first_match OpEqual key kvs")
    case None
    then have "\<And>i. i < length kvs \<Longrightarrow> fst (kvs ! i) \<noteq> key" using eq by (auto simp: first_match_def find_None_iff op_matches_def)
    then have "map_of kvs key = None" by (metis fst_conv in_set_conv_nth map_of_SomeD not_Some_eq)
    then show ?thesis using None by simp
  next
    case (Some i)
    then have i: "i < length kvs" "fst (kvs ! i) = key" using eq by (auto simp: first_match_def find_Some_iff op_matches_def)
    then have "(key, snd (kvs ! i)) \<in> set kvs" by (metis nth_mem prod.collapse)
    then show ?thesis using Some i dist by (simp add: map_of_is_SomeI)
  qed
qed

lemma located_cached:
  assumes d: "on_disk T lay psize gs ht rt kvs" and l: "located gs pin j i" and s: "I s"
    and small: "PAGE_PREFIX_LEN + length (snd (kvs ! i)) < 2 ^ 31"
  shows "\<exists>e r s'. found_entry pin j = Ok e \<and> resolve_value_cached S pin e s = Some (Ok r, s') \<and> I s'
    \<and> (\<forall>x. r = Some x \<longrightarrow> range_holds (snd (kvs ! i)) x)"
proof -
  obtain k where k: "k < length (nodes gs 0)" "genuine (nodes gs 0 ! k) pin" "j < length (leaf_entries gs k)" "i = leaf_start gs k + j"
    using l by (auto simp: located_def)
  note kv = on_disk_values [OF d k(1,3), folded k(4)]
  have p: "nodes gs 0 ! k \<in> set (nodes gs 0)" using k(1) by simp
  note na = node_at [OF d le0 p]
  obtain e where e: "leaf_entry (node_view lay (gs ! (nodes gs 0 ! k))) j = Ok e"
    "(\<exists>a. le_value e = Inline a (length (snd (kvs ! i))) \<and> a + length (snd (kvs ! i)) \<le> pin_len pin
        \<and> slice (pin_bytes pin) a (length (snd (kvs ! i))) = snd (kvs ! i))
     \<or> (\<exists>p. le_value e = Overflow p \<and> disk p = Some (blob_image (snd (kvs ! i))))"
    using leaf_value_at [OF d k(1,3,2)] small by (auto simp: kv(1) plain_def)
  have fe: "found_entry pin j = Ok e" using na(1) [OF k(2)] e(1) by (simp add: found_entry_def)
  have "\<exists>r s'. resolve_value_cached S pin e s = Some (Ok r, s') \<and> I s' \<and> (\<forall>x. r = Some x \<longrightarrow> range_holds (snd (kvs ! i)) x)"
    using e(2)
  proof (elim disjE exE conjE)
    fix a
    assume "le_value e = Inline a (length (snd (kvs ! i)))" "a + length (snd (kvs ! i)) \<le> pin_len pin"
      "slice (pin_bytes pin) a (length (snd (kvs ! i))) = snd (kvs ! i)"
    then show ?thesis using s by (simp add: resolve_value_cached_def range_holds_def)
  next
    fix q
    assume q: "le_value e = Overflow q" "disk q = Some (blob_image (snd (kvs ! i)))"
    obtain r t where r: "st_page_cached S q s = (r, t)" by fastforce
    note cs = cached_sound [OF s r]
    show ?thesis
    proof (cases r)
      case None
      then show ?thesis using q(1) r cs by (simp add: resolve_value_cached_def)
    next
      case (Some bp)
      then have "pin_bytes bp = blob_image (snd (kvs ! i))" using cs q(2) by simp
      then obtain x where "blob_from_pin bp = Ok x" "range_holds (snd (kvs ! i)) x" using blob_pin_ok [OF small] by blast
      then show ?thesis using Some q(1) r cs by (cases x) (simp add: resolve_value_cached_def)
    qed
  qed
  then show ?thesis using fe by blast
qed

lemma finds_cases:
  assumes d: "on_disk T lay psize gs ht rt kvs" and key: "valid key" and f: "finds gs (first_match OpEqual key kvs) r"
  obtains "r = None" "map_of kvs key = None"
  | pin j i where "r = Some (pin, j)" "located gs pin j i" "map_of kvs key = Some (snd (kvs ! i))"
  using first_match_lookup [OF d key] f by (auto simp: finds_def split: option.splits)

definition values_fit :: "(bytes \<times> bytes) list \<Rightarrow> bool" where
  "values_fit kvs \<longleftrightarrow> (\<forall>kv \<in> set kvs. PAGE_PREFIX_LEN + length (snd kv) < 2 ^ 31)"

lemma table_get_ok:
  assumes d: "on_disk T lay psize gs ht rt kvs" and key: "valid key" "validate_key E key = Ok ()" and fit: "values_fit kvs"
  shows "yields I SE (\<lambda>r. map_option guard_bytes r = map_of kvs key) (table_get S T key)"
  unfolding table_get_def on_disk_built(3) [OF d] key(2)
proof (rule yields_bind [OF yields_lift [where Q = "\<lambda>_. True"]]; (simp; fail)?)
  show "yields I SE (\<lambda>r. map_option guard_bytes r = map_of kvs key) (op_bind (tree_find S T key) (\<lambda>found.
     case found of None \<Rightarrow> op_return None
     | Some (pin, index) \<Rightarrow> op_bind (op_lift (found_entry pin index)) (\<lambda>entry.
         op_bind (resolve_value S pin entry) (\<lambda>(value_pin, start, stop).
         op_bind (op_lift (into_guard value_pin start stop)) (\<lambda>g. op_return (Some g))))))"
    unfolding tree_find_def
  proof (rule yields_bind [OF search_ok [OF d key(1)]], goal_cases)
    case (1 r)
    from d key(1) 1 show ?case
    proof (cases rule: finds_cases)
      case 1
      then show ?thesis by (simp add: yields_return)
    next
      case (2 pin j i)
      note le = located_entry [OF d 2(2)]
      have small: "PAGE_PREFIX_LEN + length (snd (kvs ! i)) < 2 ^ 31" using fit le(1) by (simp add: values_fit_def)
      then obtain e where e: "found_entry pin j = Ok e" "yields I SE (range_holds (snd (kvs ! i))) (resolve_value S pin e)"
        using le(2) by (auto simp: found_entry_def)
      show ?thesis unfolding 2(1) option.case prod.case
      proof (rule yields_bind [OF yields_lift [where Q = "\<lambda>x. x = e"]])
        fix x assume "x = e"
        then show "yields I SE (\<lambda>r. map_option guard_bytes r = map_of kvs key) (op_bind (resolve_value S pin x) (\<lambda>(value_pin, start, stop).
            op_bind (op_lift (into_guard value_pin start stop)) (\<lambda>g. op_return (Some g))))"
        proof (simp only:, intro yields_bind [OF e(2)], goal_cases)
          case (1 y)
          obtain vp a b where y: "y = (vp, a, b)" by (cases y)
          obtain g where g: "into_guard vp a b = Ok g" "guard_bytes g = snd (kvs ! i)" using into_guard_range 1 y by blast
          show ?case unfolding y prod.case g(1) by (simp add: op_bind_def op_lift_def op_return_def yields_def g(2) 2(3))
        qed
      qed (use e(1) in simp_all)
    qed
  qed
qed

lemma contains_key_ok:
  assumes d: "on_disk T lay psize gs ht rt kvs" and key: "valid key" "validate_key E key = Ok ()"
  shows "yields I SE (\<lambda>r. r \<longleftrightarrow> key \<in> fst ` set kvs) (contains_key S T key)"
  unfolding contains_key_def on_disk_built(3) [OF d] key(2) tree_find_def
proof (rule yields_bind [OF yields_lift [where Q = "\<lambda>_. True"]]; (simp; fail)?)
  show "yields I SE (\<lambda>r. r \<longleftrightarrow> key \<in> fst ` set kvs) (op_bind (search S T key OpEqual) (\<lambda>found. op_return (found \<noteq> None)))"
  proof (rule yields_bind [OF search_ok [OF d key(1)]], goal_cases)
    case (1 r)
    from d key(1) 1 have "(r \<noteq> None) = (map_of kvs key \<noteq> None)" by (cases rule: finds_cases) auto
    then show ?case by (intro yields_return) (simp add: map_of_eq_None_iff)
  qed
qed

lemma get_cached_ok:
  assumes d: "on_disk T lay psize gs ht rt kvs" and key: "valid key" "validate_key E key = Ok ()" and fit: "values_fit kvs" and s: "I s"
  shows "\<exists>r s'. get_cached S T key s = Some (Ok r, s') \<and> I s' \<and> (case r of NotCached \<Rightarrow> True | Missing \<Rightarrow> map_of kvs key = None
    | CachedValue g \<Rightarrow> map_of kvs key = Some (guard_bytes g))"
proof -
  obtain q t where q: "find_cached S T key s = Some (Ok q, t)" "I t" "\<And>r. q = Some r \<Longrightarrow> finds gs (first_match OpEqual key kvs) r"
    using find_cached_ok [OF d key(1) s] by blast
  note start = q(1) key(2) on_disk_built(3) [OF d]
  show ?thesis
  proof (cases q)
    case None
    then show ?thesis using start q(2) by (simp add: get_cached_def op_bind_def op_lift_def op_return_def)
  next
    case (Some r)
    from d key(1) q(3) [OF Some] show ?thesis
    proof (cases rule: finds_cases)
      case 1
      then show ?thesis using start q(2) Some by (simp add: get_cached_def op_bind_def op_lift_def op_return_def)
    next
      case (2 pin j i)
      have small: "PAGE_PREFIX_LEN + length (snd (kvs ! i)) < 2 ^ 31" using fit located_entry(1) [OF d 2(2)] by (simp add: values_fit_def)
      obtain e x u where e: "found_entry pin j = Ok e" "resolve_value_cached S pin e t = Some (Ok x, u)" "I u"
        "\<And>y. x = Some y \<Longrightarrow> range_holds (snd (kvs ! i)) y" using located_cached [OF d 2(2) q(2) small] by blast
      show ?thesis
      proof (cases x)
        case None
        then show ?thesis using start Some 2(1) e by (simp add: get_cached_def op_bind_def op_lift_def op_return_def)
      next
        case x: (Some y)
        obtain vp a b where y: "y = (vp, a, b)" by (cases y)
        obtain g where "into_guard vp a b = Ok g" "guard_bytes g = snd (kvs ! i)" using into_guard_range e(4) [OF x] y by blast
        then show ?thesis using start Some 2 e(1-3) x y by (simp add: get_cached_def op_bind_def op_lift_def op_return_def)
      qed
    qed
  qed
qed

end

subsection \<open>A file of pages\<close>

text \<open>Where the pages and their directory lie in a file, and a configuration that knows it.\<close>

definition page_file :: "bytes \<Rightarrow> bytes list \<Rightarrow> bytes \<Rightarrow> bytes" where
  "page_file front pages back_matter =
     front @ concat pages @ directory_offsets (stored_offsets (length front) pages) @ back_matter"

definition knows_pages :: "StoreConfig \<Rightarrow> bytes \<Rightarrow> bytes list \<Rightarrow> bool" where
  "knows_pages C front pages \<longleftrightarrow> sc_filter C = None \<and> dc_base (sc_dir C) = length front + length (concat pages)
     \<and> sc_directory_base C = dc_base (sc_dir C) \<and> dc_count (sc_dir C) = length pages
     \<and> 0 < dc_entries_per_chunk (sc_dir C) \<and> HEADER_LEN \<le> length front"

lemma file_parts:
  assumes "q < length pages"
  shows "slice (page_file front pages z) (stored_offsets (length front) pages ! q) (length (pages ! q)) = pages ! q"
    "slice (page_file front pages z) (length front + length (concat pages) + 8 * q) 8 = i64_to_le (as_i64 (stored_offsets (length front) pages ! q))"
proof -
  show "slice (page_file front pages z) (stored_offsets (length front) pages ! q) (length (pages ! q)) = pages ! q"
    using concat_split [OF assms] assms by (simp add: page_file_def slice_def stored_offsets_nth)
  have "slice (page_file front pages z) (length front + length (concat pages) + 8 * q) 8
      = slice (directory_offsets (stored_offsets (length front) pages)) (8 * q) 8"
    using assms by (simp add: page_file_def slice_def length_directory_offsets)
  then show "slice (page_file front pages z) (length front + length (concat pages) + 8 * q) 8 = i64_to_le (as_i64 (stored_offsets (length front) pages ! q))"
    using assms by (simp add: slice_directory_offsets)
qed

lemma length_page_file: "length (page_file front pages z) = length front + length (concat pages) + 8 * length pages + length z"
  by (simp add: page_file_def length_directory_offsets)

lemma offset_bound:
  assumes "q < length pages"
  shows "stored_offsets (length front) pages ! q + length (pages ! q) \<le> length front + length (concat pages)"
    "length front \<le> stored_offsets (length front) pages ! q"
    "Suc q < length pages \<Longrightarrow> stored_offsets (length front) pages ! Suc q = stored_offsets (length front) pages ! q + length (pages ! q)"
  using concat_split [OF assms] assms by (simp_all add: stored_offsets_nth take_Suc_conv_app_nth)

lemma file_offset:
  assumes C: "knows_pages C front pages" and q: "q < length pages" "pages ! q \<noteq> []" and size: "length (page_file front pages z) < 2 ^ 63"
  shows "dir_offset (sc_dir C) (page_file front pages z) q = Ok (stored_offsets (length front) pages ! q)"
proof -
  let ?o = "stored_offsets (length front) pages ! q" and ?img = "page_file front pages z"
  have o: "?o < 2 ^ 63" "?o < length front + length (concat pages)" "HEADER_LEN \<le> ?o"
    using offset_bound(1,2) [OF q(1), of front] C size length_greater_0_conv [THEN iffD2, OF q(2)]
    unfolding length_page_file knows_pages_def by linarith+
  have "has_at ?img (length front + length (concat pages) + 8 * q) (i64_to_le (int ?o))"
    using file_parts(2) [OF q(1), of front z] o(1) size q(1) by (simp add: has_at_def fits_def length_page_file as_i64_small usize_max_def)
  from read_has_at(3) [OF this] have "read_i64 ?img (length front + length (concat pages) + 8 * q) = Ok (int ?o)" using o(1) by simp
  then show ?thesis using C q(1) o by (simp add: dir_offset_def knows_pages_def validate_offset_def file_offset_from_i64_def DIRECTORY_SLOT_LEN_def mult.commute)
qed

lemma parsed_length:
  assumes "page_parse bs = Ok v"
  shows "read_i32 bs 0 = Ok (int (length bs))" "PAGE_PREFIX_LEN \<le> length bs" "length bs < 2 ^ 31"
proof -
  from assms obtain i where i: "read_i32 bs 0 = Ok i" "0 \<le> i" "nat i = length bs" "PAGE_PREFIX_LEN \<le> length bs"
    by (auto simp: page_parse_def Let_def split: if_splits)
  then show "read_i32 bs 0 = Ok (int (length bs))" "PAGE_PREFIX_LEN \<le> length bs" "length bs < 2 ^ 31"
    using read_i32_range [OF i(1)] by auto
qed

lemma read_i32_slice: "read_i32 bs 0 = Ok n \<Longrightarrow> read_i32 (slice bs 0 4) 0 = Ok n"
  by (auto simp: read_Ok_iff fits_def slice_def)

lemma file_page:
  assumes C: "knows_pages C front pages" and all: "\<forall>q < length pages. pages ! q \<noteq> []" and size: "length (page_file front pages z) < 2 ^ 63"
    and p: "p < length pages" and v: "page_parse (pages ! p) = Ok v" "page_validate v = Ok ()"
    and len: "length (pages ! p) \<le> sc_max_stored_page_bytes C"
  shows "page_of C (page_file front pages z) p = Ok (pages ! p)"
proof -
  let ?img = "page_file front pages z" and ?o = "stored_offsets (length front) pages ! p" and ?n = "length (pages ! p)"
  note pl = parsed_length [OF v(1)] and ob = offset_bound [OF p, of front] and off = file_offset [OF C _ _ size]
  have "slice ?img ?o 4 = slice (pages ! p) 0 4"
    using file_parts(1) [OF p, of front z] pl(2) slice_slice [of 0 4 ?n ?img ?o] by (simp add: PAGE_PREFIX_LEN_def)
  then have sl: "checked_stored_len C (slice ?img ?o PAGE_LENGTH_LEN) = Ok ?n"
    using read_i32_slice [OF pl(1)] pl(2) len by (simp add: checked_stored_len_def PAGE_LENGTH_LEN_def)
  have nx: "page_bound C ?img p ?o = Ok (?o + ?n) \<or> page_bound C ?img p ?o = Ok (length front + length (concat pages))"
  proof (cases "Suc p < length pages")
    case True
    then have "saturating_add p 1 = Suc p" using size by (simp add: length_page_file saturating_add_def usize_max_def)
    then show ?thesis using off [OF True] all True C ob pl(2)
      by (auto simp: page_bound_def knows_pages_def PAGE_PREFIX_LEN_def)
  next
    case False
    then have "saturating_add p 1 = Suc p" using size p by (simp add: length_page_file saturating_add_def usize_max_def)
    then show ?thesis using False C by (simp add: page_bound_def knows_pages_def)
  qed
  have ca: "checked_add ?o ?n = Some (?o + ?n)" using ob(1) size by (simp add: checked_add_def length_page_file usize_max_def)
  have "parse_page p (pages ! p) = Ok ()" using v by (simp add: parse_page_def)
  then show ?thesis using off [OF p] all p sl ca nx ob(1) file_parts(1) [OF p, of front z] C
    by (auto simp: page_of_def page_data_def knows_pages_def)
qed

lemma file_fits: "knows_pages C front pages \<Longrightarrow> length (page_file front pages z) < 2 ^ 63 \<Longrightarrow> store_fits C (page_file front pages z)"
  by (simp add: store_fits_def knows_pages_def dir_fits_def length_page_file DIRECTORY_SLOT_LEN_def usize_max_def)

subsection \<open>Built trees in a file\<close>

lemma indexable_subset:
  assumes i: "indexable_encoding E v" and sub: "\<And>k. w k \<Longrightarrow> v k" and acc: "\<And>k. validate_key E k = Ok () \<Longrightarrow> w k"
  shows "indexable_encoding E w"
proof -
  note s = indexable_encoding.axioms(1) [OF i]
  note l = searchable_encoding.axioms(1) [OF s]
  have "lawful_encoding E w" by (rule lawful_subset [OF l sub])
  then show ?thesis using indexable_encoding.exact_capacity [OF i]
    by (intro indexable_encoding.intro searchable_encoding.intro searchable_encoding_axioms.intro indexable_encoding_axioms.intro)
      (auto intro: sub acc searchable_encoding.accepted_ge [OF s] indexable_encoding.own_digest [OF i]
        indexable_encoding.exact_order [OF i] indexable_encoding.exact_decode [OF i])
qed

lemma builtin_indexable:
  assumes "builtin i = Some E" shows "indexable_encoding E (\<lambda>k. validate_key E k = Ok ())"
  using assms
proof (cases rule: builtin_cases)
  case 1
  show ?thesis unfolding 1 by (rule indexable_subset [OF int64.indexable_encoding_axioms]) (simp_all add: validate_builtin)
next
  case 2
  show ?thesis unfolding 2 by (rule indexable_subset [OF ascii.indexable_encoding_axioms]) simp_all
next
  case 3
  show ?thesis unfolding 3 by (rule indexable_subset [OF uuid.indexable_encoding_axioms]) (simp_all add: validate_builtin)
next
  case 4
  show ?thesis unfolding 4 by (rule indexable_subset [OF ulid.indexable_encoding_axioms]) simp_all
qed

lemma store_tree:
  "indexable_encoding E valid \<Longrightarrow>
    tree_store (store_ops C) (store_inv lim C img rts fixed) (disk C img) (store_error (dc_source (sc_dir C))) rts E valid"
  by (intro tree_store.intro store.page_store_axioms)

interpretation int64_store: tree_store "store_ops C" "store_inv lim C img rts fixed" "disk C img"
  "store_error (dc_source (sc_dir C))" rts Int64Encoding "\<lambda>k. length k = 8" for C lim img rts fixed
  by (rule store_tree [OF int64.indexable_encoding_axioms])

lemma blob_image_validates:
  assumes "PAGE_PREFIX_LEN + length val < 2 ^ 31"
  shows "\<exists>v. page_parse (blob_image val) = Ok v \<and> page_validate v = Ok ()"
proof -
  have h: "has_at (blob_image val) 4 (i32_to_le 0)" 
    using has_at_self [of "blob_image val"] slice_blob_image(2) [of val] assms
    by (simp add: blob_image_def at_append usize_max_def PAGE_PREFIX_LEN_def)
  obtain v where v: "page_parse (blob_image val) = Ok v" "pv_kind v = Leaf" "pv_entry_count v = 0" using blob_image_parses [OF assms] by blast
  have "pv_layout v = parse_layout 0" using v(1) read_has_at(2) [OF h] by (auto simp: page_parse_def Let_def KIND_OFFSET_def split: if_splits)
  then show ?thesis using v by (simp add: page_validate_def parse_layout_def)
qed

lemma node_validates:
  assumes b: "built E lay psize gs ht rt kvs" and h: "h \<le> ht" and p: "p \<in> set (nodes gs h)"
  shows "\<exists>v. page_parse (gbytes lay (gs ! p)) = Ok v \<and> page_validate v = Ok ()"
proof -
  obtain k where k: "k < length (nodes gs h)" "p = nodes gs h ! k" using p by (auto simp: in_set_conv_nth)
  have len: "length gs \<le> 2 ^ 31" using built_level(6) [OF b h] by simp
  have "case node_right (gs ! p) of None \<Rightarrow> True | Some q \<Rightarrow> q < length gs"
    using int64_store.chained_at(2) [OF built_level(2) [OF b h] k(1)] nth_mem [of "k + 1" "nodes gs h"] in_nodes_iff [of _ gs h] k(2)
    by (auto split: option.split if_splits)
  then have rt: "ordinal_ok (node_right (gs ! p))" using len by (auto split: option.splits)
  note im = level_image [OF built_level(7) [OF b h p] built_level(5) [OF b h] len]
  have g: "gs ! p = NodePage h (node_right (gs ! p)) (node_level (gs ! p)) (node_entries (gs ! p))" by (rule node_page_at(1) [OF p])
  show ?thesis by (subst g) (use page_image_parses [OF im(1) rt] image_validates [OF im] in auto)
qed

text \<open>A file that starts with the pages of a built tree holds the tree.\<close>

definition tree_in_file :: "StoreConfig \<Rightarrow> bytes \<Rightarrow> bytes list \<Rightarrow> NodeLayout \<Rightarrow> 'e gpage list \<Rightarrow> bool" where
  "tree_in_file C front pages lay gs \<longleftrightarrow> knows_pages C front pages \<and> length gs \<le> length pages
     \<and> (\<forall>p < length gs. pages ! p = gbytes lay (gs ! p))
     \<and> (\<forall>p < length pages. pages ! p \<noteq> [] \<and> length (pages ! p) \<le> sc_max_stored_page_bytes C)"

lemma tree_in_file_disk:
  assumes t: "tree_in_file C front pages lay gs" and size: "length (page_file front pages z) < 2 ^ 63"
    and p: "p < length gs" and v: "page_parse (gbytes lay (gs ! p)) = Ok v" "page_validate v = Ok ()"
  shows "disk C (page_file front pages z) p = Some (gbytes lay (gs ! p))"
proof -
  have d: "knows_pages C front pages" "\<forall>q < length pages. pages ! q \<noteq> []" "p < length pages" "pages ! p = gbytes lay (gs ! p)"
    using t p by (auto simp: tree_in_file_def)
  have d5: "length (pages ! p) \<le> sc_max_stored_page_bytes C" using t d(3) unfolding tree_in_file_def by blast
  have "page_of C (page_file front pages z) p = Ok (pages ! p)"
    by (rule file_page [OF d(1,2) size d(3) _ v(2) d5]) (simp add: d(4) v(1))
  then show ?thesis using t p by (simp add: disk_def tree_in_file_def)
qed

lemma built_on_disk:
  assumes E: "indexable_encoding E valid" and t: "tree_in_file C front pages lay gs" and size: "length (page_file front pages z) < 2 ^ 63"
    and b: "built E lay psize gs ht rt kvs" and ht: "ht < sc_max_tree_depth C"
    and T: "tree_encoding T = E" "tree_root T = Some rt" "rts (tree_id T) = Some rt"
    and keys: "indexable_encoding.stored_keys E valid (map fst kvs)" and om: "omitted_keys lay \<longrightarrow> is_digest_exact E"
  shows "tree_store.on_disk (store_ops C) (disk C (page_file front pages z)) rts E valid T lay psize gs ht rt kvs"
proof -
  let ?img = "page_file front pages z"
  have n: "disk C ?img p = Some (gbytes lay (gs ! p))" if h: "h \<le> ht" "p \<in> set (nodes gs h)" for h p
    using node_validates [OF b h] tree_in_file_disk [OF t size node_page_at(2) [OF h(2)]] by blast
  have bl: "disk C ?img p = Some (blob_image val)" if "p < length gs" "gs ! p = BlobPage val" "PAGE_PREFIX_LEN + length val < 2 ^ 31" for p val
    using blob_image_validates [OF that(3)] tree_in_file_disk [OF t size that(1)] that(2) by auto
  have l: "length gs \<le> st_page_count (store_ops C)" "ht < st_max_tree_depth (store_ops C)"
    using t ht by (simp_all add: tree_in_file_def knows_pages_def store_ops_def)
  show ?thesis
    unfolding tree_store.on_disk_def [OF store_tree [OF E]] using n bl l b T keys om by simp
qed

lemma framed_pages:
  assumes f: "frame UNIV (map Other old) gs" and old: "\<forall>b \<in> set old. b \<noteq> []" and p: "p < length gs"
  shows "gbytes lay (gs ! p) \<noteq> []" "p < length old \<Longrightarrow> gs ! p = Other (old ! p)"
proof -
  show o: "gs ! p = Other (old ! p)" if "p < length old" using frame_at(7) [OF f, of p "old ! p"] that by simp
  show "gbytes lay (gs ! p) \<noteq> []"
  proof (cases "p < length old")
    case True
    then show ?thesis using o old by simp
  next
    case False
    then have "\<forall>b. gs ! p \<noteq> Other b" using f p by (simp add: frame_def)
    then have "PAGE_PREFIX_LEN \<le> length (gbytes lay (gs ! p))"
      using length_gbytes_node [of lay] by (cases "gs ! p") (simp_all add: slice_blob_image(2) del: gbytes.simps(3))
    then show ?thesis by (auto simp: PAGE_PREFIX_LEN_def)
  qed
qed

text \<open>The file a sink leaves behind: the pages, the directory, and a front that may have been
  patched.\<close>

lemma finished_file:
  assumes h: "sink_holds s front pages" and d: "sink_finish_directory s = Ok (base, page_total, s3)" and len: "length front' = length front"
  shows "front' @ drop (length front) (sink_out s3) = page_file front' pages []" "base = length front' + length (concat pages)"
    "page_total = length pages"
  using assms spool_write_into [of "sink_directory s"]
  by (auto simp: sink_holds_def sink_finish_directory_def Let_def sink_write_raw_def write_at_end page_file_def spool_holds_def)

lemma finished_directory:
  assumes "sink_holds s front pages"
  obtains base n s3 where "sink_finish_directory s = Ok (base, n, s3)"
  using assms spool_write_into [of "sink_directory s"] that by (auto simp: sink_holds_def sink_finish_directory_def Let_def)

definition reads_directory :: "StoreConfig \<Rightarrow> nat \<Rightarrow> nat \<Rightarrow> bool" where
  "reads_directory C base page_total \<longleftrightarrow> sc_filter C = None \<and> dc_base (sc_dir C) = base \<and> sc_directory_base C = base
     \<and> dc_count (sc_dir C) = page_total \<and> 0 < dc_entries_per_chunk (sc_dir C)"

text \<open>A tree in a file, reached through a store.\<close>

definition key_order :: "KeyEncoding \<Rightarrow> bytes list \<Rightarrow> bool" where
  "key_order E ks \<longleftrightarrow> (\<forall>k \<in> set ks. validate_key E k = Ok ()) \<and> sorted_wrt (\<lambda>a b. compare E a b = Ok Less) ks"

lemma key_order_stored:
  assumes "builtin i = Some E"
  shows "indexable_encoding.stored_keys E (\<lambda>k. validate_key E k = Ok ()) ks \<longleftrightarrow> key_order E ks"
proof -
  note x = builtin_indexable [OF assms]
  note y = indexable_encoding.axioms(1) [OF x]
  show ?thesis unfolding indexable_encoding.stored_keys_def [OF x] searchable_encoding.ascending_keys_def [OF y] key_order_def by blast
qed

lemma built_file_on_disk:
  fixes rows :: "(bytes \<times> bytes \<times> 'e) list"
  assumes enc: "builtin i = Some E"
    and sink: "sink_holds s front old" "sink_filter s = None" "length old \<le> 2147483647" "psize < 2 ^ 31" "\<forall>b \<in> set old. b \<noteq> []"
    and new: "writer_new s psize eytz E allow = Ok w0"
    and pushed: "push_all E eb cb rows (limit_pending_extra w0 extra_cap, c0) = Ok (w1, c1)"
    and fin: "finish E cb w1 c1 = Some (Ok (rt, w2, c2))"
    and out: "sink_finish_directory (tw_sink w2) = Ok (base, page_total, s3)" "img = front' @ drop (length front) (sink_out s3)"
      "length front' = length front" "HEADER_LEN \<le> length front" "length img < 2 ^ 63"
    and C: "reads_directory C base page_total" "length (tw_levels w2) \<le> sc_max_tree_depth C" "\<And>pages. sink_holds (tw_sink w2) front pages \<Longrightarrow> \<forall>b \<in> set pages. length b \<le> sc_max_stored_page_bytes C"
    and T: "tree_encoding T = E" "tree_root T = Some rt" "rts (tree_id T) = Some rt"
    and keys: "key_order E (map fst rows)"
  shows "\<exists>lay gs ht. tree_store.on_disk (store_ops C) (disk C img) rts E (\<lambda>k. validate_key E k = Ok ()) T lay psize (gs :: 'e gpage list) ht rt
    (map (\<lambda>(k, v, x). (k, v)) rows)"
proof -
  let ?lay = "choose_layout psize eytz E allow"
  have l2: "list_all2 (\<lambda>b page. stored_page (sink_filter s) b = Ok page) old old" using sink(2) by (simp add: stored_page_def list.rel_refl)
  from build_spec [OF new sink(4,1) l2 sink(3) pushed] fin obtain gs :: "'e gpage list" and st ht where
    g: "frame UNIV (map Other old) gs" "sink_state (tw_sink w2) ?lay front gs st" "sink_filter (tw_sink w2) = sink_filter s"
      "built E ?lay psize gs ht rt (map (\<lambda>(k, v, x). (k, v)) rows)" "length (tw_levels w2) = Suc ht" by auto
  have st: "st = map (gbytes ?lay) gs" "sink_holds (tw_sink w2) front st"
    using stored_unfiltered [OF g(2)] g(2,3) sink(2) by (simp_all add: sink_state_def)
  note ff = finished_file [OF st(2) out(1,3)]
  have "length (st ! p) \<le> sc_max_stored_page_bytes C" if "p < length st" for p using C(3) [OF st(2)] that by simp
  then have tf: "tree_in_file C front' st ?lay gs"
    using C(1) st(1) framed_pages(1) [OF g(1) sink(5)] ff(2,3) out(3,4)
    by (auto simp: tree_in_file_def knows_pages_def reads_directory_def)
  have om: "omitted_keys ?lay \<longrightarrow> is_digest_exact E" by (simp add: choose_layout_def Let_def)
  have ks: "indexable_encoding.stored_keys E (\<lambda>k. validate_key E k = Ok ()) (map fst (map (\<lambda>(k, v, x). (k, v)) rows))"
    using keys unfolding key_order_stored [OF enc] by (simp add: o_def case_prod_beta)
  have "tree_store.on_disk (store_ops C) (disk C (page_file front' st [])) rts E (\<lambda>k. validate_key E k = Ok ()) T ?lay psize gs ht rt
      (map (\<lambda>(k, v, x). (k, v)) rows)"
    using out(2,5) ff(1) C(2) g(5) by (intro built_on_disk [where rts = rts and kvs = "map (\<lambda>(k, v, x). (k, v)) rows", OF builtin_indexable [OF enc] tf _ g(4) _ T ks om]) simp_all
  then show ?thesis using out(2) ff(1) by auto
qed

subsection \<open>Cached lookups do not read\<close>

lemma kept_clock [simp]:
  "io_clock (callers_drop C s) = io_clock s" "io_clock (snd (hand_out x)) = io_clock (snd x)"
  "io_clock (snd (cache_get p (s :: Store))) = io_clock s" "io_clock (snd (retained_root t s)) = io_clock s"
  by (auto simp: hand_out_def callers_drop_def cache_get_def retained_root_def clone_pin_def set_shard_def Let_def
      split: prod.split option.split Slot.split)

lemma cached_clock [simp]:
  "io_clock (snd (st_page_cached (store_ops C) p s)) = io_clock s" "io_clock (snd (st_retained_root (store_ops C) t s)) = io_clock s"
  "io_clock (st_mark_digests_checked (store_ops C) pin t s) = io_clock s"
  by (simp_all add: store_ops_def)

lemma cached_clock_result:
  "st_page_cached (store_ops C) p s = (r, s') \<Longrightarrow> io_clock s' = io_clock s"
  "st_retained_root (store_ops C) t s = (r, s') \<Longrightarrow> io_clock s' = io_clock s"
  using cached_clock(1) [of C p s] cached_clock(2) [of C t s] by simp_all

lemma check_page_clock: "check_page (store_ops C) T pin s = Some (r, s') \<Longrightarrow> io_clock s' = io_clock s"
  by (auto simp: check_page_def op_bind_def op_lift_def split: if_splits sum.splits)

lemma cached_turn_clock: "cached_turn (store_ops C) T key d c s = Some (r, s') \<Longrightarrow> io_clock s' = io_clock s"
  by (auto simp: cached_turn_def op_bind_def op_lift_def Let_def split: if_splits option.splits prod.splits sum.splits
      dest!: cached_clock_result check_page_clock)

lemma cached_loop_clock:
  assumes "cached_loop (store_ops C) T key d c s = Some y"
  shows "io_clock (snd y) = io_clock s"
proof -
  have "\<forall>C. S = store_ops C \<longrightarrow> io_clock (snd y) = io_clock s" if "cached_loop S T key d c s = Some y" for S :: "Store StoreOps"
    using _ that
  proof (rule cached_loop.raw_induct [where P = "\<lambda>S T key d c s y. \<forall>C. S = store_ops C \<longrightarrow> io_clock (snd y) = io_clock s"])
    fix f :: "Store StoreOps \<Rightarrow> _" and S T key d c s y
    assume "\<And>S T key d c s y. f S T key d c s = Some y \<Longrightarrow> \<forall>C. S = store_ops C \<longrightarrow> io_clock (snd y) = io_clock s"
      "(case cached_turn S T key d c s of None \<Rightarrow> None | Some (Inl e, s') \<Rightarrow> Some (Err e, s')
        | Some (Inr (Stop r), s') \<Rightarrow> Some (Ok r, s') | Some (Inr (Go c'), s') \<Rightarrow> f S T key d c' s') = Some y"
    then show "\<forall>C. S = store_ops C \<longrightarrow> io_clock (snd y) = io_clock s"
      by (auto split: option.splits sum.splits progress.splits prod.splits dest!: cached_turn_clock)
  qed
  then show ?thesis using assms by blast
qed

lemma get_cached_clock:
  assumes "get_cached (store_ops C) T key s = Some (r, s')"
  shows "io_clock s' = io_clock s"
  using assms
  by (auto simp: get_cached_def find_cached_def root_page_cached_def resolve_value_cached_def op_bind_def op_lift_def op_return_def
      split: if_splits option.splits prod.splits sum.splits LeafValue.splits
      dest!: cached_clock_result check_page_clock cached_loop_clock)

subsection \<open>Properties\<close>

text \<open>C1: What was built is what is read.  A tree is built from rows in key order into a file, which
  is then opened through a page store, however small its budget and cache are and whatever its callers keep.  Then \<open>get\<close> of any
  key the encoding accepts returns, and returns exactly the value pushed with the key, or nothing when the
  key was not pushed; the only errors are those of the machine, no memory or a source that fails.\<close>
theorem get_after_build:
  fixes rows :: "(bytes \<times> bytes \<times> 'e) list"
  assumes enc: "builtin i = Some E"
    and sink: "sink_holds s front old" "sink_filter s = None" "length old \<le> 2147483647" "psize < 2 ^ 31" "\<forall>b \<in> set old. b \<noteq> []"
    and new: "writer_new s psize eytz E allow = Ok w0"
    and pushed: "push_all E eb cb rows (limit_pending_extra w0 extra_cap, c0) = Ok (w1, c1)"
    and fin: "finish E cb w1 c1 = Some (Ok (rt, w2, c2))"
    and out: "sink_finish_directory (tw_sink w2) = Ok (base, n, s3)" "img = front' @ drop (length front) (sink_out s3)"
      "length front' = length front" "HEADER_LEN \<le> length front" "length img < 2 ^ 63"
    and C: "reads_directory C base n" "length (tw_levels w2) \<le> sc_max_tree_depth C"
      "\<And>pages. sink_holds (tw_sink w2) front pages \<Longrightarrow> \<forall>b \<in> set pages. length b \<le> sc_max_stored_page_bytes C"
    and T: "tree_encoding T = E" "tree_root T = Some rt" "rts (tree_id T) = Some rt"
    and keys: "key_order E (map fst rows)" and vals: "\<forall>(k, v, x) \<in> set rows. PAGE_PREFIX_LEN + length v < 2 ^ 31"
    and s: "store_inv lim C img rts fixed t" and key: "validate_key E key = Ok ()"
  shows "\<exists>r t'. table_get (store_ops C) T key t = Some (r, t') \<and> store_inv lim C img rts fixed t'
    \<and> (case r of Inr g \<Rightarrow> map_option guard_bytes g = map_of (map (\<lambda>(k, v, x). (k, v)) rows) key
       | Inl e \<Rightarrow> store_error (dc_source (sc_dir C)) e)"
proof -
  let ?kvs = "map (\<lambda>(k, v, x). (k, v)) rows" and ?I = "store_inv lim C img rts fixed" and ?SE = "store_error (dc_source (sc_dir C))"
  note ts = store_tree [OF builtin_indexable [OF enc], of C lim img rts fixed]
  obtain lay ht and gs :: "'e gpage list" where d: "tree_store.on_disk (store_ops C) (disk C img) rts E (\<lambda>k. validate_key E k = Ok ()) T lay psize gs ht rt ?kvs"
    using built_file_on_disk [where rts = rts, OF enc sink new pushed fin out C T keys] by blast
  have fit: "tree_store.values_fit ?kvs" using vals by (auto simp: tree_store.values_fit_def [OF ts])
  have "yields ?I ?SE (\<lambda>r. map_option guard_bytes r = map_of ?kvs key) (table_get (store_ops C) T key)"
    by (rule tree_store.table_get_ok [OF ts d key key fit])
  then show ?thesis using s by (rule yieldsD) blast
qed

text \<open>C4: A lookup that may only use cached pages never blocks, never fails on a file that was
  built, and never lies.  \<open>get_cached\<close> returns without a single read of the source, and if it
  answers at all the answer is what was pushed; the doubt is always \<open>NotCached\<close>, never an error.\<close>
theorem get_cached_answers:
  fixes rows :: "(bytes \<times> bytes \<times> 'e) list"
  assumes enc: "builtin i = Some E"
    and sink: "sink_holds s front old" "sink_filter s = None" "length old \<le> 2147483647" "psize < 2 ^ 31" "\<forall>b \<in> set old. b \<noteq> []"
    and new: "writer_new s psize eytz E allow = Ok w0"
    and pushed: "push_all E eb cb rows (limit_pending_extra w0 extra_cap, c0) = Ok (w1, c1)"
    and fin: "finish E cb w1 c1 = Some (Ok (rt, w2, c2))"
    and out: "sink_finish_directory (tw_sink w2) = Ok (base, n, s3)" "img = front' @ drop (length front) (sink_out s3)"
      "length front' = length front" "HEADER_LEN \<le> length front" "length img < 2 ^ 63"
    and C: "reads_directory C base n" "length (tw_levels w2) \<le> sc_max_tree_depth C"
      "\<And>pages. sink_holds (tw_sink w2) front pages \<Longrightarrow> \<forall>b \<in> set pages. length b \<le> sc_max_stored_page_bytes C"
    and T: "tree_encoding T = E" "tree_root T = Some rt" "rts (tree_id T) = Some rt"
    and keys: "key_order E (map fst rows)" and vals: "\<forall>(k, v, x) \<in> set rows. PAGE_PREFIX_LEN + length v < 2 ^ 31"
    and s: "store_inv lim C img rts fixed t" and key: "validate_key E key = Ok ()"
  shows "\<exists>r t'. get_cached (store_ops C) T key t = Some (Ok r, t') \<and> store_inv lim C img rts fixed t' \<and> io_clock t' = io_clock t
    \<and> (case r of NotCached \<Rightarrow> True | Missing \<Rightarrow> map_of (map (\<lambda>(k, v, x). (k, v)) rows) key = None
       | CachedValue g \<Rightarrow> map_of (map (\<lambda>(k, v, x). (k, v)) rows) key = Some (guard_bytes g))"
proof -
  let ?kvs = "map (\<lambda>(k, v, x). (k, v)) rows"
  note ts = store_tree [OF builtin_indexable [OF enc], of C lim img rts fixed]
  obtain lay ht and gs :: "'e gpage list" where d: "tree_store.on_disk (store_ops C) (disk C img) rts E (\<lambda>k. validate_key E k = Ok ()) T lay psize gs ht rt ?kvs"
    using built_file_on_disk [where rts = rts, OF enc sink new pushed fin out C T keys] by blast
  have fit: "tree_store.values_fit ?kvs" using vals by (auto simp: tree_store.values_fit_def [OF ts])
  show ?thesis using tree_store.get_cached_ok [OF ts d key key fit s] get_cached_clock by blast
qed


text \<open>A file with one row, and a store on it.\<close>

definition sample_sink :: PageSink where
  "sample_sink = sink_write_raw (sink_new None (directory_new 8)) (replicate HEADER_LEN 0)"

definition sample_pushes :: "(nat TreeWriter \<times> (nat \<times> PageRef) list) result" where
  "sample_pushes = push_all AsciiEncoding (\<lambda>_. 1) (\<lambda>x r c. Ok (c @ [(x, r)])) [([1], [7], 0)]
     (limit_pending_extra (sample_writer\<lparr>tw_sink := sample_sink\<rparr>) 10, [])"

lemma sample_sink_holds: "sink_holds sample_sink (replicate HEADER_LEN 0) []"
  by (simp add: sink_holds_def sample_sink_def sink_write_raw_def sink_new_def write_at_def spool_new stored_offsets_def)

lemma sample_table:
  "\<exists>w1 w2. sample_pushes = Ok (w1, []) \<and> length (tw_levels w2) = 1 \<and> length (sink_out (tw_sink w2)) \<le> 200
    \<and> finish AsciiEncoding (\<lambda>x r c. Ok (c @ [(x, r)])) w1 [] = Some (Ok (0, w2, [(0, \<lparr>ref_page = 0, ref_start = 43, ref_length = 1\<rparr>)]))"
proof -
  obtain d where d: "digest AsciiEncoding [1] = Ok d" by (simp add: AsciiEncoding_def)
  show ?thesis
    by (simp add: sample_pushes_def sample_sink_def sample_writer_def writer_eval usize_max_def d finish_def finish_passes.simps finish_pass.simps rotate_keep
        write_level_def sink_begin_page_def directory_push_def sink_new_def directory_new_def directory_spill_def flush_page_def
        sink_write_page_def sink_write_raw_def patch_sibling_def settle_level_def write_at_def)
      (simp add: page_image_def digest_bytes_def compact_meta_bytes_def)
qed

definition sample_store :: "nat \<Rightarrow> nat \<Rightarrow> bytes \<Rightarrow> StoreConfig" where
  "sample_store base n img = small_config\<lparr>sc_dir := page_directory_new (memory_source img) base n 512 4, sc_directory_base := base\<rparr>"

definition sample_tree :: Tree where
  "sample_tree = \<lparr>tree_root = Some 0, tree_encoding = AsciiEncoding, tree_id = 1, tree_validate_digests = True\<rparr>"

text \<open>What the properties below assume, on the sample.\<close>

lemma sample_opened:
  obtains w1 w2 base n s3 img where "sample_pushes = Ok (w1, [])"
    "finish AsciiEncoding (\<lambda>x r c. Ok (c @ [(x, r)])) w1 [] = Some (Ok (0, w2, [(0, \<lparr>ref_page = 0, ref_start = 43, ref_length = 1\<rparr>)]))"
    "sink_finish_directory (tw_sink w2) = Ok (base, n, s3)" "img = replicate HEADER_LEN 0 @ drop (length (replicate HEADER_LEN (0 :: byte))) (sink_out s3)"
    "length img < 2 ^ 63" "reads_directory (sample_store base n img) base n" "length (tw_levels w2) \<le> sc_max_tree_depth (sample_store base n img)"
    "\<And>pages. sink_holds (tw_sink w2) (replicate HEADER_LEN 0) pages \<Longrightarrow>
      \<forall>b \<in> set pages. length b \<le> sc_max_stored_page_bytes (sample_store base n img)"
    "store_inv 5000 (sample_store base n img) img (\<lambda>_. Some 0) 100 (store_new 5000 100 2000 2)"
proof -
  obtain w1 w2 where w: "sample_pushes = Ok (w1, [])" "length (tw_levels w2) = 1" "length (sink_out (tw_sink w2)) \<le> 200"
    "finish AsciiEncoding (\<lambda>x r c. Ok (c @ [(x, r)])) w1 [] = Some (Ok (0, w2, [(0, \<lparr>ref_page = 0, ref_start = 43, ref_length = 1\<rparr>)]))"
    using sample_table by blast
  have new: "writer_new sample_sink 128 False AsciiEncoding False = Ok (sample_writer\<lparr>tw_sink := sample_sink\<rparr>)"
    by (simp add: sample_writer_def writer_new_def choose_layout_def MIN_PAGE_SIZE_def format_consts Let_def)
  have sf: "sink_filter sample_sink = None" by (simp add: sample_sink_def sink_write_raw_def sink_new_def)
  obtain st where st: "sink_holds (tw_sink w2) (replicate HEADER_LEN 0) st" and n: "length st \<le> 2147483647"
    using build_spec [OF new _ sample_sink_holds _ _ w(1) [unfolded sample_pushes_def], of "[]"] w(4)
    by (auto simp: sink_state_def dest!: list_all2_lengthD)
  obtain base n s3 where d: "sink_finish_directory (tw_sink w2) = Ok (base, n, s3)" by (rule finished_directory [OF st])
  define img where "img = replicate HEADER_LEN 0 @ drop (length (replicate HEADER_LEN (0 :: byte))) (sink_out s3)"
  note ff = finished_file [OF st d refl, folded img_def]
  have out: "length (concat pages) \<le> 200" if "sink_holds (tw_sink w2) (replicate HEADER_LEN 0) pages" for pages
    using that w(3) by (simp add: sink_holds_def)
  have len: "length img < 2 ^ 63" using n out [OF st] unfolding ff(1) length_page_file by (simp add: HEADER_LEN_def)
  have r: "reads_directory (sample_store base n img) base n" by (simp add: reads_directory_def sample_store_def page_directory_new_def small_config_def)
  have fits: "store_fits (sample_store base n img) img"
    using len unfolding ff(1)
    by (intro file_fits) (simp_all add: knows_pages_def ff(2,3) sample_store_def small_config_def page_directory_new_def)
  have src: "page_source (dc_source (sc_dir (sample_store base n img))) img"
    by (simp add: sample_store_def page_directory_new_def memory.page_source_axioms)
  have inv: "store_inv 5000 (sample_store base n img) img (\<lambda>_. Some 0) 100 (store_new 5000 100 2000 2)"
    by (rule store_new_inv [OF src fits]) (simp_all add: usize_max_def)
  have "length b \<le> 200" if "sink_holds (tw_sink w2) (replicate HEADER_LEN 0) pages" "b \<in> set pages" for b pages
    using out [OF that(1)] member_le_sum_list [of "length b" "map length pages"] that(2) by (simp add: length_concat)
  then show thesis using w(2) by (intro that [OF w(1,4) d img_def len r _ _ inv]) (force simp: sample_store_def small_config_def)+
qed

lemma sample_settings:
  "builtin (str_of ''ascii'') = Some AsciiEncoding" "key_order AsciiEncoding (map fst [([1 :: byte], [7 :: byte], 0 :: nat)])"
  "sink_filter sample_sink = None" "writer_new sample_sink 128 False AsciiEncoding False = Ok (sample_writer\<lparr>tw_sink := sample_sink\<rparr>)"
  "tree_encoding sample_tree = AsciiEncoding" "tree_root sample_tree = Some 0" "validate_key AsciiEncoding [1] = Ok ()"
  by (simp_all add: builtin_def str_of_def key_order_def AsciiEncoding_def default_validate_key_def sample_sink_def sink_write_raw_def sink_new_def
      sample_writer_def writer_new_def choose_layout_def MIN_PAGE_SIZE_def format_consts Let_def sample_tree_def)

theorem get_after_build_witness:
  "\<exists>C r t'. table_get (store_ops C) sample_tree [1] (store_new 5000 100 2000 2) = Some (r, t')
    \<and> (case r of Inr g \<Rightarrow> map_option guard_bytes g = Some [7] | Inl e \<Rightarrow> store_error (dc_source (sc_dir C)) e)"
proof (rule sample_opened, goal_cases)
  case (1 w1 w2 base n s3 img)
  obtain r t' where "table_get (store_ops (sample_store base n img)) sample_tree [1] (store_new 5000 100 2000 2) = Some (r, t')"
    "case r of Inr g \<Rightarrow> map_option guard_bytes g = map_of (map (\<lambda>(k, v, x). (k, v)) [([1 :: byte], [7 :: byte], 0 :: nat)]) [1]
      | Inl e \<Rightarrow> store_error (dc_source (sc_dir (sample_store base n img))) e"
    using get_after_build [OF sample_settings(1) sample_sink_holds sample_settings(3) _ _ _ sample_settings(4) 1(1) [unfolded sample_pushes_def] 1(2-4)
      _ _ 1(5-8) sample_settings(5,6) refl sample_settings(2) _ 1(9) sample_settings(7)] by (auto simp: PAGE_PREFIX_LEN_def)
  then show ?case by (intro exI [of _ "sample_store base n img"] exI [of _ r] exI [of _ t']) (auto split: sum.splits)
qed

theorem get_cached_answers_witness:
  "\<exists>C r t'. get_cached (store_ops C) sample_tree [1] (store_new 5000 100 2000 2) = Some (Ok r, t') \<and> io_clock t' = 0
    \<and> (case r of NotCached \<Rightarrow> True | Missing \<Rightarrow> False | CachedValue g \<Rightarrow> guard_bytes g = [7])"
proof (rule sample_opened, goal_cases)
  case (1 w1 w2 base n s3 img)
  have c: "io_clock (store_new 5000 100 2000 2) = 0" by (simp add: store_new_def)
  obtain r t' where "get_cached (store_ops (sample_store base n img)) sample_tree [1] (store_new 5000 100 2000 2) = Some (Ok r, t')"
    "io_clock t' = io_clock (store_new 5000 100 2000 2)"
    "case r of NotCached \<Rightarrow> True | Missing \<Rightarrow> map_of (map (\<lambda>(k, v, x). (k, v)) [([1 :: byte], [7 :: byte], 0 :: nat)]) [1] = None
      | CachedValue g \<Rightarrow> map_of (map (\<lambda>(k, v, x). (k, v)) [([1 :: byte], [7 :: byte], 0 :: nat)]) [1] = Some (guard_bytes g)"
    using get_cached_answers [OF sample_settings(1) sample_sink_holds sample_settings(3) _ _ _ sample_settings(4) 1(1) [unfolded sample_pushes_def] 1(2-4)
      _ _ 1(5-8) sample_settings(5,6) refl sample_settings(2) _ 1(9) sample_settings(7)]
    by (auto simp: PAGE_PREFIX_LEN_def)
  then show ?case using c by (intro exI [of _ "sample_store base n img"] exI [of _ r] exI [of _ t']) (auto split: CachedLookup.splits)
qed


end
