(* ===== verification/Spec2Isabelle.thy ===== *)
theory Spec2Isabelle
  imports Catalog Table
begin

text \<open>
  A verification development for \<^verbatim>\<open>drydb-rs\<close>, a read-only embedded key-value store.  A builder writes
  sorted rows once into a file of B+tree pages; a reader looks them up, with every page, directory
  chunk and table it holds charged to one fixed memory budget.  Paths below are under
  \<^verbatim>\<open>src/crates/drydb/src\<close>.

  \<^bold>\<open>The parts and how they interact.\<close>  The file starts with a header and a descriptor section (the
  catalog); pages follow, and a directory of their offsets ends the file.  On the writing side the
  tree writer (\<^verbatim>\<open>builder/tree.rs\<close>) turns rows into pages and hands them to the sink
  (\<^verbatim>\<open>builder/sink.rs\<close>), which applies the page filter, appends them and collects the directory.  On
  the reading side a tree (\<^verbatim>\<open>btree.rs\<close>) asks the page store (\<^verbatim>\<open>store.rs\<close>) for pages by ordinal; the store
  looks in its cache (\<^verbatim>\<open>cache.rs\<close>), finds the page's place in the directory (\<^verbatim>\<open>directory.rs\<close>), reserves
  memory from the budget (\<^verbatim>\<open>budget.rs\<close>), reads from the source (\<^verbatim>\<open>io.rs\<close>) and undoes the filter.
  Both sides use the page format (\<^verbatim>\<open>format/node.rs\<close>) and the key encodings (\<^verbatim>\<open>encoding.rs\<close>).

  \<^bold>\<open>The theories.\<close>
  \<^item> Prelude: integers, byte slices, errors and results (\<^verbatim>\<open>error.rs\<close>), shared lemmas.
  \<^item> Format (\<^verbatim>\<open>format/mod.rs\<close>, \<^verbatim>\<open>format/header.rs\<close>, \<^verbatim>\<open>format/pageref.rs\<close>): the header and page references
    parse exactly from their encodings.
  \<^item> Node (\<^verbatim>\<open>format/node.rs\<close>): page views.  After \<open>page_parse\<close> and \<open>page_validate\<close> every entry is
    readable; the rank search counts the digests below the searched one, in both digest orders.
  \<^item> Encoding (\<^verbatim>\<open>encoding.rs\<close>): the trait as a record of functions, the built-in encodings, composite
    keys and the registry.  Locale \<open>lawful_encoding\<close> is the documented contract, interpreted for
    each of them.
  \<^item> Btree_Page (the methods of \<open>Tree\<close> in \<^verbatim>\<open>btree.rs\<close> that look at one page): the digest check, the choice of
    a child and the searches of a leaf, equal to a scan of the keys.  Locale \<open>searchable_encoding\<close> adds
    what the check relies on.
  \<^item> Budget (\<^verbatim>\<open>budget.rs\<close>): reservation, charges, bookkeeping and size estimates; the interleaving
    of atomic accesses as the step relation \<open>budget_step\<close>, with the accounting invariant.
  \<^item> Io (\<^verbatim>\<open>io.rs\<close>): the read loops over any source that keeps the contract \<open>page_source\<close>.
  \<^item> Catalog (\<^verbatim>\<open>format/catalog.rs\<close> and \<open>read_catalog\<close> of \<^verbatim>\<open>db.rs\<close>): the descriptors, their parser with its
    charges, and the loop that reads them.
  \<^item> Page_Sink (\<^verbatim>\<open>filter.rs\<close>, \<^verbatim>\<open>builder/sink.rs\<close>): the output file and the directory spool.
  \<^item> Tree_Writer (\<^verbatim>\<open>builder/tree.rs\<close>): the operations; Tree_Build: the invariant of a build, described by
    abstract pages, that finishing ends, and that the references handed out name the values.
  \<^item> Pages (\<^verbatim>\<open>page.rs\<close>): pins, guards and operations that may fail; locale \<open>page_store\<close> is what trees
    rely on of a store.  Btree (\<^verbatim>\<open>btree.rs\<close>): descent, walk along the leaves, lookups, the
    ends of a tree and lookups among cached pages, over any store.
  \<^item> Memory (the counted buffers of \<^verbatim>\<open>page.rs\<close>), Cache and Cache_Account (\<^verbatim>\<open>cache.rs\<close>): shards with map and ring,
    hits, loading, publishing and CLOCK eviction, and the account they keep.
  \<^item> Directory (\<^verbatim>\<open>directory.rs\<close>), Store and Store_Spec (\<^verbatim>\<open>store.rs\<close>): \<open>page_of\<close> is the specification, a page
    of the file with no cache and no budget; \<open>store_inv\<close> is the invariant.  The store interprets
    \<open>page_store\<close>: it refines \<open>page_of\<close> up to errors of the machine (\<open>store_error\<close>), stays
    within the budget, and refuses memory only when nothing is left to give up.
  \<^item> Tree_Search: locale \<open>tree_store\<close> joins a store and an encoding; on a tree the writer built, a
    search finds the first entry its operator accepts.
  \<^item> Table (\<open>get\<close>, \<open>get_cached\<close>, \<open>contains_key\<close> of \<^verbatim>\<open>db.rs\<close>): the file of a build read back through the
    store, so that a lookup answers with the rows pushed; and the values the writer
    accepts that no reader can read.

  \<^bold>\<open>Conventions.\<close>  Operations on a state return \<open>None\<close> when they do not return, and an error or a value
  with the new state otherwise.  Errors are their kind, location and budget figures, without
  messages.  \<open>usize\<close> is 64 bits wide; lengths and offsets are natural numbers with the checked,
  saturating and wrapping operations of the source written out.  Arithmetic is that of a release build.

  \<^bold>\<open>Bounds and loops.\<close>  Loops that may run forever are partial functions, and that they return is proved:
  for the read loops from \<open>page_source\<close> (a source is interrupted only finitely often in a row), for
  the directory from \<open>reclaims\<close>, for \<open>finish\<close> from the invariant of the build, for lookups from \<open>page_store\<close>
  and the tree on disk.  The Eytzinger check takes a number of turns, the slot count; theorem
  \<open>eytzinger_check_in_order\<close> shows that it is enough.  A build is bounded by the format's own limits: page size
  below \<open>2 ^ 31\<close>, at most 2147483647 pages, a file below \<open>2 ^ 63\<close> bytes.

  \<^bold>\<open>Parameters.\<close>  Page filters, page sources, the callbacks of the tree writer, the capacities the standard
  containers report (\<open>Alloc\<close>) and the sizes the compiler gives to types (\<open>Layout\<close>) are arguments.  A source may
  answer short, so the errors of the machine include the corruption error of a read that ends before
  its range does.

  \<^bold>\<open>Not modelled.\<close>  Cursors and counting (\<^verbatim>\<open>query.rs\<close>), secondary index queries (\<^verbatim>\<open>index.rs\<close>), the blob reader
  (\<^verbatim>\<open>blob.rs\<close>), whole-file verification (\<^verbatim>\<open>verify.rs\<close>), the builder's configuration and external sort
  (\<^verbatim>\<open>builder/mod.rs\<close>, \<^verbatim>\<open>builder/spool.rs\<close>): that rows arrive in key order is a hypothesis.  Temporary files and file
  sources are the operating system's, metrics are not read by any operation, and the value codecs,
  the async layer and the command line only wrap the library.  The cache and the store are modelled for
  one caller at a time, with callers that keep and drop pins between operations; only the budget is modelled under
  interleaving.  A cache slot that fails to settle its bookkeeping is ignored, as in a release build, where the
  debug assertion is absent.
\<close>

end
